(* ===== verification/Prelude.thy ===== *)
theory Prelude
  imports Main "HOL-Library.Code_Target_Nat" "HOL-Library.Word" "HOL-Library.Char_ord" "HOL-Library.List_Lexorder"
begin

text \<open>
  Shared vocabulary of the development: the outcome of a Rust function (\<open>Ok\<close>, \<open>Err\<close>, or a
  panic), fixed-width \<open>usize\<close>/\<open>u64\<close> arithmetic in the two build profiles, the parts of
  \<open>std::string\<close> and \<open>std::io::BufRead\<close> the sources use, and the lemmas on lists,
  tokens and lines that every component shares.

  A Rust \<open>String\<close> is an Isabelle \<^typ>\<open>string\<close> whose characters are the Unicode scalar values
  U+0000 to U+00FF; on those, byte-wise comparison of the UTF-8 encodings (the order of
  \<open>String\<close>) is the lexicographic order of the code points, i.e. the order of
  \<open>HOL-Library.List_Lexorder\<close>.
\<close>

section \<open>Collections of rules\<close>

named_theorems run_simps \<open>unfolding rules for outcomes\<close>
named_theorems token_intros \<open>introduction rules for whitespace-free words\<close>
named_theorems line_simps \<open>evaluation of the line-oriented text interface\<close>

section \<open>Outcomes of Rust functions\<close>

text \<open>
  \<open>Ok\<close> and \<open>Err\<close> are Rust's \<open>Result\<close>; \<open>Panic\<close> is a panicking thread. A function that may also
  run (or block) forever returns an option of an outcome, \<open>None\<close> being \<open>does not return\<close>.
\<close>

datatype ('a, 'e) run = Ok 'a | Err 'e | Panic

fun run_bind :: "('a, 'e) run \<Rightarrow> ('a \<Rightarrow> ('b, 'e) run) \<Rightarrow> ('b, 'e) run" where
  "run_bind (Ok x) f = f x"
| "run_bind (Err e) f = Err e"
| "run_bind Panic f = Panic"

definition ok_or :: "'a option \<Rightarrow> 'e \<Rightarrow> ('a, 'e) run" where
  "ok_or x e = (case x of Some y \<Rightarrow> Ok y | None \<Rightarrow> Err e)"

section \<open>Machine integers\<close>

type_synonym u64 = "64 word"

abbreviation u64_MAX :: u64 where
  "u64_MAX \<equiv> - 1"

text \<open>
  A \<open>usize\<close> is a natural number below \<open>2 ^ 64\<close>. The profile flag \<open>dbg\<close> is true for a debug build
  (\<open>cargo build\<close>), where arithmetic overflow panics and \<open>debug_assert!\<close> is checked, and false for
  a release build (\<open>cargo build -r\<close>), where arithmetic wraps.
\<close>

definition usize_add :: "bool \<Rightarrow> nat \<Rightarrow> nat \<Rightarrow> (nat, 'e) run" where
  "usize_add dbg a b =
     (if a + b < 2 ^ 64 then Ok (a + b) else if dbg then Panic else Ok ((a + b) mod 2 ^ 64))"

definition usize_sub :: "bool \<Rightarrow> nat \<Rightarrow> nat \<Rightarrow> (nat, 'e) run" where
  "usize_sub dbg a b =
     (if b \<le> a then Ok (a - b) else if dbg then Panic else Ok ((a + 2 ^ 64 - b) mod 2 ^ 64))"

definition usize_mul :: "bool \<Rightarrow> nat \<Rightarrow> nat \<Rightarrow> (nat, 'e) run" where
  "usize_mul dbg a b =
     (if a * b < 2 ^ 64 then Ok (a * b) else if dbg then Panic else Ok ((a * b) mod 2 ^ 64))"

definition u64_inc :: "bool \<Rightarrow> u64 \<Rightarrow> (u64, 'e) run" where
  "u64_inc dbg t = (if t = u64_MAX \<and> dbg then Panic else Ok (t + 1))"

definition debug_assert :: "bool \<Rightarrow> bool \<Rightarrow> (unit, 'e) run" where
  "debug_assert dbg b = (if dbg \<and> \<not> b then Panic else Ok ())"

section \<open>Iterators\<close>

fun iter_min :: "'a::linorder list \<Rightarrow> 'a option" where
  "iter_min [] = None"
| "iter_min (x # xs) = Some (case iter_min xs of None \<Rightarrow> x | Some y \<Rightarrow> min x y)"

section \<open>Strings\<close>

definition newline :: char where
  "newline = CHR 0x0A"

text \<open>\<open>char::is_whitespace\<close> on U+0000 to U+00FF.\<close>

definition is_whitespace :: "char \<Rightarrow> bool" where
  "is_whitespace c =
     (let n = (of_char c :: nat) in (9 \<le> n \<and> n \<le> 13) \<or> n = 32 \<or> n = 133 \<or> n = 160)"

definition trim :: "string \<Rightarrow> string" where
  "trim s = rev (dropWhile is_whitespace (rev (dropWhile is_whitespace s)))"

text \<open>
  \<open>str::split_whitespace\<close>; the iterator is the list of the segments it has still to yield.
\<close>

function split_whitespace :: "string \<Rightarrow> string list" where
  "split_whitespace s =
     (case dropWhile is_whitespace s of
        [] \<Rightarrow> []
      | c # cs \<Rightarrow>
          takeWhile (\<lambda>x. \<not> is_whitespace x) (c # cs)
            # split_whitespace (dropWhile (\<lambda>x. \<not> is_whitespace x) cs))"
  by pat_completeness auto
termination
proof (relation "measure length", simp)
  fix s x and cs :: string
  assume h: "dropWhile is_whitespace s = x # cs"
  have "length (dropWhile (\<lambda>x. \<not> is_whitespace x) cs) \<le> length cs"
    by (rule length_dropWhile_le)
  also have "\<dots> < length (dropWhile is_whitespace s)" by (simp add: h)
  also have "\<dots> \<le> length s" by (rule length_dropWhile_le)
  finally show "(dropWhile (\<lambda>x. \<not> is_whitespace x) cs, s) \<in> measure length" by simp
qed

declare split_whitespace.simps [simp del]

fun starts_with :: "string \<Rightarrow> char \<Rightarrow> bool" where
  "starts_with [] c = False"
| "starts_with (x # xs) c = (x = c)"

text \<open>\<open>str::contains\<close> with a string pattern.\<close>

fun str_contains :: "string \<Rightarrow> string \<Rightarrow> bool" where
  "str_contains [] p = (p = [])"
| "str_contains (x # xs) p = (take (length p) (x # xs) = p \<or> str_contains xs p)"

definition is_token :: "string \<Rightarrow> bool" where
  "is_token w = (w \<noteq> [] \<and> list_all (\<lambda>c. \<not> is_whitespace c) w)"

text \<open>\<open>Display\<close> of an unsigned integer, and the zero-padded form \<open>{:0w$}\<close>.\<close>

definition digit_char :: "nat \<Rightarrow> char" where
  "digit_char d = char_of (48 + d)"

fun show_nat :: "nat \<Rightarrow> string" where
  "show_nat n = (if n < 10 then [digit_char n] else show_nat (n div 10) @ [digit_char (n mod 10)])"

declare show_nat.simps [simp del]

definition pad_zeros :: "nat \<Rightarrow> nat \<Rightarrow> string" where
  "pad_zeros w n = replicate (w - length (show_nat n)) (digit_char 0) @ show_nat n"

section \<open>Buffered readers\<close>

text \<open>
  A reader holds the text that is already available and what happens once it is used up: end of
  file, an I/O error, or blocking forever on a peer that writes nothing more.
\<close>

datatype stream_end = Eof | Fails string | Blocks

record reader =
  rd_rest :: string
  rd_end :: stream_end

fun utf8_len :: "string \<Rightarrow> nat" where
  "utf8_len [] = 0"
| "utf8_len (c # cs) = (if (of_char c :: nat) < 128 then 1 else 2) + utf8_len cs"

fun take_line :: "string \<Rightarrow> (string \<times> string) option" where
  "take_line [] = None"
| "take_line (c # cs) =
     (if c = newline then Some ([c], cs)
      else case take_line cs of None \<Rightarrow> None | Some (l, r) \<Rightarrow> Some (c # l, r))"

text \<open>
  \<open>BufRead::read_line\<close>: appends the next line, with its newline, to the buffer and returns the
  number of bytes read; at the end of file it appends what is left, possibly nothing.
\<close>

definition read_line ::
  "reader \<Rightarrow> string \<Rightarrow> (nat \<times> string \<times> reader, string) run option" where
  "read_line r buffer =
     (case take_line (rd_rest r) of
        Some (l, rest) \<Rightarrow> Some (Ok (utf8_len l, buffer @ l, r\<lparr>rd_rest := rest\<rparr>))
      | None \<Rightarrow>
          (case rd_end r of
             Eof \<Rightarrow> Some (Ok (utf8_len (rd_rest r), buffer @ rd_rest r, r\<lparr>rd_rest := []\<rparr>))
           | Fails msg \<Rightarrow> Some (Err msg)
           | Blocks \<Rightarrow> None))"

text \<open>Reading a given number of messages, one after the other, with a decoder of one message.\<close>

fun decode_n ::
  "(reader \<Rightarrow> ('m \<times> reader, 'e) run option) \<Rightarrow> nat \<Rightarrow> reader \<Rightarrow> ('m list \<times> reader, 'e) run option"
where
  "decode_n dec 0 r = Some (Ok ([], r))"
| "decode_n dec (Suc n) r =
     (case dec r of
        None \<Rightarrow> None
      | Some (Err e) \<Rightarrow> Some (Err e)
      | Some Panic \<Rightarrow> Some Panic
      | Some (Ok (m, r')) \<Rightarrow>
          (case decode_n dec n r' of
             None \<Rightarrow> None
           | Some res \<Rightarrow> Some (run_bind res (\<lambda>(ms, r''). Ok (m # ms, r'')))))"

section \<open>The interface of a text codec\<close>

text \<open>
  What the two ends of the text interface promise each other: decoding the text of a valid message
  gives the message back and leaves exactly the text that follows it, whatever that is. The laws
  below are what both directions (calls and responses) inherit.
\<close>

locale line_codec =
  fixes enc :: "'m \<Rightarrow> string"
    and dec :: "reader \<Rightarrow> ('m \<times> reader, 'e) run option"
    and valid :: "'m \<Rightarrow> bool"
  assumes dec_enc:
    "valid m \<Longrightarrow> dec (r\<lparr>rd_rest := enc m @ rest\<rparr>) = Some (Ok (m, r\<lparr>rd_rest := rest\<rparr>))"
begin

lemma decode_stream:
  "list_all valid ms \<Longrightarrow>
     decode_n dec (length ms) (r\<lparr>rd_rest := concat (map enc ms) @ rest\<rparr>)
       = Some (Ok (ms, r\<lparr>rd_rest := rest\<rparr>))"
proof (induction ms)
  case (Cons m ms)
  then show ?case
    using dec_enc [where m = m and r = r and rest = "concat (map enc ms) @ rest"] by simp
qed simp

lemma prefix_free:
  assumes "valid m" "valid m'" and eq: "enc m @ x = enc m' @ y"
  shows "m = m' \<and> x = y"
  using dec_enc [OF assms(1), where r = "\<lparr>rd_rest = [], rd_end = Eof\<rparr>" and rest = x]
    dec_enc [OF assms(2), where r = "\<lparr>rd_rest = [], rd_end = Eof\<rparr>" and rest = y] eq
  by simp

lemma stream_unique:
  assumes "list_all valid ms" "list_all valid ms'"
    and "concat (map enc ms) = concat (map enc ms')" and "length ms = length ms'"
  shows "ms = ms'"
  using assms(4,1-3)
proof (induction ms ms' rule: list_induct2)
  case (Cons m ms m' ms')
  then have "m = m' \<and> concat (map enc ms) = concat (map enc ms')"
    using prefix_free [of m m'] by simp
  with Cons show ?case by simp
qed simp

end

section \<open>Lemmas on outcomes and integers\<close>

lemma run_bind_Ok_iff:
  "run_bind m f = Ok y \<longleftrightarrow> (\<exists>x. m = Ok x \<and> f x = Ok y)"
  by (cases m) auto

lemma usize_ops_small [simp]:
  "a + b < 2 ^ 64 \<Longrightarrow> usize_add dbg a b = Ok (a + b)"
  "b \<le> a \<Longrightarrow> usize_sub dbg a b = Ok (a - b)"
  "a * b < 2 ^ 64 \<Longrightarrow> usize_mul dbg a b = Ok (a * b)"
  by (simp_all add: usize_add_def usize_sub_def usize_mul_def)

lemma debug_assert_simps [simp]:
  "debug_assert False b = Ok ()"
  "debug_assert dbg True = Ok ()"
  "debug_assert True False = Panic"
  by (simp_all add: debug_assert_def)

lemma unat_u64_inc:
  assumes "t \<noteq> u64_MAX"
  shows "unat (t + (1 :: u64)) = Suc (unat t)"
proof -
  from assms have "1 + t \<noteq> 0" by (metis add_eq_0_iff)
  then show ?thesis by (simp add: unatSuc add.commute)
qed

lemma u64_less_inc: "t \<noteq> u64_MAX \<Longrightarrow> t < t + (1 :: u64)"
  by (simp add: word_less_nat_alt unat_u64_inc)

lemma iter_min_Min: "xs \<noteq> [] \<Longrightarrow> iter_min xs = Some (Min (set xs))"
proof (induction xs)
  case (Cons x xs)
  then show ?case by (cases "xs = []") auto
qed simp

section \<open>Loops\<close>

text \<open>
  A \<open>while\<close> loop whose body may break, return an error, panic or not return: what holds when it ends,
  given an invariant \<open>J\<close>, what a \<open>break\<close> ensures (\<open>F\<close>), and a measure.
\<close>

locale break_loop =
  fixes body :: "'s \<Rightarrow> (bool \<times> 's, 'e) run option" and cond :: "'s \<Rightarrow> bool"
    and loop :: "'s \<Rightarrow> ('s, 'e) run option"
    and J :: "'s \<Rightarrow> bool" and F :: "'s \<Rightarrow> bool" and msr :: "'s \<Rightarrow> nat"
  assumes unfold:
      "loop st =
         (if cond st then
            (case body st of
               None \<Rightarrow> None
             | Some (Err e) \<Rightarrow> Some (Err e)
             | Some Panic \<Rightarrow> Some Panic
             | Some (Ok (continue, st')) \<Rightarrow> if continue then loop st' else Some (Ok st'))
          else Some (Ok st))"
    and step:
      "J st \<Longrightarrow> cond st \<Longrightarrow> body st = Some res \<Longrightarrow>
         (\<exists>e. res = Err e) \<or> (\<exists>st'. res = Ok (True, st') \<and> J st' \<and> msr st' < msr st) \<or>
         (\<exists>st'. res = Ok (False, st') \<and> F st')"
begin

lemma outcome:
  assumes "J st" and "loop st = Some res"
  shows "(\<exists>e. res = Err e) \<or> (\<exists>st'. res = Ok st' \<and> (J st' \<and> \<not> cond st' \<or> F st'))"
  using assms
proof (induction "msr st" arbitrary: st rule: less_induct)
  case less
  show ?case
  proof (cases "cond st")
    case False
    with less.prems show ?thesis by (auto simp: unfold [of st])
  next
    case True
    with less.prems(2) obtain r where r: "body st = Some r"
      by (auto simp: unfold [of st] split: option.splits)
    from step [OF less.prems(1) True r] r True less.prems(2) less.hyps show ?thesis
      by (auto simp: unfold [of st])
  qed
qed

text \<open>An error of the loop is an error of one iteration.\<close>

lemma error_origin:
  assumes "J st" and "loop st = Some (Err e)"
  shows "\<exists>st'. J st' \<and> cond st' \<and> body st' = Some (Err e)"
  using assms
proof (induction "msr st" arbitrary: st rule: less_induct)
  case less
  have c: "cond st" using less.prems(2) by (cases "cond st") (auto simp: unfold [of st])
  with less.prems(2) obtain r where r: "body st = Some r"
    by (auto simp: unfold [of st] split: option.splits)
  from step [OF less.prems(1) c r] r c less.prems less.hyps show ?case
    by (auto simp: unfold [of st])
qed

lemma returns:
  assumes "\<And>st. J st \<Longrightarrow> cond st \<Longrightarrow> body st \<noteq> None" and "J st"
  shows "\<exists>res. loop st = Some res"
  using assms(2)
proof (induction "msr st" arbitrary: st rule: less_induct)
  case less
  show ?case
  proof (cases "cond st")
    case False
    then show ?thesis by (simp add: unfold [of st])
  next
    case True
    with assms(1) [OF less.prems] obtain r where r: "body st = Some r" by auto
    from step [OF less.prems True r] r True less.hyps show ?thesis
      by (auto simp: unfold [of st])
  qed
qed

end

section \<open>Lemmas on decimal numbers\<close>

definition digit_val :: "char \<Rightarrow> nat option" where
  "digit_val c =
     (let n = (of_char c :: nat) in if 48 \<le> n \<and> n \<le> 57 then Some (n - 48) else None)"

lemma digit_val_char [simp]: "d < 10 \<Longrightarrow> digit_val (digit_char d) = Some d"
  by (simp add: digit_val_def digit_char_def)

text \<open>The value of a string of digits, from the left.\<close>

definition digits_val :: "string \<Rightarrow> nat" where
  "digits_val s = foldl (\<lambda>n c. 10 * n + (case digit_val c of Some d \<Rightarrow> d | None \<Rightarrow> 0)) 0 s"

lemma digits_val_show [simp]: "digits_val (show_nat n) = n"
proof (induction n rule: show_nat.induct)
  case (1 n)
  then show ?case
    by (cases "n < 10") (simp_all add: digits_val_def show_nat.simps [of n])
qed

lemma digits_val_pad [simp]: "digits_val (pad_zeros w n) = n"
proof -
  have "foldl (\<lambda>n c. 10 * n + (case digit_val c of Some d \<Rightarrow> d | None \<Rightarrow> 0)) 0
      (replicate k (digit_char 0)) = 0" for k
    by (induction k) simp_all
  then show ?thesis
    using digits_val_show [of n] by (simp add: pad_zeros_def digits_val_def del: digits_val_show)
qed

lemma pad_zeros_inj: "pad_zeros w m = pad_zeros w n \<longleftrightarrow> m = n"
  by (metis digits_val_pad)

lemma length_show_nat_le: "n < 10 ^ w \<Longrightarrow> 0 < w \<Longrightarrow> length (show_nat n) \<le> w"
proof (induction n arbitrary: w rule: show_nat.induct)
  case (1 n)
  show ?case
  proof (cases "n < 10")
    case True
    with "1.prems" show ?thesis by (simp add: show_nat.simps [of n])
  next
    case False
    with "1.prems" have w: "0 < w - 1" by (cases w; cases "w - 1") auto
    with "1.prems" have "n div 10 < 10 ^ (w - 1)"
      by (simp add: div_less_iff_less_mult flip: power_Suc2)
    from "1.IH" [OF False this w] False w show ?thesis by (simp add: show_nat.simps [of n])
  qed
qed

lemma length_pad_zeros: "n < 10 ^ w \<Longrightarrow> 0 < w \<Longrightarrow> length (pad_zeros w n) = w"
  using length_show_nat_le [of n w] by (simp add: pad_zeros_def)

lemma show_nat_digits: "list_all (\<lambda>c. \<exists>d < 10. c = digit_char d) (show_nat n)"
proof (induction n rule: show_nat.induct)
  case (1 n)
  then show ?case
    by (cases "n < 10") (auto simp: show_nat.simps [of n] intro: exI [of _ "n mod 10"])
qed

section \<open>Lemmas on whitespace, tokens and lines\<close>

lemma is_whitespace_space [simp]: "is_whitespace (CHR '' '')"
  by (simp add: is_whitespace_def)

lemma is_whitespace_newline [simp]: "is_whitespace newline"
  by (simp add: is_whitespace_def newline_def)

lemma is_tokenI [token_intros]:
  "w \<noteq> [] \<Longrightarrow> list_all (\<lambda>c. \<not> is_whitespace c) w \<Longrightarrow> is_token w"
  by (simp add: is_token_def)

lemma token_takeWhile:
  "list_all (\<lambda>c. \<not> is_whitespace c) w \<Longrightarrow> is_whitespace c \<Longrightarrow>
     takeWhile (\<lambda>x. \<not> is_whitespace x) (w @ c # r) = w \<and>
     dropWhile (\<lambda>x. \<not> is_whitespace x) (w @ c # r) = c # r"
  by (induction w) auto

lemma split_whitespace_skip [line_simps]:
  "is_whitespace c \<Longrightarrow> split_whitespace (c # s) = split_whitespace s"
  by (subst (1 2) split_whitespace.simps) simp

lemma split_whitespace_Nil [simp]: "split_whitespace [] = []"
  by (simp add: split_whitespace.simps)

lemma split_whitespace_token_sep [line_simps]:
  assumes "is_token w" and "is_whitespace c"
  shows "split_whitespace (w @ c # s) = w # split_whitespace s"
proof -
  from assms(1) obtain x xs where w: "w = x # xs" and x: "\<not> is_whitespace x"
    and xs: "list_all (\<lambda>c. \<not> is_whitespace c) xs"
    by (cases w) (auto simp: is_token_def)
  note tw = token_takeWhile [OF xs assms(2), of s]
  have "split_whitespace (w @ c # s) = w # split_whitespace (c # s)"
    by (subst split_whitespace.simps) (simp add: w x tw)
  then show ?thesis by (simp add: split_whitespace_skip assms(2))
qed

lemma split_whitespace_blank:
  "list_all is_whitespace s \<Longrightarrow> split_whitespace s = []"
  by (induction s) (auto simp: split_whitespace_skip)

lemma split_whitespace_token [line_simps]: "is_token w \<Longrightarrow> split_whitespace w = [w]"
  by (cases w; subst split_whitespace.simps)
     (auto simp: is_token_def list_all_iff takeWhile_eq_all_conv [THEN iffD2]
        dropWhile_eq_Nil_conv [THEN iffD2])

lemma split_whitespace_tokens: "list_all is_token (split_whitespace s)"
proof (induction s rule: split_whitespace.induct)
  case (1 s)
  show ?case
  proof (cases "dropWhile is_whitespace s")
    case Nil
    then show ?thesis by (simp add: split_whitespace_blank list_all_iff)
  next
    case (Cons c cs)
    then have "\<not> is_whitespace c" by (simp add: dropWhile_eq_Cons_conv)
    moreover have "list_all (\<lambda>x. \<not> is_whitespace x) (takeWhile (\<lambda>x. \<not> is_whitespace x) cs)"
      by (auto simp: list_all_iff dest: set_takeWhileD)
    ultimately show ?thesis
      using "1.IH" Cons
      by (subst split_whitespace.simps) (simp add: is_token_def [of "c # _"])
  qed
qed

lemma split_whitespace_append_blank:
  assumes "list_all is_whitespace b"
  shows "split_whitespace (s @ b) = split_whitespace s"
proof (induction s rule: split_whitespace.induct)
  case (1 s)
  from assms have b: "takeWhile (\<lambda>x. \<not> is_whitespace x) b = []"
      "dropWhile (\<lambda>x. \<not> is_whitespace x) b = b"
    by (cases b; simp)+
  show ?case
  proof (cases "dropWhile is_whitespace s")
    case Nil
    then have "list_all is_whitespace s" by (simp add: list_all_iff)
    with assms show ?thesis by (simp add: split_whitespace_blank)
  next
    case (Cons c cs)
    then have "\<not> (\<forall>x \<in> set s. is_whitespace x)"
      by (metis dropWhile_eq_Nil_conv list.distinct(1))
    with Cons have "dropWhile is_whitespace (s @ b) = c # cs @ b"
      by (auto simp: dropWhile_append)
    moreover have "dropWhile (\<lambda>x. \<not> is_whitespace x) (cs @ b)
        = dropWhile (\<lambda>x. \<not> is_whitespace x) cs @ b"
      "takeWhile (\<lambda>x. \<not> is_whitespace x) (cs @ b) = takeWhile (\<lambda>x. \<not> is_whitespace x) cs"
      using b by (simp_all add: dropWhile_append takeWhile_append takeWhile_eq_all_conv [THEN iffD2])
    ultimately show ?thesis
      using "1.IH" [OF Cons] Cons
      by (simp add: split_whitespace.simps [of s] split_whitespace.simps [of "s @ b"])
  qed
qed

lemma split_whitespace_trim [line_simps]: "split_whitespace (trim s) = split_whitespace s"
proof -
  define t where "t = dropWhile is_whitespace s"
  have "t = rev (dropWhile is_whitespace (rev t)) @ rev (takeWhile is_whitespace (rev t))"
    by (metis rev_append rev_rev_ident takeWhile_dropWhile_id)
  moreover have "list_all is_whitespace (rev (takeWhile is_whitespace (rev t)))"
    by (auto simp: list_all_iff dest: set_takeWhileD)
  ultimately have "split_whitespace (trim s) = split_whitespace t"
    unfolding trim_def t_def [symmetric] by (metis split_whitespace_append_blank)
  also have "\<dots> = split_whitespace s"
    unfolding t_def by (induction s) (auto simp: split_whitespace_skip)
  finally show ?thesis .
qed

lemma trim_eq_Nil_iff: "trim s = [] \<longleftrightarrow> list_all is_whitespace s"
proof -
  have "list_all is_whitespace (dropWhile is_whitespace s) = list_all is_whitespace s"
    by (induction s) auto
  then show ?thesis
    by (simp add: trim_def list_all_iff)
qed

text \<open>
  A line of words separated by single spaces: the shape of every message of the text interface.
\<close>

fun words_line :: "string list \<Rightarrow> string" where
  "words_line [] = [newline]"
| "words_line (w # ws) = w @ (if ws = [] then [newline] else CHR '' '' # words_line ws)"

lemma split_words_line [line_simps]:
  "list_all is_token ws \<Longrightarrow> split_whitespace (words_line ws) = ws"
proof (induction ws)
  case (Cons w ws)
  then show ?case
    by (cases "ws = []") (simp_all add: split_whitespace_token_sep)
qed (simp add: split_whitespace_skip)

lemma newline_notin_token: "is_token w \<Longrightarrow> newline \<notin> set w"
  by (auto simp: is_token_def list_all_iff)

lemma take_line_append [line_simps]:
  "newline \<notin> set l \<Longrightarrow> take_line (l @ newline # r) = Some (l @ [newline], r)"
  by (induction l) auto

lemma take_line_prefix:
  "newline \<notin> set l \<Longrightarrow>
     take_line (l @ r) = (case take_line r of None \<Rightarrow> None | Some (a, b) \<Rightarrow> Some (l @ a, b))"
  by (induction l) (auto split: option.splits)

lemma take_line_words [line_simps]:
  "list_all is_token ws \<Longrightarrow> take_line (words_line ws @ r) = Some (words_line ws, r)"
proof (induction ws)
  case (Cons w ws)
  then have w: "newline \<notin> set w" by (simp add: newline_notin_token)
  have sp: "CHR '' '' \<noteq> newline" by (simp add: newline_def)
  from w sp Cons show ?case
    by (cases "ws = []") (simp_all add: take_line_prefix)
qed simp

lemma dropWhile_token: "is_token w \<Longrightarrow> dropWhile is_whitespace (w @ s) = w @ s"
  by (cases w) (auto simp: is_token_def)

lemma dropWhile_rev_token: "is_token w \<Longrightarrow> dropWhile is_whitespace (rev w @ s) = rev w @ s"
  by (rule dropWhile_token) (auto simp: is_token_def list_all_iff)

lemma trim_token [line_simps]: "is_token w \<Longrightarrow> trim (w @ [newline]) = w"
  using dropWhile_rev_token [of w "[]"] by (simp add: trim_def dropWhile_token)

lemma trim_two_tokens [line_simps]:
  assumes "is_token k" and "is_token v"
  shows "trim (k @ CHR '' '' # v @ [newline]) = k @ CHR '' '' # v"
  using dropWhile_rev_token [OF assms(2), of "CHR '' '' # rev k"]
  by (simp add: trim_def dropWhile_token assms(1))

lemma trim_skip [line_simps]: "is_whitespace c \<Longrightarrow> trim (c # s) = trim s"
  by (simp add: trim_def)

lemma trim_words_line_nonempty:
  "ws \<noteq> [] \<Longrightarrow> list_all is_token ws \<Longrightarrow> trim (words_line ws) \<noteq> []"
  by (cases ws; cases "hd ws") (auto simp: trim_eq_Nil_iff is_token_def)

lemma two_tokens_eq_iff:
  assumes "is_token a" "is_token b" "is_token c" "is_token d"
  shows "a @ CHR '' '' # b = c @ CHR '' '' # d \<longleftrightarrow> a = c \<and> b = d"
proof
  assume "a @ CHR '' '' # b = c @ CHR '' '' # d"
  then have "split_whitespace (a @ CHR '' '' # b) = split_whitespace (c @ CHR '' '' # d)"
    by simp
  with assms show "a = c \<and> b = d"
    by (simp add: split_whitespace_token_sep split_whitespace_token)
qed simp

end
