(* ===== verification/Errors.thy ===== *)
theory Errors
  imports Prelude
begin

text \<open>
  The unified error type of the runner (\<open>runner/src/error.rs\<close>): its variants, its \<open>Display\<close>
  implementation, and the \<open>From\<close> conversions from the standard library's error types that the
  \<open>?\<close> operator applies. The messages of the channel errors are those of \<open>std::sync::mpsc\<close>.
\<close>

section \<open>The error type\<close>

datatype RunnerError = Io string | Parse string | Chan string | Join

fun fmt_error :: "RunnerError \<Rightarrow> string" where
  "fmt_error (Io msg) = ''io error: '' @ msg"
| "fmt_error (Parse msg) = ''parse error: '' @ msg"
| "fmt_error (Chan msg) = ''chan error: '' @ msg"
| "fmt_error Join = ''thread join error''"

section \<open>Errors of the standard library and their conversions\<close>

datatype std_error =
    IoError string
  | ParseBoolError string
  | ParseIntError string
  | ParseFloatError string
  | RecvError
  | RecvTimeout
  | RecvDisconnected
  | SendError

fun std_to_string :: "std_error \<Rightarrow> string" where
  "std_to_string (IoError msg) = msg"
| "std_to_string (ParseBoolError msg) = msg"
| "std_to_string (ParseIntError msg) = msg"
| "std_to_string (ParseFloatError msg) = msg"
| "std_to_string RecvError = ''receiving on a closed channel''"
| "std_to_string RecvTimeout = ''timed out waiting on channel''"
| "std_to_string RecvDisconnected = ''channel is empty and sending half is closed''"
| "std_to_string SendError = ''sending on a closed channel''"

fun from_std :: "std_error \<Rightarrow> RunnerError" where
  "from_std (IoError msg) = Io (std_to_string (IoError msg))"
| "from_std (ParseBoolError msg) = Parse (std_to_string (ParseBoolError msg))"
| "from_std (ParseIntError msg) = Parse (std_to_string (ParseIntError msg))"
| "from_std (ParseFloatError msg) = Parse (std_to_string (ParseFloatError msg))"
| "from_std RecvError = Chan (std_to_string RecvError)"
| "from_std RecvTimeout = Chan (std_to_string RecvTimeout)"
| "from_std RecvDisconnected = Chan (std_to_string RecvDisconnected)"
| "from_std SendError = Chan (std_to_string SendError)"

text \<open>The \<open>?\<close> operator on a \<open>Result<T, io::Error>\<close>.\<close>

fun io_question :: "('a, string) run \<Rightarrow> ('a, RunnerError) run" where
  "io_question (Ok x) = Ok x"
| "io_question (Err msg) = Err (from_std (IoError msg))"
| "io_question Panic = Panic"

definition is_chan :: "RunnerError \<Rightarrow> bool" where
  "is_chan e = (case e of Chan _ \<Rightarrow> True | _ \<Rightarrow> False)"

section \<open>Lemmas\<close>

lemma is_chan_from_std:
  "is_chan (from_std e) \<longleftrightarrow> e \<in> {RecvError, RecvTimeout, RecvDisconnected, SendError}"
  by (cases e) (simp_all add: is_chan_def)

end
