(* ===== verification/Ioapi.thy ===== *)
theory Ioapi
  imports Errors
begin

text \<open>
  The text interface between the runner and a key-value client (\<open>runner/src/ioapi.rs\<close>): the call
  and response types, the writer of call lines, \<open>update_info\<close>, and the reader of response lines.
  The two loops of the reader are \<^theory_text>\<open>partial_function\<close>s in the option monad, so that
  spinning at the end of file is the value \<^term>\<open>None\<close>.

  The reference client declares the same two enums (\<open>refcli/src/main.rs\<close>, lines 8 to 42); it is
  modelled over these datatypes.
\<close>

section \<open>Calls\<close>

datatype KvCall =
    Put (call_key: string) (call_value: string)
  | Swap (call_key: string) (call_value: string)
  | Get (call_key: string)
  | Scan (call_start: string) (call_end: string)
  | Delete (call_key: string)
  | Stop

fun fmt_call :: "KvCall \<Rightarrow> string" where
  "fmt_call (KvCall.Put key value) = ''PUT '' @ key @ '' '' @ value @ [newline]"
| "fmt_call (KvCall.Swap key value) = ''SWAP '' @ key @ '' '' @ value @ [newline]"
| "fmt_call (KvCall.Get key) = ''GET '' @ key @ [newline]"
| "fmt_call (KvCall.Scan key_start key_end) =
     ''SCAN '' @ key_start @ '' '' @ key_end @ [newline]"
| "fmt_call (KvCall.Delete key) = ''DELETE '' @ key @ [newline]"
| "fmt_call KvCall.Stop = ''STOP'' @ [newline]"

text \<open>The writer is the function that appends text to the stream, or fails with an I/O error.\<close>

definition into_write ::
  "KvCall \<Rightarrow> (string \<Rightarrow> ('w, string) run) \<Rightarrow> ('w, RunnerError) run" where
  "into_write call writer = io_question (writer (fmt_call call))"

fun update_info :: "KvCall \<Rightarrow> (string \<times> string option) option" where
  "update_info (KvCall.Put key value) = Some (key, Some value)"
| "update_info (KvCall.Swap key value) = Some (key, Some value)"
| "update_info (KvCall.Delete key) = Some (key, None)"
| "update_info _ = None"

section \<open>Responses\<close>

datatype KvResp =
    Put (resp_key: string) (resp_found: bool)
  | Swap (resp_key: string) (resp_old: "string option")
  | Get (resp_key: string) (resp_value: "string option")
  | Scan (resp_start: string) (resp_end: string) (resp_entries: "(string \<times> string) list")
  | Delete (resp_key: string) (resp_found: bool)
  | Stop

definition invalid_line :: "string \<Rightarrow> RunnerError" where
  "invalid_line buffer = Io (''invalid line: '' @ buffer)"

text \<open>The inner loop of \<open>read_next_line\<close>, which keeps appending to the same buffer.\<close>

partial_function (option) read_nonblank ::
  "reader \<Rightarrow> string \<Rightarrow> (nat \<times> string \<times> reader, RunnerError) run option" where
  "read_nonblank r buffer =
     (case read_line r buffer of
        None \<Rightarrow> None
      | Some res \<Rightarrow>
          (case io_question res of
             Err e \<Rightarrow> Some (Err e)
           | Panic \<Rightarrow> Some Panic
           | Ok (n, buffer', r') \<Rightarrow>
               if trim buffer' \<noteq> [] then Some (Ok (n, buffer', r'))
               else read_nonblank r' buffer'))"

definition read_next_line ::
  "reader \<Rightarrow> string \<Rightarrow> (nat \<times> string \<times> reader, RunnerError) run option" where
  "read_next_line r buffer = read_nonblank r []"

definition get_segs_of_line :: "string \<Rightarrow> string list" where
  "get_segs_of_line buffer = split_whitespace buffer"

fun expect_next_seg :: "string list \<Rightarrow> string \<Rightarrow> (string \<times> string list, RunnerError) run" where
  "expect_next_seg (s # segs) buffer = Ok (s, segs)"
| "expect_next_seg [] buffer = Err (invalid_line buffer)"

text \<open>The \<open>found\<close> field of a \<open>PUT\<close> or \<open>DELETE\<close> response.\<close>

definition parse_found :: "string \<Rightarrow> (bool, RunnerError) run" where
  "parse_found found =
     (if found = ''found'' then Ok True
      else if found = ''not_found'' then Ok False
      else Err (Parse (''invalid 'found' field: '' @ found)))"

text \<open>The optional value of a \<open>SWAP\<close> or \<open>GET\<close> response.\<close>

definition parse_opt_value :: "string \<Rightarrow> string option" where
  "parse_opt_value value = (if value = ''null'' then None else Some value)"

text \<open>The loop over the lines of a scan result.\<close>

partial_function (option) read_scan_entries ::
  "reader \<Rightarrow> (string \<times> string) list
     \<Rightarrow> ((string \<times> string) list \<times> reader, RunnerError) run option" where
  "read_scan_entries r ents =
     (case read_next_line r [] of
        None \<Rightarrow> None
      | Some (Err e) \<Rightarrow> Some (Err e)
      | Some Panic \<Rightarrow> Some Panic
      | Some (Ok (_, buffer, r')) \<Rightarrow>
          if trim buffer = ''SCAN END'' then Some (Ok (ents, r'))
          else
            (case run_bind (expect_next_seg (get_segs_of_line buffer) buffer)
                    (\<lambda>(key, entry_segs). run_bind (expect_next_seg entry_segs buffer)
                       (\<lambda>(value, _). Ok (key, value))) of
               Ok (key, value) \<Rightarrow> read_scan_entries r' (ents @ [(key, value)])
             | Err e \<Rightarrow> Some (Err e)
             | Panic \<Rightarrow> Some Panic))"

text \<open>
  The single-line responses: the \<open>match\<close> of \<open>from_read\<close> on the first segment, but for \<open>SCAN\<close>.
\<close>

definition parse_single ::
  "string \<Rightarrow> string list \<Rightarrow> string \<Rightarrow> (KvResp, RunnerError) run" where
  "parse_single tag segs buffer =
     (if tag = ''PUT'' then
        run_bind (expect_next_seg segs buffer) (\<lambda>(key, segs).
        run_bind (expect_next_seg segs buffer) (\<lambda>(f, segs).
        run_bind (parse_found f) (\<lambda>found. Ok (KvResp.Put key found))))
      else if tag = ''SWAP'' then
        run_bind (expect_next_seg segs buffer) (\<lambda>(key, segs).
        run_bind (expect_next_seg segs buffer) (\<lambda>(v, segs).
        Ok (KvResp.Swap key (parse_opt_value v))))
      else if tag = ''GET'' then
        run_bind (expect_next_seg segs buffer) (\<lambda>(key, segs).
        run_bind (expect_next_seg segs buffer) (\<lambda>(v, segs).
        Ok (KvResp.Get key (parse_opt_value v))))
      else if tag = ''DELETE'' then
        run_bind (expect_next_seg segs buffer) (\<lambda>(key, segs).
        run_bind (expect_next_seg segs buffer) (\<lambda>(f, segs).
        run_bind (parse_found f) (\<lambda>found. Ok (KvResp.Delete key found))))
      else if tag = ''STOP'' then Ok KvResp.Stop
      else Err (invalid_line buffer))"

definition parse_scan_head ::
  "string list \<Rightarrow> string \<Rightarrow> (string \<times> string, RunnerError) run" where
  "parse_scan_head segs buffer =
     run_bind (expect_next_seg segs buffer) (\<lambda>(key_start, segs).
     run_bind (expect_next_seg segs buffer) (\<lambda>(key_end, segs).
     run_bind (expect_next_seg segs buffer) (\<lambda>(begin_seg, segs).
     if begin_seg \<noteq> ''BEGIN'' then Err (invalid_line buffer) else Ok (key_start, key_end))))"

definition from_read :: "reader \<Rightarrow> string \<Rightarrow> (KvResp \<times> reader, RunnerError) run option" where
  "from_read r buffer =
     (case read_next_line r buffer of
        None \<Rightarrow> None
      | Some (Err e) \<Rightarrow> Some (Err e)
      | Some Panic \<Rightarrow> Some Panic
      | Some (Ok (_, line, r')) \<Rightarrow>
          (case get_segs_of_line line of
             [] \<Rightarrow> Some (Err (invalid_line line))
           | tag # segs \<Rightarrow>
               if tag = ''SCAN'' then
                 (case parse_scan_head segs line of
                    Err e \<Rightarrow> Some (Err e)
                  | Panic \<Rightarrow> Some Panic
                  | Ok (key_start, key_end) \<Rightarrow>
                      (case read_scan_entries r' [] of
                         None \<Rightarrow> None
                       | Some (Err e) \<Rightarrow> Some (Err e)
                       | Some Panic \<Rightarrow> Some Panic
                       | Some (Ok (ents, r'')) \<Rightarrow>
                           Some (Ok (KvResp.Scan key_start key_end ents, r''))))
               else Some (run_bind (parse_single tag segs line) (\<lambda>resp. Ok (resp, r')))))"

declare read_nonblank.simps [code] read_scan_entries.simps [code]

section \<open>Reading lines\<close>

lemma read_line_complete [line_simps]:
  "take_line (rd_rest r) = Some (l, rest) \<Longrightarrow>
     read_line r buffer = Some (Ok (utf8_len l, buffer @ l, r\<lparr>rd_rest := rest\<rparr>))"
  by (simp add: read_line_def)

lemma read_next_line_at_once [line_simps]:
  "take_line (rd_rest r) = Some (l, rest) \<Longrightarrow> trim l \<noteq> [] \<Longrightarrow>
     read_next_line r buffer = Some (Ok (utf8_len l, l, r\<lparr>rd_rest := rest\<rparr>))"
  by (simp add: read_next_line_def read_nonblank.simps read_line_complete)

lemma take_line_split:
  "take_line s = Some (l, rest) \<Longrightarrow> s = l @ rest \<and> length rest < length s"
  by (induction s arbitrary: l rest) (auto split: if_splits option.splits)

lemma read_nonblank_total:
  assumes "list_all is_whitespace buffer" and "\<not> list_all is_whitespace (rd_rest r)"
    and "rd_end r = Eof"
  shows "\<exists>n line r'. read_nonblank r buffer = Some (Ok (n, line, r')) \<and> trim line \<noteq> [] \<and>
           buffer @ rd_rest r = line @ rd_rest r' \<and> rd_end r' = Eof"
  using assms
proof (induction "length (rd_rest r)" arbitrary: r buffer rule: less_induct)
  case less
  show ?case
  proof (cases "take_line (rd_rest r)")
    case None
    with less.prems show ?thesis
      by (subst read_nonblank.simps) (simp add: read_line_def trim_eq_Nil_iff)
  next
    case (Some p)
    then obtain l rest where l: "take_line (rd_rest r) = Some (l, rest)" by (cases p) auto
    note split = take_line_split [OF l]
    show ?thesis
    proof (cases "list_all is_whitespace l")
      case False
      with l split less.prems show ?thesis
        by (subst read_nonblank.simps) (simp add: read_line_complete trim_eq_Nil_iff)
    next
      case True
      let ?r = "r\<lparr>rd_rest := rest\<rparr>"
      have step: "read_nonblank r buffer = read_nonblank ?r (buffer @ l)"
        using True l less.prems(1)
        by (subst read_nonblank.simps)
           (simp add: read_line_complete trim_eq_Nil_iff [THEN iffD2])
      from split True less.prems have "\<not> list_all is_whitespace rest" by auto
      moreover from split have "l \<noteq> []" by auto
      ultimately show ?thesis
        using less.hyps [of ?r "buffer @ l"] split True less.prems step by simp
    qed
  qed
qed

lemma read_line_blank:
  assumes "list_all is_whitespace buffer" and "list_all is_whitespace (rd_rest r)"
    and "rd_end r = Eof"
  shows "\<exists>n b' r'. read_line r buffer = Some (Ok (n, b', r')) \<and> list_all is_whitespace b' \<and>
           list_all is_whitespace (rd_rest r') \<and> rd_end r' = Eof"
proof (cases "take_line (rd_rest r)")
  case None
  with assms show ?thesis by (simp add: read_line_def)
next
  case (Some p)
  with assms take_line_split [of "rd_rest r" "fst p" "snd p"] show ?thesis
    by (cases p) (auto simp: read_line_def)
qed

text \<open>At the end of file, with only blank text left, the loop of the source never exits.\<close>

lemma read_nonblank_eof_diverges:
  assumes "list_all is_whitespace buffer" and "list_all is_whitespace (rd_rest r)"
    and "rd_end r = Eof"
  shows "read_nonblank r buffer = None"
proof (cases "read_nonblank r buffer")
  case (Some res)
  have "\<not> (list_all is_whitespace buffer \<and> list_all is_whitespace (rd_rest r) \<and> rd_end r = Eof)"
  proof (rule read_nonblank.raw_induct
      [where P = "\<lambda>r buffer _. \<not> (list_all is_whitespace buffer \<and>
          list_all is_whitespace (rd_rest r) \<and> rd_end r = Eof)", OF _ Some], goal_cases)
    case (1 f r buffer res)
    show ?case
    proof
      assume h: "list_all is_whitespace buffer \<and> list_all is_whitespace (rd_rest r) \<and> rd_end r = Eof"
      with read_line_blank [of buffer r] obtain n b' r' where
        "read_line r buffer = Some (Ok (n, b', r'))" and b': "list_all is_whitespace b'"
        and r': "list_all is_whitespace (rd_rest r')" "rd_end r' = Eof"
        by blast
      with "1"(2) have "f r' b' = Some res" by (simp add: trim_eq_Nil_iff)
      with "1"(1) b' r' show False by blast
    qed
  qed
  with assms show ?thesis by simp
qed simp

section \<open>Parsed fields are words\<close>

text \<open>Every string of a response that was read is a non-empty word without whitespace.\<close>

fun resp_tokens :: "KvResp \<Rightarrow> bool" where
  "resp_tokens (KvResp.Put k f) = is_token k"
| "resp_tokens (KvResp.Swap k v) = (is_token k \<and> pred_option is_token v)"
| "resp_tokens (KvResp.Get k v) = (is_token k \<and> pred_option is_token v)"
| "resp_tokens (KvResp.Scan a b es) =
     (is_token a \<and> is_token b \<and> list_all (\<lambda>(k, v). is_token k \<and> is_token v) es)"
| "resp_tokens (KvResp.Delete k f) = is_token k"
| "resp_tokens KvResp.Stop = True"

lemma get_segs_tokens: "list_all is_token (get_segs_of_line s)"
  by (simp add: get_segs_of_line_def split_whitespace_tokens)

lemma expect_next_seg_Ok:
  "expect_next_seg segs buffer = Ok (w, ws) \<longleftrightarrow> segs = w # ws"
  by (cases segs) auto

lemma parse_opt_value_token: "is_token v \<Longrightarrow> pred_option is_token (parse_opt_value v)"
  by (simp add: parse_opt_value_def)

lemma parse_single_tokens:
  "parse_single tag segs buffer = Ok resp \<Longrightarrow> list_all is_token segs \<Longrightarrow> resp_tokens resp"
  by (auto simp: parse_single_def run_bind_Ok_iff expect_next_seg_Ok parse_opt_value_token
      split: if_splits)

lemma read_scan_entries_tokens:
  assumes "read_scan_entries r ents = Some (Ok (out, r'))"
    and "list_all (\<lambda>(k, v). is_token k \<and> is_token v) ents"
  shows "list_all (\<lambda>(k, v). is_token k \<and> is_token v) out"
proof -
  let ?ok = "list_all (\<lambda>(k, v). is_token k \<and> is_token v)"
  have "?ok ents \<longrightarrow> (case (Ok (out, r') :: ((string \<times> string) list \<times> reader, RunnerError) run)
          of Ok (o', _) \<Rightarrow> ?ok o' | _ \<Rightarrow> True)"
  proof (rule read_scan_entries.raw_induct
      [where P = "\<lambda>r ents res. ?ok ents \<longrightarrow> (case res of Ok (o', _) \<Rightarrow> ?ok o' | _ \<Rightarrow> True)",
       OF _ assms(1)], goal_cases)
    case (1 f r ents res)
    from "1"(2) show ?case
    proof (clarsimp split: option.splits run.splits if_splits prod.splits)
      fix n line r1 k v o' r2
      assume ok: "?ok ents" and res: "f r1 (ents @ [(k, v)]) = Some (Ok (o', r2))"
        and kv: "run_bind (expect_next_seg (get_segs_of_line line) line)
            (\<lambda>(key, entry_segs). run_bind (expect_next_seg entry_segs line)
               (\<lambda>(value, _). Ok (key, value))) = Ok (k, v)"
      from kv get_segs_tokens [of line] have "is_token k \<and> is_token v"
        by (auto simp: run_bind_Ok_iff expect_next_seg_Ok)
      with ok "1"(1) [OF res] show "?ok o'" by simp
    qed
  qed
  with assms(2) show ?thesis by simp
qed

section \<open>Properties\<close>

text \<open>
  C27. On a finite input that still holds some non-blank text, \<open>read_next_line\<close> returns: it yields a
  line that is not blank, made of exactly the text it consumed (skipped blank lines included), and
  leaves the rest of the input in the reader.
\<close>

theorem read_next_line_total:
  assumes "rd_end r = Eof" and "\<not> list_all is_whitespace (rd_rest r)"
  shows "\<exists>n line r'. read_next_line r buffer = Some (Ok (n, line, r')) \<and> trim line \<noteq> [] \<and>
           rd_rest r = line @ rd_rest r' \<and> rd_end r' = Eof"
  using read_nonblank_total [of "[]" r] assms by (simp add: read_next_line_def)

theorem read_next_line_total_witness:
  "\<exists>n line r'. read_next_line \<lparr>rd_rest = [newline] @ ''STOP'', rd_end = Eof\<rparr> ''old''
       = Some (Ok (n, line, r')) \<and> trim line \<noteq> [] \<and>
     [newline] @ ''STOP'' = line @ rd_rest r' \<and> rd_end r' = Eof"
  using read_next_line_total [of "\<lparr>rd_rest = [newline] @ ''STOP'', rd_end = Eof\<rparr>" "''old''"]
  by (simp add: is_whitespace_def)

text \<open>
  C28. At the end of file, with nothing but blank text left, \<open>read_next_line\<close> never returns: a
  \<open>read_line\<close> that reads nothing is not told apart from an empty line.
\<close>

theorem read_next_line_eof_diverges:
  assumes "rd_end r = Eof" and "list_all is_whitespace (rd_rest r)"
  shows "read_next_line r buffer = None"
  using assms read_nonblank_eof_diverges [of "[]" r] by (simp add: read_next_line_def)

theorem read_next_line_eof_diverges_witness:
  "read_next_line \<lparr>rd_rest = [newline], rd_end = Eof\<rparr> [] = None"
  by (rule read_next_line_eof_diverges) simp_all

text \<open>
  C29. Whatever text the client process prints, every key and value of a response the runner accepts
  is a non-empty word without whitespace.
\<close>

theorem from_read_tokens:
  assumes "from_read r buffer = Some (Ok (resp, r'))"
  shows "resp_tokens resp"
proof -
  from assms obtain n line r1 tag segs where
    segs: "get_segs_of_line line = tag # segs"
    and eq: "(if tag = ''SCAN'' then
        (case parse_scan_head segs line of
           Ok (key_start, key_end) \<Rightarrow>
             (case read_scan_entries r1 [] of None \<Rightarrow> None
              | Some (Ok (ents, r'')) \<Rightarrow> Some (Ok (KvResp.Scan key_start key_end ents, r''))
              | Some (Err e) \<Rightarrow> Some (Err e) | Some Panic \<Rightarrow> Some Panic)
         | Err e \<Rightarrow> Some (Err e) | Panic \<Rightarrow> Some Panic)
      else Some (run_bind (parse_single tag segs line) (\<lambda>resp. Ok (resp, r1))))
      = Some (Ok (resp, r'))"
    by (auto simp: from_read_def split: option.splits run.splits list.splits)
  have toks: "list_all is_token segs" using get_segs_tokens [of line] segs by simp
  show ?thesis
  proof (cases "tag = ''SCAN''")
    case True
    with eq toks read_scan_entries_tokens [of r1 "[]"] show ?thesis
      by (auto simp: parse_scan_head_def run_bind_Ok_iff expect_next_seg_Ok
          split: option.splits run.splits if_splits)
  next
    case False
    with eq toks parse_single_tokens show ?thesis by (auto simp: run_bind_Ok_iff)
  qed
qed

theorem from_read_tokens_witness:
  "from_read \<lparr>rd_rest = ''GET  k  null'' @ [newline], rd_end = Blocks\<rparr> []
     = Some (Ok (KvResp.Get ''k'' None, \<lparr>rd_rest = [], rd_end = Blocks\<rparr>)) \<and>
   resp_tokens (KvResp.Get ''k'' None)"
proof -
  have "from_read \<lparr>rd_rest = ''GET  k  null'' @ [newline], rd_end = Blocks\<rparr> []
     = Some (Ok (KvResp.Get ''k'' None, \<lparr>rd_rest = [], rd_end = Blocks\<rparr>))"
    by code_simp
  with from_read_tokens [OF this] show ?thesis by simp
qed

end
