(* ===== verification/Rand.thy ===== *)
theory Rand
  imports Ioapi
begin

text \<open>
  The fuzzer's random choices (\<open>runner/src/bin/fuzzer/random.rs\<close>) and the statistics they update
  (\<open>Stats\<close> of \<open>runner/src/bin/fuzzer/main.rs\<close>). The generator of the \<open>rand\<close> crate is the parameter
  \<open>rng\<close>, over a state \<open>'g\<close>; \<open>rng_ok\<close> is what the crate documents of it, and \<open>rng_fair\<close> that every
  index is drawn sooner or later. A \<open>BitVec\<close> is a list of booleans.
\<close>

section \<open>The generator\<close>

record 'g rng_ops =
  rg_range :: "nat \<Rightarrow> 'g \<Rightarrow> nat \<times> 'g"
  rg_bool :: "'g \<Rightarrow> bool \<times> 'g"
  rg_string :: "nat \<Rightarrow> 'g \<Rightarrow> string \<times> 'g"

text \<open>The characters of \<open>rand::distr::Alphanumeric\<close>.\<close>

definition is_alphanumeric :: "char \<Rightarrow> bool" where
  "is_alphanumeric c =
     (let n = (of_char c :: nat)
      in (48 \<le> n \<and> n \<le> 57) \<or> (65 \<le> n \<and> n \<le> 90) \<or> (97 \<le> n \<and> n \<le> 122))"

definition rng_ok :: "'g rng_ops \<Rightarrow> bool" where
  "rng_ok rng \<longleftrightarrow>
     (\<forall>mx g. 0 < mx \<longrightarrow> fst (rg_range rng mx g) < mx) \<and>
     (\<forall>len g. length (fst (rg_string rng len g)) = len \<and>
              list_all is_alphanumeric (fst (rg_string rng len g)))"

definition next_range :: "'g rng_ops \<Rightarrow> nat \<Rightarrow> 'g \<Rightarrow> 'g" where
  "next_range rng mx g = snd (rg_range rng mx g)"

definition rng_fair :: "'g rng_ops \<Rightarrow> bool" where
  "rng_fair rng \<longleftrightarrow>
     (\<forall>mx g i. i < mx \<longrightarrow> (\<exists>k. fst (rg_range rng mx ((next_range rng mx ^^ k) g)) = i))"

section \<open>Statistics\<close>

record Stats =
  cnt_put :: nat
  cnt_swap :: nat
  cnt_get :: nat
  cnt_scan :: nat
  cnt_delete :: nat
  keys_freq :: "nat list list"

definition stats_new :: "string list list \<Rightarrow> Stats" where
  "stats_new keys =
     \<lparr>cnt_put = 0, cnt_swap = 0, cnt_get = 0, cnt_scan = 0, cnt_delete = 0,
      keys_freq = map (\<lambda>ks. replicate (length ks) 0) keys\<rparr>"

text \<open>The statement \<open>stats.keys_freq[cidx][kidx] += 1\<close>.\<close>

definition bump_freq :: "bool \<Rightarrow> nat \<Rightarrow> nat \<Rightarrow> Stats \<Rightarrow> (Stats, RunnerError) run" where
  "bump_freq dbg cidx kidx stats =
     (if cidx < length (keys_freq stats) \<and> kidx < length (keys_freq stats ! cidx) then
        run_bind (usize_add dbg (keys_freq stats ! cidx ! kidx) 1) (\<lambda>n.
          Ok (stats\<lparr>keys_freq := (keys_freq stats)[cidx := (keys_freq stats ! cidx)[kidx := n]]\<rparr>))
      else Panic)"

section \<open>Random choices\<close>

definition VALUE_LEN :: nat where
  "VALUE_LEN = 16"

text \<open>\<open>random_range\<close> panics on an empty range.\<close>

definition gen_rand_index :: "bool \<Rightarrow> 'g rng_ops \<Rightarrow> nat \<Rightarrow> 'g \<Rightarrow> (nat \<times> 'g, RunnerError) run" where
  "gen_rand_index dbg rng mx g =
     run_bind (debug_assert dbg (mx \<noteq> 0)) (\<lambda>_.
       if mx = 0 then Panic else Ok (rg_range rng mx g))"

definition gen_rand_string :: "bool \<Rightarrow> 'g rng_ops \<Rightarrow> nat \<Rightarrow> 'g \<Rightarrow> (string \<times> 'g, RunnerError) run" where
  "gen_rand_string dbg rng len g =
     run_bind (debug_assert dbg (len \<noteq> 0)) (\<lambda>_. Ok (rg_string rng len g))"

definition gen_call_vs_wait ::
  "'g rng_ops \<Rightarrow> nat \<Rightarrow> nat \<Rightarrow> bool list \<Rightarrow> 'g \<Rightarrow> bool \<times> 'g" where
  "gen_call_vs_wait rng ops_called num_ops flying g =
     (if ops_called = num_ops \<or> list_all (\<lambda>b. b) flying then (False, g)
      else if list_all (\<lambda>b. \<not> b) flying then (True, g)
      else rg_bool rng g)"

text \<open>The retry loop of \<open>gen_rand_client\<close>.\<close>

partial_function (option) rand_client_loop ::
  "bool \<Rightarrow> 'g rng_ops \<Rightarrow> bool list \<Rightarrow> bool \<Rightarrow> 'g \<Rightarrow> (nat \<times> 'g, RunnerError) run option" where
  "rand_client_loop dbg rng flying want_flying g =
     (case gen_rand_index dbg rng (length flying) g of
        Err e \<Rightarrow> Some (Err e)
      | Panic \<Rightarrow> Some Panic
      | Ok (cidx, g') \<Rightarrow>
          if \<not> cidx < length flying then Some Panic
          else if flying ! cidx = want_flying then Some (Ok (cidx, g'))
          else rand_client_loop dbg rng flying want_flying g')"

declare rand_client_loop.simps [code]

definition gen_rand_client ::
  "bool \<Rightarrow> 'g rng_ops \<Rightarrow> bool list \<Rightarrow> bool \<Rightarrow> 'g \<Rightarrow> (nat \<times> 'g, RunnerError) run option" where
  "gen_rand_client dbg rng flying want_flying g =
     (case run_bind (debug_assert dbg (want_flying \<or> \<not> list_all (\<lambda>b. b) flying)) (\<lambda>_.
             debug_assert dbg (\<not> want_flying \<or> \<not> list_all (\<lambda>b. \<not> b) flying)) of
        Err e \<Rightarrow> Some (Err e)
      | Panic \<Rightarrow> Some Panic
      | Ok _ \<Rightarrow> rand_client_loop dbg rng flying want_flying g)"

definition key_at :: "string list \<Rightarrow> nat \<Rightarrow> (string, RunnerError) run" where
  "key_at keys kidx = (if kidx < length keys then Ok (keys ! kidx) else Panic)"

definition gen_rand_kvcall ::
  "bool \<Rightarrow> 'g rng_ops \<Rightarrow> string list \<Rightarrow> Stats \<Rightarrow> nat \<Rightarrow> 'g \<Rightarrow> (KvCall \<times> Stats \<times> 'g, RunnerError) run"
where
  "gen_rand_kvcall dbg rng keys stats cidx g =
     run_bind (gen_rand_index dbg rng 10 g) (\<lambda>(choice, g).
       if choice \<le> 1 then
         run_bind (gen_rand_index dbg rng (length keys) g) (\<lambda>(kidx, g).
         run_bind (usize_add dbg (cnt_put stats) 1) (\<lambda>n.
         run_bind (bump_freq dbg cidx kidx (stats\<lparr>cnt_put := n\<rparr>)) (\<lambda>stats.
         run_bind (key_at keys kidx) (\<lambda>key.
         run_bind (gen_rand_string dbg rng VALUE_LEN g) (\<lambda>(v, g).
         Ok (KvCall.Put key v, stats, g))))))
       else if 2 \<le> choice \<and> choice \<le> 3 then
         run_bind (gen_rand_index dbg rng (length keys) g) (\<lambda>(kidx, g).
         run_bind (usize_add dbg (cnt_swap stats) 1) (\<lambda>n.
         run_bind (bump_freq dbg cidx kidx (stats\<lparr>cnt_swap := n\<rparr>)) (\<lambda>stats.
         run_bind (key_at keys kidx) (\<lambda>key.
         run_bind (gen_rand_string dbg rng VALUE_LEN g) (\<lambda>(v, g).
         Ok (KvCall.Swap key v, stats, g))))))
       else if 4 \<le> choice \<and> choice \<le> 6 then
         run_bind (gen_rand_index dbg rng (length keys) g) (\<lambda>(kidx, g).
         run_bind (usize_add dbg (cnt_get stats) 1) (\<lambda>n.
         run_bind (bump_freq dbg cidx kidx (stats\<lparr>cnt_get := n\<rparr>)) (\<lambda>stats.
         run_bind (key_at keys kidx) (\<lambda>key.
         Ok (KvCall.Get key, stats, g)))))
       else if 7 \<le> choice \<and> choice \<le> 8 then
         run_bind (gen_rand_index dbg rng (length keys) g) (\<lambda>(ksidx, g).
         run_bind (gen_rand_index dbg rng (length keys) g) (\<lambda>(keidx, g).
         run_bind (key_at keys ksidx) (\<lambda>key_start.
         run_bind (key_at keys keidx) (\<lambda>key_end.
         run_bind (usize_add dbg (cnt_scan stats) 1) (\<lambda>n.
         run_bind (bump_freq dbg cidx ksidx (stats\<lparr>cnt_scan := n\<rparr>)) (\<lambda>stats.
         run_bind (bump_freq dbg cidx keidx stats) (\<lambda>stats.
         Ok (if key_end < key_start then KvCall.Scan key_end key_start
             else KvCall.Scan key_start key_end, stats, g))))))))
       else if choice = 9 then
         run_bind (gen_rand_index dbg rng (length keys) g) (\<lambda>(kidx, g).
         run_bind (usize_add dbg (cnt_delete stats) 1) (\<lambda>n.
         run_bind (bump_freq dbg cidx kidx (stats\<lparr>cnt_delete := n\<rparr>)) (\<lambda>stats.
         run_bind (key_at keys kidx) (\<lambda>key.
         Ok (KvCall.Delete key, stats, g)))))
       else Panic)"

section \<open>The client index\<close>

lemma gen_rand_index_ok:
  "rng_ok rng \<Longrightarrow> 0 < mx \<Longrightarrow>
     gen_rand_index dbg rng mx g = Ok (rg_range rng mx g) \<and> fst (rg_range rng mx g) < mx"
  by (simp add: gen_rand_index_def rng_ok_def)

lemma gen_rand_string_ok:
  assumes "rng_ok rng" and "0 < len"
  shows "\<exists>s g'. gen_rand_string dbg rng len g = Ok (s, g') \<and> length s = len \<and> list_all is_alphanumeric s"
proof -
  obtain s g' where s: "rg_string rng len g = (s, g')" by (cases "rg_string rng len g")
  have "length (fst (rg_string rng len g)) = len \<and> list_all is_alphanumeric (fst (rg_string rng len g))"
    using assms(1) unfolding rng_ok_def by blast
  with s assms(2) show ?thesis by (simp add: gen_rand_string_def)
qed

lemma rand_client_loop_returns:
  assumes ok: "rng_ok rng"
    and "fst (rg_range rng (length flying) ((next_range rng (length flying) ^^ k) g)) = c"
    and "c < length flying" and "flying ! c = want"
  shows "\<exists>cidx g'. rand_client_loop dbg rng flying want g = Some (Ok (cidx, g')) \<and>
     cidx < length flying \<and> flying ! cidx = want"
  using assms(2)
proof (induction k arbitrary: g)
  case 0
  from assms(3) have "0 < length flying" by linarith
  from 0 assms(3,4) gen_rand_index_ok [OF ok this, of dbg g] show ?case
    by (cases "rg_range rng (length flying) g") (auto simp: rand_client_loop.simps [of dbg rng flying want g])
next
  case (Suc k)
  obtain i g1 where d: "rg_range rng (length flying) g = (i, g1)" by (cases "rg_range rng (length flying) g")
  then have g1: "next_range rng (length flying) g = g1" by (simp add: next_range_def)
  with Suc.prems have "fst (rg_range rng (length flying) ((next_range rng (length flying) ^^ k) g1)) = c"
    using g1 by (simp add: funpow_Suc_right del: funpow.simps)
  moreover from assms(3) have "0 < length flying" by linarith
  ultimately show ?case using Suc.IH d gen_rand_index_ok [OF ok, of "length flying" dbg g]
    by (auto simp: rand_client_loop.simps [of dbg rng flying want g])
qed

lemma gen_rand_client_returns:
  assumes "rng_ok rng" and "rng_fair rng" and "c < length flying" and "flying ! c = want"
  shows "\<exists>cidx g'. gen_rand_client dbg rng flying want g = Some (Ok (cidx, g')) \<and>
     cidx < length flying \<and> flying ! cidx = want"
proof -
  from assms(2,3) obtain k where
    "fst (rg_range rng (length flying) ((next_range rng (length flying) ^^ k) g)) = c"
    unfolding rng_fair_def by blast
  from rand_client_loop_returns [OF assms(1) this assms(3,4)] obtain cidx g' where
    "rand_client_loop dbg rng flying want g = Some (Ok (cidx, g'))" "cidx < length flying"
    "flying ! cidx = want" by blast
  moreover have "want \<or> \<not> list_all (\<lambda>b. b) flying" "\<not> want \<or> \<not> list_all (\<lambda>b. \<not> b) flying"
    using assms(3,4) by (auto simp: list_all_length)
  ultimately show ?thesis by (auto simp: gen_rand_client_def debug_assert_def)
qed

text \<open>Whatever the generator does, the loop only returns a client with the wanted status.\<close>

lemma rand_client_loop_sound:
  assumes "rand_client_loop dbg rng flying want g = Some (Ok (cidx, g'))"
  shows "cidx < length flying \<and> flying ! cidx = want"
proof -
  have "\<forall>c g''. (Ok (cidx, g') :: (nat \<times> 'a, RunnerError) run) = Ok (c, g'') \<longrightarrow>
      c < length flying \<and> flying ! c = want"
    by (rule rand_client_loop.raw_induct [where P = "\<lambda>dbg rng fl w g res.
          \<forall>c g''. res = Ok (c, g'') \<longrightarrow> c < length fl \<and> fl ! c = w", OF _ assms])
       (auto split: run.splits if_splits)
  then show ?thesis by simp
qed

lemma gen_rand_client_sound:
  assumes "gen_rand_client dbg rng flying want g = Some (Ok (cidx, g'))"
  shows "cidx < length flying \<and> flying ! cidx = want"
  using assms rand_client_loop_sound [of dbg rng flying want g]
  by (auto simp: gen_rand_client_def split: run.splits)

lemma rand_client_loop_no_panic:
  assumes "rand_client_loop dbg rng flying want g = Some res" and "rng_ok rng" and "flying \<noteq> []"
  shows "\<exists>p. res = Ok p"
proof -
  have "rng_ok rng \<longrightarrow> flying \<noteq> [] \<longrightarrow> (\<exists>p. res = Ok p)"
  proof (rule rand_client_loop.raw_induct [where P = "\<lambda>dbg rng fl w g res.
          rng_ok rng \<longrightarrow> fl \<noteq> [] \<longrightarrow> (\<exists>p. res = Ok p)", OF _ assms(1)], intro impI)
    fix f dbg and rng :: "'a rng_ops" and fl :: "bool list" and w g res
    assume IH: "\<And>dbg rng fl w g res. f dbg rng fl w g = Some res \<Longrightarrow>
        rng_ok rng \<longrightarrow> fl \<noteq> [] \<longrightarrow> (\<exists>p. res = Ok p)"
      and eq: "(case gen_rand_index dbg rng (length fl) g of
          Ok (cidx, g') \<Rightarrow> if \<not> cidx < length fl then Some Panic
            else if fl ! cidx = w then Some (Ok (cidx, g')) else f dbg rng fl w g'
        | Err e \<Rightarrow> Some (Err e) | Panic \<Rightarrow> Some Panic) = Some res"
      and ok: "rng_ok rng" and ne: "fl \<noteq> []"
    obtain i g1 where "rg_range rng (length fl) g = (i, g1)" by (cases "rg_range rng (length fl) g")
    with gen_rand_index_ok [OF ok, of "length fl" dbg g] ne eq
    have "(if fl ! i = w then Some (Ok (i, g1)) else f dbg rng fl w g1) = Some res" by simp
    with IH ok ne show "\<exists>p. res = Ok p" by (auto split: if_splits)
  qed
  with assms show ?thesis by simp
qed

section \<open>The generated call and the statistics\<close>

text \<open>
  The totals of the statistics after \<open>m\<close> generated calls: one count per call, and one key use per
  call, two for a scan.
\<close>

definition stats_acct :: "string list list \<Rightarrow> nat \<Rightarrow> Stats \<Rightarrow> bool" where
  "stats_acct keys m st \<longleftrightarrow>
     map length (keys_freq st) = map length keys \<and>
     cnt_put st + cnt_swap st + cnt_get st + cnt_scan st + cnt_delete st = m \<and>
     sum_list (map sum_list (keys_freq st)) = m + cnt_scan st"

fun call_over :: "string list \<Rightarrow> KvCall \<Rightarrow> bool" where
  "call_over keys (KvCall.Put k v) =
     (k \<in> set keys \<and> length v = VALUE_LEN \<and> list_all is_alphanumeric v)"
| "call_over keys (KvCall.Swap k v) =
     (k \<in> set keys \<and> length v = VALUE_LEN \<and> list_all is_alphanumeric v)"
| "call_over keys (KvCall.Get k) = (k \<in> set keys)"
| "call_over keys (KvCall.Scan a b) = (a \<in> set keys \<and> b \<in> set keys \<and> a \<le> b)"
| "call_over keys (KvCall.Delete k) = (k \<in> set keys)"
| "call_over keys KvCall.Stop = False"

text \<open>One more use of the key with index \<open>k\<close> by client \<open>c\<close>.\<close>

definition freq_inc :: "nat \<Rightarrow> nat \<Rightarrow> nat list list \<Rightarrow> nat list list" where
  "freq_inc c k f = f[c := (f ! c)[k := Suc (f ! c ! k)]]"

text \<open>
  What a call of client \<open>c\<close> over the keys \<open>ks\<close> leaves in the statistics: the counter of its own kind is
  one more, and so is the use of its key, or of both ends of a scan; every other count is as before.
\<close>

fun accounted :: "string list \<Rightarrow> nat \<Rightarrow> KvCall \<Rightarrow> Stats \<Rightarrow> Stats \<Rightarrow> bool" where
  "accounted ks c (KvCall.Put key v) st st' \<longleftrightarrow>
     (\<exists>k < length ks. ks ! k = key \<and>
        st' = st\<lparr>cnt_put := Suc (cnt_put st), keys_freq := freq_inc c k (keys_freq st)\<rparr>)"
| "accounted ks c (KvCall.Swap key v) st st' \<longleftrightarrow>
     (\<exists>k < length ks. ks ! k = key \<and>
        st' = st\<lparr>cnt_swap := Suc (cnt_swap st), keys_freq := freq_inc c k (keys_freq st)\<rparr>)"
| "accounted ks c (KvCall.Get key) st st' \<longleftrightarrow>
     (\<exists>k < length ks. ks ! k = key \<and>
        st' = st\<lparr>cnt_get := Suc (cnt_get st), keys_freq := freq_inc c k (keys_freq st)\<rparr>)"
| "accounted ks c (KvCall.Scan key_start key_end) st st' \<longleftrightarrow>
     (\<exists>i < length ks. \<exists>j < length ks. key_start = min (ks ! i) (ks ! j) \<and> key_end = max (ks ! i) (ks ! j) \<and>
        st' = st\<lparr>cnt_scan := Suc (cnt_scan st), keys_freq := freq_inc c j (freq_inc c i (keys_freq st))\<rparr>)"
| "accounted ks c (KvCall.Delete key) st st' \<longleftrightarrow>
     (\<exists>k < length ks. ks ! k = key \<and>
        st' = st\<lparr>cnt_delete := Suc (cnt_delete st), keys_freq := freq_inc c k (keys_freq st)\<rparr>)"
| "accounted ks c KvCall.Stop st st' \<longleftrightarrow> False"

lemma sum_list_update_inc:
  "i < length xs \<Longrightarrow> sum_list (xs[i := Suc (xs ! i)]) = Suc (sum_list xs)"
  by (induction xs arbitrary: i) (auto split: nat.splits)

lemma sum_lists_update_inc:
  "i < length xss \<Longrightarrow> j < length (xss ! i) \<Longrightarrow>
     sum_list (map sum_list (xss[i := (xss ! i)[j := Suc (xss ! i ! j)]]))
       = Suc (sum_list (map sum_list xss))"
  by (induction xss arbitrary: i) (auto simp: sum_list_update_inc split: nat.splits)

lemma nth_le_sum_lists:
  assumes "i < length xss" and "j < length (xss ! i)"
  shows "xss ! i ! j \<le> sum_list (map sum_list (xss :: nat list list))"
proof -
  have "xss ! i ! j \<le> sum_list (xss ! i)" using assms by (intro member_le_sum_list) auto
  also have "\<dots> \<le> sum_list (map sum_list xss)" using assms by (intro member_le_sum_list) auto
  finally show ?thesis .
qed

lemma bump_freq_ok:
  assumes shape: "map length (keys_freq st) = map length keys"
    and c: "cidx < length keys" and k: "kidx < length (keys ! cidx)"
    and room: "sum_list (map sum_list (keys_freq st)) + 1 < 2 ^ 64"
  shows "bump_freq dbg cidx kidx st = Ok (st\<lparr>keys_freq := freq_inc cidx kidx (keys_freq st)\<rparr>)"
    and "map length (freq_inc cidx kidx (keys_freq st)) = map length keys"
    and "sum_list (map sum_list (freq_inc cidx kidx (keys_freq st))) = Suc (sum_list (map sum_list (keys_freq st)))"
proof -
  from shape have l: "length (keys_freq st) = length keys" by (metis length_map)
  with shape c have "length (keys_freq st ! cidx) = length (keys ! cidx)" by (metis nth_map)
  with c k l have i: "cidx < length (keys_freq st)" "kidx < length (keys_freq st ! cidx)" by simp_all
  from nth_le_sum_lists [OF i] room have "keys_freq st ! cidx ! kidx + 1 < 2 ^ 64" by linarith
  then show "bump_freq dbg cidx kidx st = Ok (st\<lparr>keys_freq := freq_inc cidx kidx (keys_freq st)\<rparr>)"
    using i by (simp add: bump_freq_def freq_inc_def)
  have "(map length (keys_freq st))[cidx := length (keys_freq st ! cidx)] = map length (keys_freq st)"
    using list_update_id [of "map length (keys_freq st)" cidx] i(1) by simp
  then show "map length (freq_inc cidx kidx (keys_freq st)) = map length keys"
    unfolding freq_inc_def map_update by (simp add: shape)
  show "sum_list (map sum_list (freq_inc cidx kidx (keys_freq st))) = Suc (sum_list (map sum_list (keys_freq st)))"
    unfolding freq_inc_def by (rule sum_lists_update_inc [OF i])
qed

text \<open>The part of \<open>gen_rand_kvcall\<close> that the four single-key operations share.\<close>

lemma draw_key:
  assumes "rng_ok rng" and "ks \<noteq> []"
  shows "\<exists>kidx g'. gen_rand_index dbg rng (length ks) g = Ok (kidx, g') \<and> kidx < length ks \<and>
     key_at ks kidx = Ok (ks ! kidx) \<and> ks ! kidx \<in> set ks"
  using gen_rand_index_ok [OF assms(1), of "length ks" dbg g] assms(2)
  by (cases "rg_range rng (length ks) g") (auto simp: key_at_def)

lemma gen_rand_kvcall_ok:
  assumes ok: "rng_ok rng" and c: "cidx < length keys" and ne: "keys ! cidx \<noteq> []"
    and acct: "stats_acct keys m st" and room: "2 * m + 2 < 2 ^ 64"
  shows "\<exists>call st' g'. gen_rand_kvcall dbg rng (keys ! cidx) st cidx g = Ok (call, st', g') \<and>
     call_over (keys ! cidx) call \<and> accounted (keys ! cidx) cidx call st st' \<and> stats_acct keys (Suc m) st'"
proof -
  from acct have shape: "map length (keys_freq st) = map length keys"
    and cnt: "cnt_put st + cnt_swap st + cnt_get st + cnt_scan st + cnt_delete st = m"
    and freq: "sum_list (map sum_list (keys_freq st)) = m + cnt_scan st"
    by (auto simp: stats_acct_def)
  let ?ks = "keys ! cidx"
  obtain choice g1 where ch: "gen_rand_index dbg rng 10 g = Ok (choice, g1)" "choice < 10"
    using gen_rand_index_ok [OF ok, of 10 dbg g] by (cases "rg_range rng 10 g") auto
  obtain k g2 where k: "gen_rand_index dbg rng (length ?ks) g1 = Ok (k, g2)" "k < length ?ks"
      "key_at ?ks k = Ok (?ks ! k)" "?ks ! k \<in> set ?ks"
    using draw_key [OF ok ne] by blast
  obtain v g3 where v: "gen_rand_string dbg rng VALUE_LEN g2 = Ok (v, g3)" "length v = VALUE_LEN"
      "list_all is_alphanumeric v"
    using gen_rand_string_ok [OF ok] by (metis VALUE_LEN_def zero_less_numeral)
  obtain k' g4 where k': "gen_rand_index dbg rng (length ?ks) g2 = Ok (k', g4)" "k' < length ?ks"
      "key_at ?ks k' = Ok (?ks ! k')" "?ks ! k' \<in> set ?ks"
    using draw_key [OF ok ne] by blast
  have room1: "sum_list (map sum_list (keys_freq st)) + 1 < 2 ^ 64" using freq cnt room by linarith
  let ?f = "freq_inc cidx k (keys_freq st)"
  have bump: "bump_freq dbg cidx k st1 = Ok (st1\<lparr>keys_freq := ?f\<rparr>)" if "keys_freq st1 = keys_freq st" for st1
    using bump_freq_ok(1) [of st1 keys cidx k dbg] shape c k(2) room1 that by simp
  have f: "map length ?f = map length keys" "sum_list (map sum_list ?f) = Suc (m + cnt_scan st)"
    using bump_freq_ok(2,3) [of st keys cidx k] shape c k(2) room1 freq by simp_all
  have inc: "usize_add dbg (cnt_put st) 1 = Ok (cnt_put st + 1)" "usize_add dbg (cnt_swap st) 1 = Ok (cnt_swap st + 1)"
      "usize_add dbg (cnt_get st) 1 = Ok (cnt_get st + 1)" "usize_add dbg (cnt_scan st) 1 = Ok (cnt_scan st + 1)"
      "usize_add dbg (cnt_delete st) 1 = Ok (cnt_delete st + 1)"
    using cnt room by (intro usize_ops_small(1); linarith)+
  note ex = ch k v cnt inc [unfolded One_nat_def] stats_acct_def gen_rand_kvcall_def
  consider "choice \<le> 1" | "2 \<le> choice \<and> choice \<le> 3" | "4 \<le> choice \<and> choice \<le> 6" |
      "7 \<le> choice \<and> choice \<le> 8" | "choice = 9" using ch(2) by linarith
  then show ?thesis
  proof cases
    case 1
    with bump [of "st\<lparr>cnt_put := Suc (cnt_put st)\<rparr>"] f cnt show ?thesis by (auto simp: ex intro!: exI [of _ k])
  next
    case 2
    with bump [of "st\<lparr>cnt_swap := Suc (cnt_swap st)\<rparr>"] f cnt show ?thesis by (auto simp: ex intro!: exI [of _ k])
  next
    case 3
    with bump [of "st\<lparr>cnt_get := Suc (cnt_get st)\<rparr>"] f cnt show ?thesis by (auto simp: ex intro!: exI [of _ k])
  next
    case 4
    let ?st = "st\<lparr>cnt_scan := Suc (cnt_scan st)\<rparr>"
    note b = bump_freq_ok [of "?st\<lparr>keys_freq := ?f\<rparr>" keys cidx k']
    have "bump_freq dbg cidx k ?st = Ok (?st\<lparr>keys_freq := ?f\<rparr>)" by (rule bump) simp
    moreover have "bump_freq dbg cidx k' (?st\<lparr>keys_freq := ?f\<rparr>) = Ok (?st\<lparr>keys_freq := freq_inc cidx k' ?f\<rparr>)"
      "map length (freq_inc cidx k' ?f) = map length keys"
      "sum_list (map sum_list (freq_inc cidx k' ?f)) = Suc (Suc (m + cnt_scan st))"
      using b f c k'(2) cnt room by simp_all
    moreover have "accounted ?ks cidx (KvCall.Scan (min (?ks ! k) (?ks ! k')) (max (?ks ! k) (?ks ! k'))) st
        (?st\<lparr>keys_freq := freq_inc cidx k' ?f\<rparr>)" (is "accounted _ _ _ _ ?st'")
      unfolding accounted.simps using k(2) k'(2)
      by (intro exI [where P = "\<lambda>i. i < _ \<and> (\<exists>j < _. _ i j)" and x = k] conjI exI [of _ k']) simp_all
    ultimately show ?thesis using 4 k' cnt by (auto simp: ex min_def max_def simp del: accounted.simps split: if_splits)
  next
    case 5
    with bump [of "st\<lparr>cnt_delete := Suc (cnt_delete st)\<rparr>"] f cnt show ?thesis by (auto simp: ex intro!: exI [of _ k])
  qed
qed

lemma stats_acct_new: "stats_acct keys 0 (stats_new keys)"
proof -
  have "sum_list (map sum_list (map (\<lambda>ks :: string list. replicate (length ks) (0 :: nat)) keys)) = 0"
    by (induction keys) (simp_all add: sum_list_replicate)
  then show ?thesis by (simp add: stats_acct_def stats_new_def comp_def)
qed

section \<open>Properties\<close>

text \<open>A generator that counts, for examples.\<close>

definition counter_rng :: "nat rng_ops" where
  "counter_rng =
     \<lparr>rg_range = \<lambda>mx g. (g mod mx, Suc g), rg_bool = \<lambda>g. (even g, Suc g),
      rg_string = \<lambda>len g. (replicate len (CHR ''a''), Suc g)\<rparr>"

lemma counter_rng_ok: "rng_ok counter_rng"
  by (auto simp: rng_ok_def counter_rng_def is_alphanumeric_def list_all_iff)

lemma counter_rng_fair: "rng_fair counter_rng"
  unfolding rng_fair_def
proof (intro allI impI)
  fix mx g i :: nat
  assume i: "i < mx"
  have it: "(next_range counter_rng mx ^^ k) g = g + k" for k
    by (induction k) (simp_all add: next_range_def counter_rng_def)
  have "(g + (i + (mx - g mod mx))) mod mx = i"
  proof -
    have "g mod mx < mx" using i by simp
    moreover have "g = mx * (g div mx) + g mod mx" by simp
    moreover have "mx * (g div mx + 1) = mx * (g div mx) + mx" by simp
    ultimately have "g + (i + (mx - g mod mx)) = i + mx * (g div mx + 1)" by linarith
    then show ?thesis using i by (metis mod_less mod_mult_self2)
  qed
  then show "\<exists>k. fst (rg_range counter_rng mx ((next_range counter_rng mx ^^ k) g)) = i"
    unfolding it by (intro exI [of _ "i + (mx - g mod mx)"]) (simp add: counter_rng_def)
qed

text \<open>
  C24. The retry loop of \<open>gen_rand_client\<close> ends: if a client with the wanted status exists and the
  generator draws every index sooner or later, it returns such a client, in either build profile.
\<close>

theorem rand_client_terminates:
  assumes "rng_ok rng" and "rng_fair rng" and "c < length flying" and "flying ! c = want"
  shows "\<exists>cidx g'. gen_rand_client dbg rng flying want g = Some (Ok (cidx, g')) \<and>
     cidx < length flying \<and> flying ! cidx = want"
  by (rule gen_rand_client_returns [OF assms])

theorem rand_client_terminates_witness:
  "\<exists>cidx g'. gen_rand_client True counter_rng [True, True, False] False 0 = Some (Ok (cidx, g')) \<and>
     cidx < length [True, True, False] \<and> [True, True, False] ! cidx = False"
  using rand_client_terminates [OF counter_rng_ok counter_rng_fair, of 2 "[True, True, False]" False True 0]
  by simp

text \<open>
  C23. Every generated call is over the client's own keys, never \<open>STOP\<close>, a scan runs from the lesser
  to the greater key, a written value is an alphanumeric word of the fixed length, no counter or
  index panics, and the statistics account for exactly this call: the counter of its kind is one
  more, the use of its key by this client is one more (of both ends for a scan), and every other
  count is unchanged. So the totals go on counting one operation per call and one key use per call,
  two for a scan.
\<close>

theorem rand_call_accounted:
  assumes "rng_ok rng" and "cidx < length keys" and "keys ! cidx \<noteq> []"
    and "stats_acct keys m st" and "2 * m + 2 < 2 ^ 64"
  shows "\<exists>call st' g'. gen_rand_kvcall dbg rng (keys ! cidx) st cidx g = Ok (call, st', g') \<and>
     call_over (keys ! cidx) call \<and> accounted (keys ! cidx) cidx call st st' \<and> stats_acct keys (Suc m) st'"
  by (rule gen_rand_kvcall_ok [OF assms])

theorem rand_call_accounted_witness:
  "\<exists>call st' g'. gen_rand_kvcall True counter_rng ([[''k'', ''l'']] ! 0) (stats_new [[''k'', ''l'']]) 0 7
       = Ok (call, st', g') \<and>
     call_over ([[''k'', ''l'']] ! 0) call \<and> accounted ([[''k'', ''l'']] ! 0) 0 call (stats_new [[''k'', ''l'']]) st' \<and>
     stats_acct [[''k'', ''l'']] (Suc 0) st'"
  by (rule rand_call_accounted [OF counter_rng_ok _ _ stats_acct_new]) simp_all

end
