(* ===== verification/Proc.thy ===== *)
theory Proc
  imports Ioapi "HOL-Library.Sublist"
begin

text \<open>
  Process handles (\<open>runner/src/proc.rs\<close>): the server handle, the client handle, and the driver
  thread that carries calls from the handle's channel to the client process and its responses back.

  The operating system and the processes it runs are the parameter \<open>os\<close>, over a state \<open>'w\<close> that all
  processes share. Client handles are addressed by their index in the vector that owns them. One
  iteration of a driver thread is one step: it meets the owner of the handle only when it takes a
  call from the channel and when it puts a response into the other, and the owner never looks at
  the calls it has sent. A schedule is the sequence of driver threads (by index) that finish an
  iteration while the owner waits.
\<close>

section \<open>Channels\<close>

text \<open>\<open>std::sync::mpsc\<close>: the queued messages, and whether each end is still held.\<close>

record 'a chan =
  ch_items :: "'a list"
  ch_tx :: bool
  ch_rx :: bool

definition channel :: "'a chan" where
  "channel = \<lparr>ch_items = [], ch_tx = True, ch_rx = True\<rparr>"

definition send_chan :: "'a chan \<Rightarrow> 'a \<Rightarrow> ('a chan, std_error) run" where
  "send_chan q x = (if ch_rx q then Ok (q\<lparr>ch_items := ch_items q @ [x]\<rparr>) else Err SendError)"

text \<open>\<open>recv\<close>; \<^term>\<open>None\<close> is blocking, with a sender still there.\<close>

definition recv_chan :: "'a chan \<Rightarrow> ('a \<times> 'a chan, std_error) run option" where
  "recv_chan q =
     (case ch_items q of
        x # xs \<Rightarrow> Some (Ok (x, q\<lparr>ch_items := xs\<rparr>))
      | [] \<Rightarrow> if ch_tx q then None else Some (Err RecvError))"

text \<open>\<open>recv_timeout\<close>, at a moment; \<^term>\<open>None\<close> is having to wait on.\<close>

definition poll_chan :: "'a chan \<Rightarrow> ('a \<times> 'a chan, std_error) run option" where
  "poll_chan q =
     (case ch_items q of
        x # xs \<Rightarrow> Some (Ok (x, q\<lparr>ch_items := xs\<rparr>))
      | [] \<Rightarrow> if ch_tx q then None else Some (Err RecvDisconnected))"

fun std_question :: "('a, std_error) run \<Rightarrow> ('a, RunnerError) run" where
  "std_question (Ok x) = Ok x"
| "std_question (Err e) = Err (from_std e)"
| "std_question Panic = Panic"

section \<open>The operating system\<close>

record 'w os =
  os_spawn :: "string list \<Rightarrow> 'w \<Rightarrow> (nat, string) run \<times> 'w"
  os_write :: "nat \<Rightarrow> string \<Rightarrow> 'w \<Rightarrow> (unit, string) run \<times> 'w"
  os_output :: "nat \<Rightarrow> 'w \<Rightarrow> (string \<times> stream_end) \<times> 'w"
  os_wait :: "nat \<Rightarrow> 'w \<Rightarrow> (bool \<times> string, string) run option"
  os_kill :: "nat \<Rightarrow> 'w \<Rightarrow> (unit, string) run \<times> 'w"
  os_sched :: "'w \<Rightarrow> nat list \<times> 'w"

text \<open>
  \<open>os_spawn\<close> starts a command and gives its process number; \<open>os_write\<close> writes to the standard
  input of a process; \<open>os_output\<close> is what the process prints from then on until it waits for input
  again, and how its output ends; \<open>os_wait\<close> is the exit status (success, and its text) or
  \<^term>\<open>None\<close> if the process never exits; \<open>os_sched\<close> is the schedule of the next wait.
\<close>

section \<open>Servers\<close>

record ServerProc =
  sp_handle :: nat

definition server_new ::
  "'w os \<Rightarrow> string list \<Rightarrow> 'w \<Rightarrow> (ServerProc, RunnerError) run \<times> 'w" where
  "server_new os just_args w =
     (case os_spawn os (''just'' # just_args) w of
        (res, w') \<Rightarrow> (run_bind (io_question res) (\<lambda>handle. Ok \<lparr>sp_handle = handle\<rparr>), w'))"

definition server_wait :: "'w os \<Rightarrow> ServerProc \<Rightarrow> 'w \<Rightarrow> (unit, RunnerError) run option" where
  "server_wait os sp w =
     (case os_wait os (sp_handle sp) w of
        None \<Rightarrow> None
      | Some res \<Rightarrow>
          Some (run_bind (io_question res) (\<lambda>(success, status).
            if success then Ok () else Err (Io (''server exited with status: '' @ status)))))"

definition server_stop :: "'w os \<Rightarrow> ServerProc \<Rightarrow> 'w \<Rightarrow> (unit, RunnerError) run \<times> 'w" where
  "server_stop os sp w =
     (case os_kill os (sp_handle sp) w of (res, w') \<Rightarrow> (io_question res, w'))"

section \<open>Clients\<close>

text \<open>
  The state of a driver thread: in its loop, blocked for ever on the output of its process, or
  ended, its channel ends dropped.
\<close>

datatype driver_state = Running | Hung | Ended

text \<open>
  A client handle with its driver thread: the two channels, the driver's buffered reader and
  \<open>stopped\<close> flag, its state, and what it has printed to the standard error.
\<close>

record ClientProc =
  cp_handle :: nat
  cp_call :: "KvCall chan"
  cp_resp :: "KvResp chan"
  cp_stdout :: reader
  cp_stopped :: bool
  cp_driver :: driver_state
  cp_log :: "string list"

definition client_new ::
  "'w os \<Rightarrow> string list \<Rightarrow> 'w \<Rightarrow> (ClientProc, RunnerError) run \<times> 'w" where
  "client_new os just_args w =
     (case os_spawn os (''just'' # just_args) w of
        (res, w') \<Rightarrow>
          (run_bind (io_question res) (\<lambda>handle.
             Ok \<lparr>cp_handle = handle, cp_call = channel, cp_resp = channel,
                 cp_stdout = \<lparr>rd_rest = [], rd_end = Blocks\<rparr>, cp_stopped = False,
                 cp_driver = Running, cp_log = []\<rparr>), w'))"

text \<open>
  One call of \<open>driver_iter\<close>; the result is \<^term>\<open>None\<close> if it blocks, on the channel (the state is
  then unchanged) or on the output of the process (the driver is then hung).
\<close>

definition driver_iter ::
  "'w os \<Rightarrow> ClientProc \<Rightarrow> 'w \<Rightarrow> (unit, RunnerError) run option \<times> ClientProc \<times> 'w" where
  "driver_iter os cp w =
     (case recv_chan (cp_call cp) of
        None \<Rightarrow> (None, cp, w)
      | Some (Err e) \<Rightarrow> (Some (Err (from_std e)), cp, w)
      | Some Panic \<Rightarrow> (Some Panic, cp, w)
      | Some (Ok (call, call_rx)) \<Rightarrow>
          (let cp1 = cp\<lparr>cp_call := call_rx, cp_stopped := cp_stopped cp \<or> call = KvCall.Stop\<rparr>;
               w1 = snd (os_write os (cp_handle cp) (fmt_call call) w)
           in case into_write call (\<lambda>s. fst (os_write os (cp_handle cp) s w)) of
                Err e \<Rightarrow> (Some (Err e), cp1, w1)
              | Panic \<Rightarrow> (Some Panic, cp1, w1)
              | Ok _ \<Rightarrow>
                  (case os_output os (cp_handle cp) w1 of
                     ((out, fin), w2) \<Rightarrow>
                       (let rd = \<lparr>rd_rest = rd_rest (cp_stdout cp) @ out, rd_end = fin\<rparr>
                        in case from_read rd [] of
                             None \<Rightarrow> (None, cp1\<lparr>cp_stdout := rd, cp_driver := Hung\<rparr>, w2)
                           | Some (Err e) \<Rightarrow> (Some (Err e), cp1\<lparr>cp_stdout := rd\<rparr>, w2)
                           | Some Panic \<Rightarrow> (Some Panic, cp1\<lparr>cp_stdout := rd\<rparr>, w2)
                           | Some (Ok (resp, rd')) \<Rightarrow>
                               (case send_chan (cp_resp cp) resp of
                                  Ok resp_tx \<Rightarrow>
                                    (Some (Ok ()), cp1\<lparr>cp_stdout := rd', cp_resp := resp_tx\<rparr>, w2)
                                | Err e \<Rightarrow> (Some (Err (from_std e)), cp1\<lparr>cp_stdout := rd'\<rparr>, w2)
                                | Panic \<Rightarrow> (Some Panic, cp1\<lparr>cp_stdout := rd'\<rparr>, w2))))))"

text \<open>
  The end of the driver thread: it drops the receiver of the calls and the sender of the responses.
\<close>

definition driver_end :: "ClientProc \<Rightarrow> ClientProc" where
  "driver_end cp =
     cp\<lparr>cp_driver := Ended, cp_call := (cp_call cp)\<lparr>ch_rx := False\<rparr>,
        cp_resp := (cp_resp cp)\<lparr>ch_tx := False\<rparr>\<rparr>"

text \<open>One round of the loop of \<open>driver_thread\<close>.\<close>

definition driver_thread :: "'w os \<Rightarrow> ClientProc \<Rightarrow> 'w \<Rightarrow> ClientProc \<times> 'w" where
  "driver_thread os cp w =
     (if cp_driver cp \<noteq> Running then (cp, w)
      else case driver_iter os cp w of
          (None, cp', w') \<Rightarrow> (cp', w')
        | (Some (Ok _), cp', w') \<Rightarrow> (cp', w')
        | (Some Panic, cp', w') \<Rightarrow> (driver_end cp', w')
        | (Some (Err err), cp', w') \<Rightarrow>
            (driver_end (if \<not> cp_stopped cp' \<and> \<not> is_chan err
               then cp'\<lparr>cp_log := cp_log cp' @ [''Error in driver: '' @ fmt_error err]\<rparr> else cp'),
             w'))"

section \<open>The owner's operations\<close>

type_synonym 'w sys = "ClientProc list \<times> 'w"

definition driver_step :: "'w os \<Rightarrow> nat \<Rightarrow> 'w sys \<Rightarrow> 'w sys" where
  "driver_step os i s =
     (case s of (cs, w) \<Rightarrow>
        if i < length cs then
          (case driver_thread os (cs ! i) w of (cp, w') \<Rightarrow> (cs[i := cp], w'))
        else (cs, w))"

definition send_call :: "nat \<Rightarrow> KvCall \<Rightarrow> 'w sys \<Rightarrow> ('w sys, RunnerError) run" where
  "send_call i call s =
     (case s of (cs, w) \<Rightarrow>
        if \<not> i < length cs then Panic
        else run_bind (std_question (send_chan (cp_call (cs ! i)) call)) (\<lambda>call_tx.
               Ok (cs[i := (cs ! i)\<lparr>cp_call := call_tx\<rparr>], w)))"

text \<open>
  \<open>wait_resp\<close>: driver threads go on in the order of the schedule until a response is there, the
  driver has ended, or the timeout expires at the end of the schedule.
\<close>

fun wait_resp ::
  "'w os \<Rightarrow> nat list \<Rightarrow> nat \<Rightarrow> 'w sys \<Rightarrow> (KvResp, RunnerError) run \<times> 'w sys" where
  "wait_resp os sched i (cs, w) =
     (if \<not> i < length cs then (Panic, (cs, w))
      else case poll_chan (cp_resp (cs ! i)) of
          Some (Ok (resp, resp_rx)) \<Rightarrow> (Ok resp, (cs[i := (cs ! i)\<lparr>cp_resp := resp_rx\<rparr>], w))
        | Some (Err e) \<Rightarrow> (Err (from_std e), (cs, w))
        | Some Panic \<Rightarrow> (Panic, (cs, w))
        | None \<Rightarrow>
            (case sched of
               [] \<Rightarrow> (Err (from_std RecvTimeout), (cs, w))
             | j # js \<Rightarrow> wait_resp os js i (driver_step os j (cs, w))))"

declare wait_resp.simps [simp del]

text \<open>Dropping a client handle drops its sender of calls and its receiver of responses.\<close>

definition client_drop :: "nat \<Rightarrow> 'w sys \<Rightarrow> 'w sys" where
  "client_drop i s =
     (case s of (cs, w) \<Rightarrow>
        (cs[i := (cs ! i)\<lparr>cp_call := (cp_call (cs ! i))\<lparr>ch_tx := False\<rparr>,
                          cp_resp := (cp_resp (cs ! i))\<lparr>ch_rx := False\<rparr>\<rparr>], w))"

definition client_stop ::
  "'w os \<Rightarrow> nat list \<Rightarrow> nat \<Rightarrow> 'w sys \<Rightarrow> (unit, RunnerError) run \<times> 'w sys" where
  "client_stop os sched i s =
     (case send_call i KvCall.Stop s of
        Err e \<Rightarrow> (Err e, client_drop i s)
      | Panic \<Rightarrow> (Panic, s)
      | Ok s1 \<Rightarrow>
          (case wait_resp os sched i s1 of
             (Err e, s2) \<Rightarrow> (Err e, client_drop i s2)
           | (Panic, s2) \<Rightarrow> (Panic, s2)
           | (Ok resp, (cs, w)) \<Rightarrow>
               if resp \<noteq> KvResp.Stop then
                 (Err (Io ''unexpected response, expecting STOP''), client_drop i (cs, w))
               else
                 (case os_kill os (cp_handle (cs ! i)) w of
                    (res, w') \<Rightarrow> (io_question res, client_drop i (cs, w')))))"

section \<open>The contract of a channel\<close>

text \<open>
  What both users of a channel rely on: messages arrive in the order they were sent, and what was
  sent before the sender went away is still received; only then comes the error \<open>closed\<close>.
\<close>

locale fifo_channel =
  fixes snd_op :: "'q \<Rightarrow> 'a \<Rightarrow> ('q, std_error) run"
    and rcv_op :: "'q \<Rightarrow> ('a \<times> 'q, std_error) run option"
    and items :: "'q \<Rightarrow> 'a list" and tx :: "'q \<Rightarrow> bool" and rx :: "'q \<Rightarrow> bool"
    and closed :: std_error
  assumes send_open:
      "rx q \<Longrightarrow> \<exists>q'. snd_op q x = Ok q' \<and> items q' = items q @ [x] \<and> tx q' = tx q \<and> rx q'"
    and send_closed: "\<not> rx q \<Longrightarrow> snd_op q x = Err SendError"
    and recv_item:
      "items q = x # xs \<Longrightarrow>
         \<exists>q'. rcv_op q = Some (Ok (x, q')) \<and> items q' = xs \<and> tx q' = tx q \<and> rx q' = rx q"
    and recv_empty: "items q = [] \<Longrightarrow> rcv_op q = (if tx q then None else Some (Err closed))"
begin

fun drain :: "nat \<Rightarrow> 'q \<Rightarrow> 'a list \<times> 'q" where
  "drain 0 q = ([], q)"
| "drain (Suc n) q =
     (case rcv_op q of Some (Ok (x, q')) \<Rightarrow> (case drain n q' of (xs, q'') \<Rightarrow> (x # xs, q''))
      | _ \<Rightarrow> ([], q))"

lemma drain_items:
  "\<exists>q'. drain (length (items q)) q = (items q, q') \<and> items q' = [] \<and> tx q' = tx q"
proof (induction "items q" arbitrary: q)
  case (Cons x xs)
  from recv_item [OF Cons.hyps(2) [symmetric]] obtain q1 where
    q1: "rcv_op q = Some (Ok (x, q1))" "items q1 = xs" "tx q1 = tx q" by blast
  from Cons.hyps(1) [of q1] q1 Cons.hyps(2) [symmetric] show ?case by auto
qed (metis drain.simps(1) list.size(3))

lemma drain_then_closed:
  assumes "\<not> tx q"
  shows "\<exists>q'. drain (length (items q)) q = (items q, q') \<and> rcv_op q' = Some (Err closed)"
  using drain_items [of q] recv_empty assms by metis

lemma send_recv:
  assumes "rx q" and "items q = []"
  shows "\<exists>q' q''. snd_op q x = Ok q' \<and> rcv_op q' = Some (Ok (x, q'')) \<and> items q'' = []"
  using send_open [OF assms(1), of x] recv_item assms(2) by (metis append_Nil)

end

interpretation recv: fifo_channel send_chan recv_chan ch_items ch_tx ch_rx RecvError
  by unfold_locales (auto simp: send_chan_def recv_chan_def)

interpretation poll: fifo_channel send_chan poll_chan ch_items ch_tx ch_rx RecvDisconnected
  by unfold_locales (auto simp: send_chan_def poll_chan_def)

section \<open>What one iteration of a driver does\<close>

lemma recv_chan_cases:
  "recv_chan q = None \<Longrightarrow> ch_items q = []"
  "recv_chan q = Some (Ok (x, q')) \<longleftrightarrow> ch_items q = x # ch_items q' \<and> q' = q\<lparr>ch_items := ch_items q'\<rparr>"
  "recv_chan q \<noteq> Some Panic"
  by (auto simp: recv_chan_def split: list.splits if_splits)

lemma driver_iter_Ok:
  assumes "driver_iter os cp w = (Some (Ok u), cp', w')"
  shows "\<exists>c r. ch_items (cp_call cp) = c # ch_items (cp_call cp') \<and>
     ch_items (cp_resp cp') = ch_items (cp_resp cp) @ [r] \<and> cp_driver cp' = cp_driver cp"
  using assms
  by (auto simp: driver_iter_def Let_def recv_chan_cases send_chan_def
      split: option.splits run.splits prod.splits if_splits)

lemma driver_iter_other:
  assumes "driver_iter os cp w = (res, cp', w')" and "\<forall>u. res \<noteq> Some (Ok u)"
  shows "cp_resp cp' = cp_resp cp \<and>
     (ch_items (cp_call cp') = ch_items (cp_call cp) \<or>
      (\<exists>c. ch_items (cp_call cp) = c # ch_items (cp_call cp')) \<and> (res = None \<longrightarrow> cp_driver cp' = Hung)) \<and>
     (res = None \<longrightarrow> cp' = cp \<or> cp_driver cp' = Hung)"
  using assms
  by (auto simp: driver_iter_def Let_def recv_chan_cases send_chan_def
      split: option.splits run.splits prod.splits if_splits)

lemma driver_end_sel [simp]:
  "ch_items (cp_call (driver_end cp)) = ch_items (cp_call cp)"
  "ch_items (cp_resp (driver_end cp)) = ch_items (cp_resp cp)"
  "cp_driver (driver_end cp) = Ended"
  by (simp_all add: driver_end_def)

section \<open>Interleavings of the owner and the drivers\<close>

text \<open>
  What happens to the clients of a run, in order: a call is sent, a driver reads the answer to a
  call, the owner gets a response.
\<close>

datatype event = Sent nat KvCall | Answered nat KvCall KvResp | Got nat KvResp

definition answer_of :: "'w os \<Rightarrow> nat \<Rightarrow> 'w sys \<Rightarrow> event list" where
  "answer_of os i s =
     (case s of (cs, w) \<Rightarrow>
        if i < length cs \<and> cp_driver (cs ! i) = Running then
          (case driver_iter os (cs ! i) w of
             (Some (Ok _), cp', _) \<Rightarrow>
               [Answered i (hd (ch_items (cp_call (cs ! i)))) (last (ch_items (cp_resp cp')))]
           | _ \<Rightarrow> [])
        else [])"

inductive sys_run :: "'w os \<Rightarrow> 'w sys \<Rightarrow> event list \<Rightarrow> 'w sys \<Rightarrow> bool" for os s0 where
  run_init: "sys_run os s0 [] s0"
| run_send: "sys_run os s0 tr s \<Longrightarrow> send_call i c s = Ok s' \<Longrightarrow> sys_run os s0 (tr @ [Sent i c]) s'"
| run_drive: "sys_run os s0 tr s \<Longrightarrow> sys_run os s0 (tr @ answer_of os i s) (driver_step os i s)"
| run_recv:
    "sys_run os s0 tr s \<Longrightarrow> wait_resp os [] i s = (Ok r, s') \<Longrightarrow> sys_run os s0 (tr @ [Got i r]) s'"
| run_drop: "sys_run os s0 tr s \<Longrightarrow> sys_run os s0 tr (client_drop i s)"
| run_sched: "sys_run os s0 tr (cs, w) \<Longrightarrow> os_sched os w = (sched, w') \<Longrightarrow> sys_run os s0 tr (cs, w')"

inductive_cases sys_runE: "sys_run os s0 tr s"

fun sent_by :: "nat \<Rightarrow> event list \<Rightarrow> KvCall list" where
  "sent_by i [] = []"
| "sent_by i (Sent j c # tr) = (if j = i then c # sent_by i tr else sent_by i tr)"
| "sent_by i (_ # tr) = sent_by i tr"

fun answered_by :: "nat \<Rightarrow> event list \<Rightarrow> (KvCall \<times> KvResp) list" where
  "answered_by i [] = []"
| "answered_by i (Answered j c r # tr) =
     (if j = i then (c, r) # answered_by i tr else answered_by i tr)"
| "answered_by i (_ # tr) = answered_by i tr"

fun got_by :: "nat \<Rightarrow> event list \<Rightarrow> KvResp list" where
  "got_by i [] = []"
| "got_by i (Got j r # tr) = (if j = i then r # got_by i tr else got_by i tr)"
| "got_by i (_ # tr) = got_by i tr"

lemma events_append [simp]:
  "sent_by i (xs @ ys) = sent_by i xs @ sent_by i ys"
  "answered_by i (xs @ ys) = answered_by i xs @ answered_by i ys"
  "got_by i (xs @ ys) = got_by i xs @ got_by i ys"
proof -
  show "sent_by i (xs @ ys) = sent_by i xs @ sent_by i ys"
    by (induction xs rule: sent_by.induct) auto
  show "answered_by i (xs @ ys) = answered_by i xs @ answered_by i ys"
    by (induction xs rule: answered_by.induct) auto
  show "got_by i (xs @ ys) = got_by i xs @ got_by i ys"
    by (induction xs rule: got_by.induct) auto
qed

text \<open>
  The channels hold what is between the three kinds of events; a call can get lost only with the
  driver that took it.
\<close>

definition fifo_inv :: "nat \<Rightarrow> event list \<Rightarrow> ClientProc \<Rightarrow> bool" where
  "fifo_inv i tr cp \<longleftrightarrow>
     (\<exists>lost. sent_by i tr = map fst (answered_by i tr) @ lost @ ch_items (cp_call cp) \<and>
        (lost \<noteq> [] \<longrightarrow> cp_driver cp \<noteq> Running)) \<and>
     map snd (answered_by i tr) = got_by i tr @ ch_items (cp_resp cp)"

lemma fifo_inv_drive:
  assumes inv: "fifo_inv i tr (cs ! i)" and i: "i < length cs"
  shows "fifo_inv i (tr @ answer_of os j (cs, w)) (fst (driver_step os j (cs, w)) ! i)"
proof (cases "j = i \<and> cp_driver (cs ! i) = Running")
  case False
  then have "j \<noteq> i \<or> driver_thread os (cs ! i) w = (cs ! i, w)" by (auto simp: driver_thread_def)
  moreover have "answered_by i (answer_of os j (cs, w)) = []" "sent_by i (answer_of os j (cs, w)) = []"
    "got_by i (answer_of os j (cs, w)) = []"
    using False by (auto simp: answer_of_def split: prod.splits option.splits run.splits)
  ultimately show ?thesis using inv i
    by (auto simp: fifo_inv_def driver_step_def nth_list_update split: prod.splits)
next
  case True
  obtain res cp' w' where it: "driver_iter os (cs ! i) w = (res, cp', w')" by (metis prod_cases3)
  from inv True have sent: "sent_by i tr = map fst (answered_by i tr) @ ch_items (cp_call (cs ! i))"
    and got: "map snd (answered_by i tr) = got_by i tr @ ch_items (cp_resp (cs ! i))"
    by (auto simp: fifo_inv_def)
  show ?thesis
  proof (cases "\<exists>u. res = Some (Ok u)")
    case Ok: True
    with driver_iter_Ok [of os "cs ! i" w _ cp' w'] it True sent got i show ?thesis
      by (auto simp: fifo_inv_def driver_step_def driver_thread_def answer_of_def)
  next
    case no: False
    with driver_iter_other [OF it] it True sent got i show ?thesis
      by (auto simp: fifo_inv_def driver_step_def driver_thread_def answer_of_def
          split: option.splits run.splits)
  qed
qed

lemma sys_run_length: "sys_run os s0 tr s \<Longrightarrow> length (fst s) = length (fst s0)"
  by (induction rule: sys_run.induct)
     (auto simp: send_call_def driver_step_def client_drop_def run_bind_Ok_iff wait_resp.simps
        split: prod.splits if_splits option.splits run.splits)

lemma poll_chan_Ok:
  "poll_chan q = Some (Ok (x, q')) \<longleftrightarrow> ch_items q = x # ch_items q' \<and> q' = q\<lparr>ch_items := ch_items q'\<rparr>"
  by (auto simp: poll_chan_def split: list.splits if_splits)

lemma sys_run_fifo:
  assumes "sys_run os s0 tr s" and "i < length (fst s0)"
    and "ch_items (cp_call (fst s0 ! i)) = []" and "ch_items (cp_resp (fst s0 ! i)) = []"
  shows "fifo_inv i tr (fst s ! i)"
  using assms
proof (induction rule: sys_run.induct)
  case run_init
  then show ?case by (simp add: fifo_inv_def)
next
  case (run_send tr s j c s')
  then show ?case
    by (cases s; cases "j = i")
       (auto simp: fifo_inv_def send_call_def run_bind_Ok_iff send_chan_def
          split: if_splits)
next
  case (run_drive tr s j)
  with sys_run_length [OF run_drive.hyps] show ?case
    by (cases s) (simp add: fifo_inv_drive)
next
  case (run_recv tr s j r s')
  then show ?case
    by (cases s; cases "j = i")
       (auto simp: fifo_inv_def wait_resp.simps poll_chan_Ok split: if_splits option.splits run.splits)
next
  case (run_drop tr s j)
  with sys_run_length [OF run_drop.hyps] show ?case
    by (cases s; cases "j = i") (auto simp: fifo_inv_def client_drop_def nth_list_update)
next
  case (run_sched tr cs w sched w')
  then show ?case by simp
qed

text \<open>Waiting with a schedule is a sequence of driver steps followed by a receive.\<close>

lemma wait_resp_in_run:
  assumes "sys_run os s0 tr s" and "wait_resp os sched i s = (Ok r, s')"
  shows "\<exists>tr'. sys_run os s0 (tr @ tr' @ [Got i r]) s' \<and> (\<forall>j. sent_by j tr' = [] \<and> got_by j tr' = [])"
  using assms
proof (induction sched arbitrary: tr s)
  case Nil
  from run_recv [OF Nil] show ?case by (intro exI [of _ "[]"]) simp
next
  case (Cons j js)
  obtain cs w where s: "s = (cs, w)" by (cases s)
  show ?case
  proof (cases "poll_chan (cp_resp (cs ! i))")
    case None
    with Cons.prems(2) have "wait_resp os js i (driver_step os j (cs, w)) = (Ok r, s')"
      by (simp add: s wait_resp.simps [of os "j # js"] split: if_splits)
    from Cons.IH [OF run_drive [OF Cons.prems(1), of j, unfolded s] this]
    obtain tr' where "sys_run os s0 (tr @ (answer_of os j s @ tr') @ [Got i r]) s'"
      "\<forall>k. sent_by k tr' = [] \<and> got_by k tr' = []" by (auto simp: s)
    moreover have "sent_by k (answer_of os j s) = [] \<and> got_by k (answer_of os j s) = []" for k
      by (auto simp: answer_of_def split: prod.splits option.splits run.splits)
    ultimately show ?thesis by (intro exI [of _ "answer_of os j s @ tr'"]) simp
  next
    case (Some p)
    with Cons.prems(2) have "wait_resp os [] i s = (Ok r, s')"
      by (simp add: s wait_resp.simps split: if_splits)
    from run_recv [OF Cons.prems(1) this] show ?thesis by (intro exI [of _ "[]"]) simp
  qed
qed

section \<open>A call and its answer\<close>

definition idle :: "ClientProc \<Rightarrow> bool" where
  "idle cp = (cp_driver cp = Running \<and> cp_call cp = channel \<and> cp_resp cp = channel)"

definition set_client :: "ClientProc \<Rightarrow> KvCall \<Rightarrow> reader \<Rightarrow> ClientProc" where
  "set_client cp c rd = cp\<lparr>cp_stdout := rd, cp_stopped := cp_stopped cp \<or> c = KvCall.Stop\<rparr>"

lemma idle_set_client [simp]: "idle (set_client cp c rd) = idle cp"
  by (simp add: idle_def set_client_def)

lemma driver_iter_answer:
  assumes "cp_call cp = channel\<lparr>ch_items := [c]\<rparr>" and "cp_resp cp = channel"
    and "os_write os (cp_handle cp) (fmt_call c) w = (Ok (), w1)"
    and "os_output os (cp_handle cp) w1 = ((out, fin), w2)"
    and "from_read \<lparr>rd_rest = rd_rest (cp_stdout cp) @ out, rd_end = fin\<rparr> [] = Some (Ok (r, rd))"
  shows "driver_iter os cp w =
     (Some (Ok ()), (set_client cp c rd)\<lparr>cp_call := channel, cp_resp := channel\<lparr>ch_items := [r]\<rparr>\<rparr>, w2)"
  using assms
  by (cases cp) (simp add: driver_iter_def recv_chan_def send_chan_def channel_def into_write_def set_client_def)

lemma call_round:
  assumes i: "i < length cs" and idle: "idle (cs ! i)"
    and os: "os_write os (cp_handle (cs ! i)) (fmt_call c) w = (Ok (), w1)"
      "os_output os (cp_handle (cs ! i)) w1 = ((out, fin), w2)"
      "from_read \<lparr>rd_rest = rd_rest (cp_stdout (cs ! i)) @ out, rd_end = fin\<rparr> [] = Some (Ok (r, rd))"
  shows "\<exists>s. send_call i c (cs, w) = Ok s \<and>
     wait_resp os (i # sched) i s = (Ok r, (cs[i := set_client (cs ! i) c rd], w2))"
proof -
  let ?cp = "(cs ! i)\<lparr>cp_call := channel\<lparr>ch_items := [c]\<rparr>\<rparr>"
  have send: "send_call i c (cs, w) = Ok (cs[i := ?cp], w)"
    using i idle by (simp add: send_call_def idle_def send_chan_def channel_def)
  have it: "driver_iter os ?cp w = (Some (Ok ()),
      (set_client ?cp c rd)\<lparr>cp_call := channel, cp_resp := channel\<lparr>ch_items := [r]\<rparr>\<rparr>, w2)"
    using driver_iter_answer [of ?cp c os w w1 out fin w2 r rd] idle os by (simp add: idle_def)
  have "(set_client ?cp c rd)\<lparr>cp_call := channel, cp_resp := channel\<rparr> = set_client (cs ! i) c rd"
    using idle by (cases "cs ! i") (simp add: set_client_def idle_def)
  then have "wait_resp os (i # sched) i (cs[i := ?cp], w) = (Ok r, (cs[i := set_client (cs ! i) c rd], w2))"
    using i idle it
    by (simp add: wait_resp.simps poll_chan_def driver_step_def driver_thread_def idle_def channel_def)
  with send show ?thesis by blast
qed

section \<open>Properties\<close>

text \<open>A process that prints one prepared text per input, for examples.\<close>

definition script_os :: "string list os" where
  "script_os =
     \<lparr>os_spawn = \<lambda>_ w. (Ok 0, w), os_write = \<lambda>_ _ w. (Ok (), w),
      os_output = \<lambda>_ w. (case w of [] \<Rightarrow> (([], Blocks), []) | t # ts \<Rightarrow> ((t, Blocks), ts)),
      os_wait = \<lambda>_ _. Some (Ok (True, ''exit status: 0'')), os_kill = \<lambda>_ w. (Ok (), w),
      os_sched = \<lambda>w. ([0], w)\<rparr>"

definition fresh_client :: ClientProc where
  "fresh_client =
     \<lparr>cp_handle = 0, cp_call = channel, cp_resp = channel,
      cp_stdout = \<lparr>rd_rest = [], rd_end = Blocks\<rparr>, cp_stopped = False,
      cp_driver = Running, cp_log = []\<rparr>"

text \<open>
  C8. Calls and responses are matched by position. However the owner and the driver threads are
  interleaved, and whatever the client processes do, the calls the driver of a client has answered
  are, in order, the first calls the owner sent to that client, and the responses the owner got are,
  in order, the first of their answers: the k-th response is the answer to the k-th call.
\<close>

theorem driver_fifo:
  assumes "sys_run os s0 tr s" and "i < length (fst s0)"
    and "ch_items (cp_call (fst s0 ! i)) = []" and "ch_items (cp_resp (fst s0 ! i)) = []"
  shows "prefix (map fst (answered_by i tr)) (sent_by i tr) \<and>
         prefix (got_by i tr) (map snd (answered_by i tr))"
  using sys_run_fifo [OF assms] by (auto simp: fifo_inv_def)

theorem driver_fifo_witness:
  "\<exists>tr s. sys_run script_os ([fresh_client], [''STOP'' @ [newline]]) tr s \<and>
     KvResp.Stop \<in> set (got_by 0 tr) \<and> prefix (got_by 0 tr) (map snd (answered_by 0 tr))"
proof -
  let ?s0 = "([fresh_client], [''STOP'' @ [newline]])"
  have "from_read \<lparr>rd_rest = rd_rest (cp_stdout ([fresh_client] ! 0)) @ ''STOP'' @ [newline], rd_end = Blocks\<rparr> []
      = Some (Ok (KvResp.Stop, \<lparr>rd_rest = [], rd_end = Blocks\<rparr>))" by code_simp
  from call_round [OF _ _ _ _ this, of script_os KvCall.Stop "[''STOP'' @ [newline]]"
      "[''STOP'' @ [newline]]" "[]" "[]"]
  obtain s1 s2 where s1: "send_call 0 KvCall.Stop ?s0 = Ok s1"
    and s2: "wait_resp script_os [0] 0 s1 = (Ok KvResp.Stop, s2)"
    by (auto simp: script_os_def fresh_client_def idle_def)
  from wait_resp_in_run [OF run_send [OF run_init s1] s2] obtain tr' where
    run: "sys_run script_os ?s0 (([] @ [Sent 0 KvCall.Stop]) @ tr' @ [Got 0 KvResp.Stop]) s2" by blast
  have "prefix (got_by 0 (([] @ [Sent 0 KvCall.Stop]) @ tr' @ [Got 0 KvResp.Stop]))
      (map snd (answered_by 0 (([] @ [Sent 0 KvCall.Stop]) @ tr' @ [Got 0 KvResp.Stop])))"
    using driver_fifo [OF run, of 0] by (simp add: fresh_client_def channel_def)
  with run show ?thesis by (intro exI conjI) (assumption | simp)+
qed

text \<open>
  C20. A call on an idle client: if the process takes the line of the call and prints a text that reads
  as a response, then sending the call and waiting gives exactly this response and leaves the client
  idle, ready for the next call, with the unread rest of the text kept.
\<close>

theorem call_answered:
  assumes "i < length cs" and "idle (cs ! i)"
    and "os_write os (cp_handle (cs ! i)) (fmt_call c) w = (Ok (), w1)"
    and "os_output os (cp_handle (cs ! i)) w1 = ((out, fin), w2)"
    and "from_read \<lparr>rd_rest = rd_rest (cp_stdout (cs ! i)) @ out, rd_end = fin\<rparr> [] = Some (Ok (r, rd))"
  shows "\<exists>s cs'. send_call i c (cs, w) = Ok s \<and> wait_resp os (i # sched) i s = (Ok r, (cs', w2)) \<and>
     idle (cs' ! i) \<and> cp_stdout (cs' ! i) = rd"
  using call_round [OF assms, of sched] assms(1,2) by (fastforce simp: set_client_def idle_def)

theorem call_answered_witness:
  "\<exists>s cs'. send_call 0 (KvCall.Get ''k'') ([fresh_client], [''GET k v'' @ [newline] @ ''rest'']) = Ok s \<and>
     wait_resp script_os (0 # []) 0 s = (Ok (KvResp.Get ''k'' (Some ''v'')), (cs', [])) \<and>
     idle (cs' ! 0) \<and> cp_stdout (cs' ! 0) = \<lparr>rd_rest = ''rest'', rd_end = Blocks\<rparr>"
proof -
  have "from_read \<lparr>rd_rest = rd_rest (cp_stdout ([fresh_client] ! 0)) @ ''GET k v'' @ [newline] @ ''rest'',
      rd_end = Blocks\<rparr> [] = Some (Ok (KvResp.Get ''k'' (Some ''v''), \<lparr>rd_rest = ''rest'', rd_end = Blocks\<rparr>))"
    by code_simp
  from call_answered [OF _ _ _ _ this, of script_os "KvCall.Get ''k''"
      "[''GET k v'' @ [newline] @ ''rest'']" "[''GET k v'' @ [newline] @ ''rest'']" "[]" "[]"]
  show ?thesis by (simp add: script_os_def fresh_client_def idle_def)
qed

text \<open>
  C21. When an iteration of a driver fails, the driver ends: it reports the error unless it had been
  told to stop or the error is that of a closed channel, the next call on the client fails, and,
  once the responses already received are used up, waiting fails at once instead of timing out.
\<close>

theorem failed_driver_ends:
  assumes "i < length cs" and "cp_driver (cs ! i) = Running"
    and "driver_iter os (cs ! i) w = (Some (Err err), cp', w')"
  shows "\<exists>cs'. driver_step os i (cs, w) = (cs', w') \<and>
     cp_log (cs' ! i) = cp_log cp' @ (if cp_stopped cp' \<or> is_chan err then []
                                      else [''Error in driver: '' @ fmt_error err]) \<and>
     send_call i c (cs', w') = Err (Chan ''sending on a closed channel'') \<and>
     (ch_items (cp_resp (cs ! i)) = [] \<longrightarrow>
        wait_resp os sched i (cs', w')
          = (Err (Chan ''channel is empty and sending half is closed''), (cs', w')))"
proof -
  from driver_iter_other [OF assms(3)] have "cp_resp cp' = cp_resp (cs ! i)" by simp
  with assms show ?thesis
    by (simp add: driver_step_def driver_thread_def driver_end_def send_call_def send_chan_def
        wait_resp.simps poll_chan_def)
qed

theorem failed_driver_ends_witness:
  "\<exists>cs'. driver_step script_os 0 ([fresh_client\<lparr>cp_call := channel\<lparr>ch_items := [KvCall.Stop]\<rparr>\<rparr>],
       [''bad'' @ [newline]]) = (cs', []) \<and>
     send_call 0 KvCall.Stop (cs', [] :: string list) = Err (Chan ''sending on a closed channel'')"
proof -
  let ?cp = "fresh_client\<lparr>cp_call := channel\<lparr>ch_items := [KvCall.Stop]\<rparr>\<rparr>"
  have "from_read \<lparr>rd_rest = ''bad'' @ [newline], rd_end = Blocks\<rparr> []
      = Some (Err (invalid_line (''bad'' @ [newline])))" by code_simp
  then obtain cp' where it: "driver_iter script_os ([?cp] ! 0) [''bad'' @ [newline]]
      = (Some (Err (invalid_line (''bad'' @ [newline]))), cp', [])"
    by (simp add: driver_iter_def script_os_def fresh_client_def recv_chan_def into_write_def)
  from failed_driver_ends [OF _ _ it, of KvCall.Stop "[]"] show ?thesis
    by (auto simp: fresh_client_def)
qed

text \<open>
  C22. Stopping an idle client whose process answers \<open>STOP\<close> to \<open>STOP\<close> succeeds iff killing it does,
  and drops the handle.
\<close>

theorem stop_answered:
  assumes "i < length cs" and "idle (cs ! i)"
    and "os_write os (cp_handle (cs ! i)) (fmt_call KvCall.Stop) w = (Ok (), w1)"
    and "os_output os (cp_handle (cs ! i)) w1 = ((out, fin), w2)"
    and "from_read \<lparr>rd_rest = rd_rest (cp_stdout (cs ! i)) @ out, rd_end = fin\<rparr> []
           = Some (Ok (KvResp.Stop, rd))"
    and "os_kill os (cp_handle (cs ! i)) w2 = (res, w3)"
  shows "\<exists>s'. client_stop os (i # sched) i (cs, w) = (io_question res, s') \<and>
     \<not> ch_tx (cp_call (fst s' ! i)) \<and> snd s' = w3"
  using call_round [OF assms(1-5), of sched] assms(1,6)
  by (auto simp: client_stop_def client_drop_def set_client_def)

theorem stop_answered_witness:
  "\<exists>s'. client_stop script_os (0 # []) 0 ([fresh_client], [''STOP'' @ [newline]]) = (io_question (Ok ()), s') \<and>
     \<not> ch_tx (cp_call (fst s' ! 0)) \<and> snd s' = []"
proof -
  have "from_read \<lparr>rd_rest = rd_rest (cp_stdout ([fresh_client] ! 0)) @ ''STOP'' @ [newline], rd_end = Blocks\<rparr> []
      = Some (Ok (KvResp.Stop, \<lparr>rd_rest = [], rd_end = Blocks\<rparr>))" by code_simp
  from stop_answered [OF _ _ _ _ this, of script_os "[''STOP'' @ [newline]]" "[''STOP'' @ [newline]]" "[]"
      "Ok ()" "[]" "[]"]
  show ?thesis by (simp add: script_os_def fresh_client_def idle_def)
qed

end
