(* ===== verification/KvSpec.thy ===== *)
theory KvSpec
  imports Ioapi
begin

text \<open>
  The sequential key-value service a client talks to, as the README's interface section and the
  fuzzer's checker describe it: the state is a partial function from keys to values, an update
  answers with what it replaced, and a scan answers with all entries whose key lies between the two
  bounds, both included. This is the abstract specification the reference client is compared with
  and the store the fuzzer is run against.
\<close>

type_synonym kv = "string \<rightharpoonup> string"

fun kv_apply :: "KvCall \<Rightarrow> kv \<Rightarrow> kv" where
  "kv_apply (KvCall.Put k v) s = s(k \<mapsto> v)"
| "kv_apply (KvCall.Swap k v) s = s(k \<mapsto> v)"
| "kv_apply (KvCall.Delete k) s = s(k := None)"
| "kv_apply _ s = s"

text \<open>The response that answers a call in a given state.\<close>

fun kv_answers :: "kv \<Rightarrow> KvCall \<Rightarrow> KvResp \<Rightarrow> bool" where
  "kv_answers s (KvCall.Put k v) r = (r = KvResp.Put k (s k \<noteq> None))"
| "kv_answers s (KvCall.Swap k v) r = (r = KvResp.Swap k (s k))"
| "kv_answers s (KvCall.Get k) r = (r = KvResp.Get k (s k))"
| "kv_answers s (KvCall.Scan a b) r =
     (\<exists>es. r = KvResp.Scan a b es \<and> distinct (map fst es) \<and>
        (\<forall>k v. (k, v) \<in> set es \<longleftrightarrow> a \<le> k \<and> k \<le> b \<and> s k = Some v))"
| "kv_answers s (KvCall.Delete k) r = (r = KvResp.Delete k (s k \<noteq> None))"
| "kv_answers s KvCall.Stop r = (r = KvResp.Stop)"

section \<open>Updates and their descriptions agree\<close>

text \<open>\<open>update_info\<close> describes exactly the change a call makes.\<close>

lemma kv_apply_update_info:
  "kv_apply c s = (case update_info c of None \<Rightarrow> s | Some (k, v) \<Rightarrow> s(k := v))"
  by (cases c) auto

lemma kv_apply_other_key:
  "update_info c = Some (k, v) \<Longrightarrow> k' \<noteq> k \<Longrightarrow> kv_apply c s k' = s k'"
  by (simp add: kv_apply_update_info)

end
