(* ===== verification/History.thy ===== *)
theory History
  imports KvSpec "HOL-Library.AList"
begin

text \<open>
  The fuzzer's consistency checker (\<open>runner/src/bin/fuzzer/history.rs\<close>): the per-key, per-client
  trimmed history of acknowledged updates, the queue of responses still to be checked, and the five
  checks. Time stamps are \<open>u64\<close> words. A \<open>HashMap\<close> is an association list with distinct keys, in
  the order of an arbitrary iteration; \<open>check_call_order\<close> shows that the order does not matter.
\<close>

section \<open>Data\<close>

record UpdateSpan =
  us_ts_call :: u64
  us_ts_resp :: u64
  us_value :: "string option"

record QueuedSpan =
  qs_ts_call :: u64
  qs_ts_resp :: u64
  qs_resp :: KvResp

type_synonym key_spans = "UpdateSpan list list"

record History =
  queue :: "QueuedSpan list"
  spans :: "(string \<times> key_spans) list"
  maxtr :: "u64 list"

definition dummy_span :: UpdateSpan where
  "dummy_span = \<lparr>us_ts_call = 0, us_ts_resp = 0, us_value = None\<rparr>"

definition add_key ::
  "nat \<Rightarrow> string \<Rightarrow> (string \<times> key_spans) list \<Rightarrow> (string \<times> key_spans) list" where
  "add_key num_clis key m =
     (if map_of m key \<noteq> None then m else m @ [(key, replicate num_clis [dummy_span])])"

definition history_new :: "nat \<Rightarrow> string list list \<Rightarrow> History" where
  "history_new num_clis keys =
     \<lparr>queue = [], spans = fold (\<lambda>cli_keys m. fold (add_key num_clis) cli_keys m) keys [],
      maxtr = replicate num_clis 0\<rparr>"

definition add_to_queue ::
  "bool \<Rightarrow> History \<Rightarrow> u64 \<Rightarrow> u64 \<Rightarrow> KvResp \<Rightarrow> (History, RunnerError) run" where
  "add_to_queue dbg h ts_call ts_resp resp =
     run_bind (debug_assert dbg (ts_call < ts_resp)) (\<lambda>_.
     run_bind (debug_assert dbg (queue h = [] \<or> qs_ts_resp (last (queue h)) < ts_resp)) (\<lambda>_.
     Ok (h\<lparr>queue := queue h
             @ [\<lparr>qs_ts_call = ts_call, qs_ts_resp = ts_resp, qs_resp = resp\<rparr>]\<rparr>)))"

definition queue_len :: "History \<Rightarrow> nat" where
  "queue_len h = length (queue h)"

section \<open>The checks\<close>

text \<open>
  The loop over the spans of one client, latest first, that the five checks share; \<open>test\<close> is the
  comparison of the span's value with the response.
\<close>

fun span_loop :: "(string option \<Rightarrow> bool) \<Rightarrow> u64 \<Rightarrow> u64 \<Rightarrow> UpdateSpan list \<Rightarrow> bool" where
  "span_loop test ts_call ts_resp [] = False"
| "span_loop test ts_call ts_resp (span # rest) =
     (if us_ts_call span < ts_resp \<and> test (us_value span) then True
      else if us_ts_resp span < ts_call then False
      else span_loop test ts_call ts_resp rest)"

definition check_put :: "key_spans \<Rightarrow> u64 \<Rightarrow> u64 \<Rightarrow> bool \<Rightarrow> bool" where
  "check_put key_spans ts_call ts_resp found =
     list_ex (\<lambda>cli_spans. span_loop (\<lambda>v. (v \<noteq> None) = found) ts_call ts_resp (rev cli_spans))
       key_spans"

definition check_swap :: "key_spans \<Rightarrow> u64 \<Rightarrow> u64 \<Rightarrow> string option \<Rightarrow> bool" where
  "check_swap key_spans ts_call ts_resp old_value =
     list_ex (\<lambda>cli_spans. span_loop (\<lambda>v. v = old_value) ts_call ts_resp (rev cli_spans)) key_spans"

definition check_get :: "key_spans \<Rightarrow> u64 \<Rightarrow> u64 \<Rightarrow> string option \<Rightarrow> bool" where
  "check_get key_spans ts_call ts_resp val =
     list_ex (\<lambda>cli_spans. span_loop (\<lambda>v. v = val) ts_call ts_resp (rev cli_spans)) key_spans"

definition check_delete :: "key_spans \<Rightarrow> u64 \<Rightarrow> u64 \<Rightarrow> bool \<Rightarrow> bool" where
  "check_delete key_spans ts_call ts_resp found =
     list_ex (\<lambda>cli_spans. span_loop (\<lambda>v. (v \<noteq> None) = found) ts_call ts_resp (rev cli_spans))
       key_spans"

text \<open>The map of the scan's entries; \<open>None\<close> on an entry out of range or a duplicate key.\<close>

fun collect_entries ::
  "string \<Rightarrow> string \<Rightarrow> (string \<times> string) list \<Rightarrow> (string \<times> string) list
     \<Rightarrow> (string \<times> string) list option" where
  "collect_entries key_start key_end m [] = Some m"
| "collect_entries key_start key_end m ((key, v) # es) =
     (if key < key_start \<or> key_end < key then None
      else if map_of m key \<noteq> None then None
      else collect_entries key_start key_end ((key, v) # m) es)"

definition check_scan ::
  "(string \<times> key_spans) list \<Rightarrow> u64 \<Rightarrow> u64 \<Rightarrow> string \<Rightarrow> string \<Rightarrow> (string \<times> string) list \<Rightarrow> bool"
where
  "check_scan spns ts_call ts_resp key_start key_end es =
     (case collect_entries key_start key_end [] es of
        None \<Rightarrow> False
      | Some entries_map \<Rightarrow>
          list_all (\<lambda>(key, key_spans).
            \<not> (key_start \<le> key \<and> key \<le> key_end \<and>
               \<not> check_get key_spans ts_call ts_resp (map_of entries_map key))) spns)"

definition check_call :: "(string \<times> key_spans) list \<Rightarrow> QueuedSpan \<Rightarrow> bool" where
  "check_call spns entry =
     (case qs_resp entry of
        KvResp.Put key found \<Rightarrow>
          (case map_of spns key of
             Some ks \<Rightarrow> check_put ks (qs_ts_call entry) (qs_ts_resp entry) found | None \<Rightarrow> False)
      | KvResp.Swap key old_value \<Rightarrow>
          (case map_of spns key of
             Some ks \<Rightarrow> check_swap ks (qs_ts_call entry) (qs_ts_resp entry) old_value | None \<Rightarrow> False)
      | KvResp.Get key v \<Rightarrow>
          (case map_of spns key of
             Some ks \<Rightarrow> check_get ks (qs_ts_call entry) (qs_ts_resp entry) v | None \<Rightarrow> False)
      | KvResp.Scan key_start key_end es \<Rightarrow>
          check_scan spns (qs_ts_call entry) (qs_ts_resp entry) key_start key_end es
      | KvResp.Delete key found \<Rightarrow>
          (case map_of spns key of
             Some ks \<Rightarrow> check_delete ks (qs_ts_call entry) (qs_ts_resp entry) found | None \<Rightarrow> False)
      | KvResp.Stop \<Rightarrow> False)"

section \<open>Applying an update\<close>

text \<open>The time stamp from which a client's spans must be kept.\<close>

fun keep_loop :: "u64 \<Rightarrow> u64 \<Rightarrow> UpdateSpan list \<Rightarrow> u64" where
  "keep_loop min_coming min_queued [] = 0"
| "keep_loop min_coming min_queued (span # rest) =
     (if us_ts_resp span < min_coming \<and> us_ts_resp span < min_queued then us_ts_call span
      else keep_loop min_coming min_queued rest)"

fun pop_front_while :: "u64 \<Rightarrow> UpdateSpan list \<Rightarrow> UpdateSpan list" where
  "pop_front_while keep_ts (s # t # rest) =
     (if us_ts_resp s < keep_ts then pop_front_while keep_ts (t # rest) else s # t # rest)"
| "pop_front_while keep_ts xs = xs"

definition trim_client :: "u64 \<Rightarrow> u64 \<Rightarrow> UpdateSpan list \<Rightarrow> UpdateSpan list" where
  "trim_client min_coming min_queued cli_spans =
     pop_front_while (keep_loop min_coming min_queued (rev cli_spans)) cli_spans"

text \<open>The loop that pops and checks the queued responses that have become decidable.\<close>

function pop_checks :: "u64 \<Rightarrow> History \<Rightarrow> KvResp option option \<times> History" where
  "pop_checks min_coming h =
     (case queue h of
        [] \<Rightarrow> (None, h)
      | entry # q \<Rightarrow>
          if qs_ts_resp entry < min_coming then
            (if \<not> check_call (spans h) entry then (Some (Some (qs_resp entry)), h\<lparr>queue := q\<rparr>)
             else pop_checks min_coming (h\<lparr>queue := q\<rparr>))
          else (None, h))"
  by pat_completeness auto
termination
  by (relation "measure (\<lambda>(_, h). length (queue h))") auto

declare pop_checks.simps [simp del]

definition apply_update ::
  "bool \<Rightarrow> History \<Rightarrow> nat \<Rightarrow> u64 \<Rightarrow> u64 \<Rightarrow> string \<Rightarrow> string option
     \<Rightarrow> (KvResp option option \<times> History, RunnerError) run" where
  "apply_update dbg h cidx ts_call ts_resp key val =
     (case map_of (spans h) key of
        None \<Rightarrow> Ok (Some None, h)
      | Some ks \<Rightarrow>
          if dbg \<and> \<not> (cidx < length (maxtr h) \<and> cidx < length ks \<and>
               (ks ! cidx = [] \<or> us_ts_resp (last (ks ! cidx)) < ts_call)) then Panic
          else if \<not> cidx < length ks then Panic
          else if \<not> cidx < length (maxtr h) then Panic
          else
            (let ks1 = ks[cidx := ks ! cidx
                   @ [\<lparr>us_ts_call = ts_call, us_ts_resp = ts_resp, us_value = val\<rparr>]];
                 maxtr1 = (maxtr h)[cidx := ts_resp];
                 min_queued = (case iter_min (map qs_ts_call (queue h)) of
                                 None \<Rightarrow> u64_MAX | Some t \<Rightarrow> t)
             in case iter_min maxtr1 of
                  None \<Rightarrow> Panic
                | Some min_coming \<Rightarrow>
                    Ok (pop_checks min_coming
                          (h\<lparr>spans := AList.update key (map (trim_client min_coming min_queued) ks1)
                                       (spans h),
                             maxtr := maxtr1\<rparr>))))"

section \<open>Feeding acknowledged operations\<close>

text \<open>
  An acknowledged operation: the client it was made by, the call, its time stamps, and the response.
  \<open>record_ack\<close> is what the fuzzer does with it; \<open>replay\<close> feeds a whole sequence and stops at the
  first verdict.
\<close>

record ack =
  ak_cidx :: nat
  ak_call :: KvCall
  ak_ts_call :: u64
  ak_ts_resp :: u64
  ak_resp :: KvResp

definition record_ack ::
  "bool \<Rightarrow> History \<Rightarrow> ack \<Rightarrow> (KvResp option option \<times> History, RunnerError) run" where
  "record_ack dbg h a =
     run_bind (add_to_queue dbg h (ak_ts_call a) (ak_ts_resp a) (ak_resp a)) (\<lambda>h.
       case update_info (ak_call a) of
         Some (update_key, update_value) \<Rightarrow>
           apply_update dbg h (ak_cidx a) (ak_ts_call a) (ak_ts_resp a) update_key update_value
       | None \<Rightarrow> Ok (None, h))"

fun replay ::
  "bool \<Rightarrow> History \<Rightarrow> ack list \<Rightarrow> (KvResp option option \<times> History, RunnerError) run" where
  "replay dbg h [] = Ok (None, h)"
| "replay dbg h (a # as) =
     run_bind (record_ack dbg h a) (\<lambda>(verdict, h').
       case verdict of None \<Rightarrow> replay dbg h' as | Some v \<Rightarrow> Ok (Some v, h'))"

section \<open>The interface of a check\<close>

text \<open>
  What a client's history lets an operation see: a span that began before the operation ended and
  is not overwritten by a later span of the same client that ended before the operation began.
\<close>

definition cli_sees ::
  "(string option \<Rightarrow> bool) \<Rightarrow> u64 \<Rightarrow> u64 \<Rightarrow> UpdateSpan list \<Rightarrow> bool" where
  "cli_sees P ts_call ts_resp cli =
     (\<exists>pre s post. cli = pre @ s # post \<and> us_ts_call s < ts_resp \<and> P (us_value s) \<and>
        (\<forall>t \<in> set post. \<not> us_ts_resp t < ts_call))"

lemma span_loop_rev: "span_loop P tc tr (rev cli) = cli_sees P tc tr cli"
proof (induction cli rule: rev_induct)
  case Nil
  then show ?case by (simp add: cli_sees_def)
next
  case (snoc x xs)
  have "cli_sees P tc tr (xs @ [x]) \<longleftrightarrow>
      (us_ts_call x < tr \<and> P (us_value x)) \<or> (\<not> us_ts_resp x < tc \<and> cli_sees P tc tr xs)"
  proof
    assume "cli_sees P tc tr (xs @ [x])"
    then obtain pre s post where *: "xs @ [x] = pre @ s # post" "us_ts_call s < tr"
        "P (us_value s)" "\<forall>t \<in> set post. \<not> us_ts_resp t < tc"
      by (auto simp: cli_sees_def)
    then show "(us_ts_call x < tr \<and> P (us_value x)) \<or> (\<not> us_ts_resp x < tc \<and> cli_sees P tc tr xs)"
      by (cases post rule: rev_cases) (auto simp: cli_sees_def)
  next
    assume "(us_ts_call x < tr \<and> P (us_value x)) \<or> (\<not> us_ts_resp x < tc \<and> cli_sees P tc tr xs)"
    then show "cli_sees P tc tr (xs @ [x])"
      by (fastforce simp: cli_sees_def)
  qed
  with snoc.IH show ?case by auto
qed

text \<open>Dropping spans before one that ended before the call changes nothing.\<close>

lemma cli_sees_drop:
  assumes "kept \<noteq> []" and "us_ts_resp (hd kept) < tc"
  shows "cli_sees P tc tr (dropped @ kept) = cli_sees P tc tr kept"
proof
  assume "cli_sees P tc tr (dropped @ kept)"
  then obtain pre s post where *: "dropped @ kept = pre @ s # post" "us_ts_call s < tr"
      "P (us_value s)" "\<forall>t \<in> set post. \<not> us_ts_resp t < tc"
    by (auto simp: cli_sees_def)
  have "\<exists>pre'. kept = pre' @ s # post"
  proof (cases "length pre < length dropped")
    case True
    then obtain us where "dropped = pre @ s # us" and "post = us @ kept"
      using *(1) by (auto simp: append_eq_append_conv2 append_eq_Cons_conv)
    with assms *(4) show ?thesis by (cases kept) auto
  next
    case False
    with *(1) show ?thesis by (auto simp: append_eq_append_conv2 append_eq_Cons_conv)
  qed
  with *(2-4) show "cli_sees P tc tr kept" by (auto simp: cli_sees_def)
next
  assume "cli_sees P tc tr kept"
  then obtain pre s post where "kept = pre @ s # post" "us_ts_call s < tr"
      "P (us_value s)" "\<forall>t \<in> set post. \<not> us_ts_resp t < tc"
    by (auto simp: cli_sees_def)
  then show "cli_sees P tc tr (dropped @ kept)"
    by (auto simp: cli_sees_def intro!: exI [of _ "dropped @ pre"])
qed

text \<open>Adding spans that begin after the operation ended changes nothing.\<close>

lemma cli_sees_append:
  assumes "\<forall>t \<in> set new. \<not> us_ts_call t < tr \<and> \<not> us_ts_resp t < tc"
  shows "cli_sees P tc tr (old @ new) = cli_sees P tc tr old"
  using assms
proof (induction new rule: rev_induct)
  case (snoc x xs)
  then have "cli_sees P tc tr (old @ xs @ [x]) = cli_sees P tc tr (old @ xs)"
    using span_loop_rev [of P tc tr "old @ xs @ [x]"] span_loop_rev [of P tc tr "old @ xs"] by simp
  with snoc show ?case by simp
qed simp

text \<open>
  The contract of a check: it accepts a response iff some client's history lets the operation see
  a value the response agrees with.
\<close>

locale span_check =
  fixes chk :: "key_spans \<Rightarrow> u64 \<Rightarrow> u64 \<Rightarrow> 'r \<Rightarrow> bool"
    and agrees :: "'r \<Rightarrow> string option \<Rightarrow> bool"
  assumes chk_iff: "chk ks tc tr r \<longleftrightarrow> (\<exists>cli \<in> set ks. cli_sees (agrees r) tc tr cli)"
begin

lemma chk_cong:
  assumes "list_all2 (\<lambda>a b. \<forall>P. cli_sees P tc tr a = cli_sees P tc tr b) ks ks'"
  shows "chk ks tc tr r = chk ks' tc tr r"
  using assms unfolding chk_iff by (induction rule: list_all2_induct) auto

lemma chk_value:
  assumes "cli \<in> set ks" and "cli_sees (\<lambda>v. v = x) tc tr cli" and "agrees r x"
  shows "chk ks tc tr r"
  using assms unfolding chk_iff cli_sees_def by blast

text \<open>A client that only has the initial span never lets an agreeing response fail.\<close>

lemma chk_untouched:
  assumes "[dummy_span] \<in> set ks" and "0 < tr" and "agrees r None"
  shows "chk ks tc tr r"
proof (rule chk_value [OF assms(1) _ assms(3)])
  have "[dummy_span] = [] @ dummy_span # []" by simp
  then show "cli_sees (\<lambda>v. v = None) tc tr [dummy_span]"
    unfolding cli_sees_def using assms(2) by (fastforce simp: dummy_span_def)
qed

end

interpretation put: span_check check_put "\<lambda>found v. (v \<noteq> None) = found"
  by unfold_locales (simp add: check_put_def span_loop_rev list_ex_iff)

interpretation swap: span_check check_swap "\<lambda>old v. v = old"
  by unfold_locales (simp add: check_swap_def span_loop_rev list_ex_iff)

interpretation get: span_check check_get "\<lambda>val v. v = val"
  by unfold_locales (simp add: check_get_def span_loop_rev list_ex_iff)

interpretation delete: span_check check_delete "\<lambda>found v. (v \<noteq> None) = found"
  by unfold_locales (simp add: check_delete_def span_loop_rev list_ex_iff)

section \<open>The iteration order of the hash map\<close>

lemma check_scan_order:
  "set m = set m' \<Longrightarrow> check_scan m tc tr a b es = check_scan m' tc tr a b es"
  by (simp add: check_scan_def list_all_iff split: option.splits)

lemma check_call_order:
  assumes "set m = set m'" and "distinct (map fst m)" and "distinct (map fst m')"
  shows "check_call m e = check_call m' e"
proof -
  have "map_of m = map_of m'" using assms by (simp add: map_of_inject_set)
  then show ?thesis
    using check_scan_order [OF assms(1)] by (cases "qs_resp e") (simp_all add: check_call_def)
qed

end
