(* ===== verification/Offline.thy ===== *)
theory Offline
  imports History
begin

text \<open>
  The reference of the fuzzer's checker: the complete, untrimmed history of all acknowledged
  operations, over which every check could be made at the end of the run. This theory holds the
  reference, the invariant that relates the checker's trimmed state to it, and the refinement: the
  checker never panics on a well-formed run, decides exactly the responses below its frontier, and
  decides each of them as the reference does, however the run goes on.
\<close>

section \<open>The complete history\<close>

definition ack_entry :: "ack \<Rightarrow> QueuedSpan" where
  "ack_entry a =
     \<lparr>qs_ts_call = ak_ts_call a, qs_ts_resp = ak_ts_resp a, qs_resp = ak_resp a\<rparr>"

lemma ack_entry_sel [simp]:
  "qs_ts_call (ack_entry a) = ak_ts_call a" "qs_ts_resp (ack_entry a) = ak_ts_resp a"
  "qs_resp (ack_entry a) = ak_resp a"
  by (simp_all add: ack_entry_def)

definition updates_key :: "string \<Rightarrow> ack \<Rightarrow> bool" where
  "updates_key k a = (map_option fst (update_info (ak_call a)) = Some k)"

definition ack_span :: "ack \<Rightarrow> UpdateSpan" where
  "ack_span a =
     \<lparr>us_ts_call = ak_ts_call a, us_ts_resp = ak_ts_resp a,
      us_value = (case update_info (ak_call a) of None \<Rightarrow> None | Some (_, v) \<Rightarrow> v)\<rparr>"

lemma ack_span_sel [simp]:
  "us_ts_call (ack_span a) = ak_ts_call a" "us_ts_resp (ack_span a) = ak_ts_resp a"
  by (simp_all add: ack_span_def)

definition full_spans :: "string \<Rightarrow> nat \<Rightarrow> ack list \<Rightarrow> UpdateSpan list" where
  "full_spans k c as =
     dummy_span # map ack_span (filter (\<lambda>a. ak_cidx a = c \<and> updates_key k a) as)"

definition full_history :: "nat \<Rightarrow> string list \<Rightarrow> ack list \<Rightarrow> (string \<times> key_spans) list" where
  "full_history n pool as = map (\<lambda>k. (k, map (\<lambda>c. full_spans k c as) [0..<n])) pool"

text \<open>The check of one acknowledged operation over the complete history.\<close>

definition offline_check :: "nat \<Rightarrow> string list \<Rightarrow> ack list \<Rightarrow> ack \<Rightarrow> bool" where
  "offline_check n pool as a = check_call (full_history n pool as) (ack_entry a)"

text \<open>
  The frontier: the least, over the clients, of the response time of the last acknowledged update.
\<close>

definition last_update :: "nat \<Rightarrow> ack list \<Rightarrow> u64" where
  "last_update c as =
     fold (\<lambda>a t. if ak_cidx a = c \<and> update_info (ak_call a) \<noteq> None then ak_ts_resp a else t) as 0"

definition frontier :: "nat \<Rightarrow> ack list \<Rightarrow> u64" where
  "frontier n as =
     (case iter_min (map (\<lambda>c. last_update c as) [0..<n]) of None \<Rightarrow> 0 | Some t \<Rightarrow> t)"

text \<open>
  Well-formed runs: operations are acknowledged one at a time, in the order of their response time;
  every operation ends after it began; a client begins an operation only after its previous one
  ended; clients and updated keys are known.
\<close>

definition ack_ok :: "nat \<Rightarrow> string list \<Rightarrow> ack \<Rightarrow> bool" where
  "ack_ok n pool a =
     (0 < ak_ts_call a \<and> ak_ts_call a < ak_ts_resp a \<and> ak_cidx a < n \<and>
      (case update_info (ak_call a) of None \<Rightarrow> True | Some (k, _) \<Rightarrow> k \<in> set pool))"

definition wf_acks :: "nat \<Rightarrow> string list \<Rightarrow> ack list \<Rightarrow> bool" where
  "wf_acks n pool as =
     (list_all (ack_ok n pool) as \<and>
      sorted_wrt (\<lambda>a b. ak_ts_resp a < ak_ts_resp b) as \<and>
      sorted_wrt (\<lambda>a b. ak_cidx a = ak_cidx b \<longrightarrow> ak_ts_resp a < ak_ts_call b) as)"

text \<open>The keys of a new history, in the order in which they were added.\<close>

definition key_pool :: "nat \<Rightarrow> string list list \<Rightarrow> string list" where
  "key_pool n keys = map fst (spans (history_new n keys))"

section \<open>Frontier and spans under a new operation\<close>

lemma last_update_snoc [simp]:
  "last_update c (as @ [a]) =
     (if ak_cidx a = c \<and> update_info (ak_call a) \<noteq> None then ak_ts_resp a else last_update c as)"
  by (auto simp: last_update_def)

lemma full_spans_snoc:
  "full_spans k c (as @ [a]) =
     full_spans k c as @ (if ak_cidx a = c \<and> updates_key k a then [ack_span a] else [])"
  by (simp add: full_spans_def)

lemma frontier_eq: "0 < n \<Longrightarrow> frontier n as = Min ((\<lambda>c. last_update c as) ` {0..<n})"
  by (simp add: frontier_def iter_min_Min)

lemma frontier_le: "c < n \<Longrightarrow> frontier n as \<le> last_update c as"
  by (subst frontier_eq) auto

lemma le_frontier: "0 < n \<Longrightarrow> (\<And>c. c < n \<Longrightarrow> t \<le> last_update c as) \<Longrightarrow> t \<le> frontier n as"
  by (simp add: frontier_eq)

lemma last_update_before:
  assumes "wf_acks n pool (as @ [a])"
  shows "last_update c as < ak_ts_resp a"
    and "ak_cidx a = c \<Longrightarrow> last_update c as < ak_ts_call a"
proof -
  have "last_update c as < ak_ts_resp a \<and> (ak_cidx a = c \<longrightarrow> last_update c as < ak_ts_call a)"
    using assms
  proof (induction as rule: rev_induct)
    case Nil
    then show ?case
      by (auto simp: last_update_def wf_acks_def ack_ok_def intro: less_trans)
  next
    case (snoc b as)
    have "wf_acks n pool (as @ [a])"
      using snoc.prems by (auto simp: wf_acks_def sorted_wrt_append)
    with snoc show ?case by (auto simp: wf_acks_def sorted_wrt_append)
  qed
  then show "last_update c as < ak_ts_resp a"
    "ak_cidx a = c \<Longrightarrow> last_update c as < ak_ts_call a" by auto
qed

lemma wf_acks_prefix: "wf_acks n pool (as @ bs) \<Longrightarrow> wf_acks n pool as"
  by (auto simp: wf_acks_def sorted_wrt_append)

lemma frontier_mono:
  assumes "wf_acks n pool (as @ [a])"
  shows "frontier n as \<le> frontier n (as @ [a])"
proof (cases n)
  case 0
  then show ?thesis by (simp add: frontier_def)
next
  case (Suc m)
  show ?thesis
  proof (rule le_frontier)
    fix c assume "c < n"
    then have "frontier n as \<le> last_update c as" by (rule frontier_le)
    also have "\<dots> \<le> last_update c (as @ [a])"
      using last_update_before(1) [OF assms] by (auto intro: less_imp_le)
    finally show "frontier n as \<le> last_update c (as @ [a])" .
  qed (simp add: Suc)
qed

lemma frontier_before:
  assumes "wf_acks n pool (as @ [a])"
  shows "frontier n as < ak_ts_call a" and "frontier n as < ak_ts_resp a"
proof -
  from assms have c: "ak_cidx a < n" and t: "ak_ts_call a < ak_ts_resp a"
    by (auto simp: wf_acks_def ack_ok_def)
  from frontier_le [OF c, of as] last_update_before(2) [OF assms refl]
  show "frontier n as < ak_ts_call a" by (rule le_less_trans)
  with t show "frontier n as < ak_ts_resp a" by (rule less_trans [rotated])
qed

section \<open>Trimming keeps a barrier\<close>

definition span_chain :: "UpdateSpan list \<Rightarrow> bool" where
  "span_chain cli =
     (sorted_wrt (\<lambda>s t. us_ts_resp s < us_ts_call t) cli \<and>
      list_all (\<lambda>s. us_ts_call s \<le> us_ts_resp s) cli)"

lemma full_spans_chain:
  assumes "wf_acks n pool as"
  shows "span_chain (full_spans k c as)"
proof -
  let ?us = "filter (\<lambda>a. ak_cidx a = c \<and> updates_key k a) as"
  have ok: "\<forall>a \<in> set ?us. 0 < ak_ts_call a \<and> ak_ts_call a < ak_ts_resp a"
    using assms by (auto simp: wf_acks_def ack_ok_def list_all_iff)
  have "sorted_wrt (\<lambda>a b. ak_cidx a = ak_cidx b \<longrightarrow> ak_ts_resp a < ak_ts_call b) ?us"
    using assms by (simp add: wf_acks_def sorted_wrt_filter)
  then have "sorted_wrt (\<lambda>a b. ak_ts_resp a < ak_ts_call b) ?us"
    by (rule sorted_wrt_mono_rel [rotated]) auto
  with ok show ?thesis
    by (auto simp: span_chain_def full_spans_def sorted_wrt_map dummy_span_def ack_span_def
        list_all_iff intro: less_imp_le)
qed

lemma keep_loop_cases:
  "(keep_loop mc mq (rev cli) = 0) \<or>
   (\<exists>pre t post. cli = pre @ t # post \<and> us_ts_resp t < mc \<and> us_ts_resp t < mq \<and>
      keep_loop mc mq (rev cli) = us_ts_call t)"
proof (induction cli rule: rev_induct)
  case (snoc x xs)
  then show ?case
  proof (cases "us_ts_resp x < mc \<and> us_ts_resp x < mq")
    case False
    then have step: "keep_loop mc mq (rev (xs @ [x])) = keep_loop mc mq (rev xs)" by auto
    from snoc.IH show ?thesis
    proof
      assume "keep_loop mc mq (rev xs) = 0"
      with step show ?thesis by simp
    next
      assume "\<exists>pre t post. xs = pre @ t # post \<and> us_ts_resp t < mc \<and> us_ts_resp t < mq \<and>
        keep_loop mc mq (rev xs) = us_ts_call t"
      then obtain pre t post where "xs @ [x] = pre @ t # (post @ [x])"
        "us_ts_resp t < mc" "us_ts_resp t < mq" "keep_loop mc mq (rev xs) = us_ts_call t" by auto
      with step show ?thesis by metis
    qed
  next
    case True
    then show ?thesis by auto
  qed
qed simp

lemma pop_front_while_zero: "pop_front_while 0 cli = cli"
  by (induction "0 :: u64" cli rule: pop_front_while.induct) auto

lemma pop_front_while_barrier:
  "\<forall>s \<in> set pre. us_ts_resp s < us_ts_call t \<Longrightarrow> us_ts_call t \<le> us_ts_resp t \<Longrightarrow>
     pop_front_while (us_ts_call t) (pre @ t # post) = t # post"
proof (induction pre)
  case Nil
  then show ?case by (cases post) auto
next
  case (Cons s pre)
  then show ?case by (cases pre) auto
qed

lemma trim_client_spec:
  assumes "span_chain cli" and "cli \<noteq> []"
  shows "\<exists>d. cli = d @ trim_client mc mq cli \<and> trim_client mc mq cli \<noteq> [] \<and>
     (d \<noteq> [] \<longrightarrow> us_ts_resp (hd (trim_client mc mq cli)) < mc \<and>
                 us_ts_resp (hd (trim_client mc mq cli)) < mq)"
  using keep_loop_cases [of mc mq cli]
proof
  assume "keep_loop mc mq (rev cli) = 0"
  with assms(2) show ?thesis by (simp add: trim_client_def pop_front_while_zero)
next
  assume "\<exists>pre t post. cli = pre @ t # post \<and> us_ts_resp t < mc \<and> us_ts_resp t < mq \<and>
      keep_loop mc mq (rev cli) = us_ts_call t"
  then obtain pre t post where cli: "cli = pre @ t # post"
    and t: "us_ts_resp t < mc" "us_ts_resp t < mq"
    and k: "keep_loop mc mq (rev cli) = us_ts_call t" by blast
  from assms(1) have "\<forall>s \<in> set pre. us_ts_resp s < us_ts_call t" "us_ts_call t \<le> us_ts_resp t"
    by (auto simp: span_chain_def cli sorted_wrt_append)
  then have "trim_client mc mq cli = t # post"
    unfolding trim_client_def k by (simp add: cli pop_front_while_barrier)
  with t show ?thesis by (auto simp: cli)
qed

section \<open>Checks that see the same decide the same\<close>

definition same_sight :: "QueuedSpan \<Rightarrow> UpdateSpan list \<Rightarrow> UpdateSpan list \<Rightarrow> bool" where
  "same_sight e a b =
     (\<forall>P. cli_sees P (qs_ts_call e) (qs_ts_resp e) a = cli_sees P (qs_ts_call e) (qs_ts_resp e) b)"

definition client_table ::
  "nat \<Rightarrow> string list \<Rightarrow> (string \<Rightarrow> nat \<Rightarrow> UpdateSpan list) \<Rightarrow> (string \<times> key_spans) list" where
  "client_table n pool f = map (\<lambda>k. (k, map (f k) [0..<n])) pool"

lemma full_history_table: "full_history n pool as = client_table n pool (\<lambda>k c. full_spans k c as)"
  by (simp add: full_history_def client_table_def)

lemma map_of_client_table:
  "map_of (client_table n pool f) k = (if k \<in> set pool then Some (map (f k) [0..<n]) else None)"
  by (induction pool) (auto simp: client_table_def)

lemma keys_client_table [simp]: "map fst (client_table n pool f) = pool"
  by (simp add: client_table_def comp_def)

lemma check_call_cong:
  assumes "\<And>k c. k \<in> set pool \<Longrightarrow> c < n \<Longrightarrow> same_sight e (f k c) (g k c)"
  shows "check_call (client_table n pool f) e = check_call (client_table n pool g) e"
proof -
  let ?tc = "qs_ts_call e" and ?tr = "qs_ts_resp e"
  have rows: "list_all2 (\<lambda>a b. \<forall>P. cli_sees P ?tc ?tr a = cli_sees P ?tc ?tr b)
      (map (f k) [0..<n]) (map (g k) [0..<n])" if "k \<in> set pool" for k
    using assms [OF that]
    by (auto simp: list_all2_conv_all_nth same_sight_def)
  note eqs = put.chk_cong [OF rows] swap.chk_cong [OF rows] get.chk_cong [OF rows]
    delete.chk_cong [OF rows]
  have "check_scan (client_table n pool f) ?tc ?tr a b es
      = check_scan (client_table n pool g) ?tc ?tr a b es" for a b es
    by (auto simp: check_scan_def client_table_def list_all_iff eqs split: option.splits)
  then show ?thesis
    by (simp add: check_call_def map_of_client_table eqs split: KvResp.splits)
qed

lemma same_sight_drop:
  "kept \<noteq> [] \<Longrightarrow> (dropped \<noteq> [] \<longrightarrow> us_ts_resp (hd kept) < qs_ts_call e) \<Longrightarrow>
     same_sight e kept (dropped @ kept)"
  by (cases "dropped = []") (simp_all add: same_sight_def cli_sees_drop)

section \<open>The verdict on a decided operation never changes\<close>

lemma decided_stable_snoc:
  assumes "wf_acks n pool (as @ [b])" and "a \<in> set as" and "ak_ts_resp a < frontier n as"
  shows "offline_check n pool (as @ [b]) a = offline_check n pool as a"
proof -
  have a: "ak_ts_call a < ak_ts_resp a" and b: "ak_ts_call b < ak_ts_resp b"
    using assms(1,2) by (auto simp: wf_acks_def ack_ok_def list_all_iff)
  from assms(3) frontier_before(1) [OF assms(1)] have ab: "ak_ts_resp a < ak_ts_call b"
    by (rule less_trans)
  have "same_sight (ack_entry a) (full_spans k c (as @ [b])) (full_spans k c as)" for k c
    unfolding same_sight_def full_spans_snoc
    using a b ab by (auto simp: ack_entry_def ack_span_def intro!: cli_sees_append)
  then show ?thesis
    by (simp add: offline_check_def full_history_table check_call_cong)
qed

lemma decided_stable:
  assumes "wf_acks n pool (as @ bs)" and "a \<in> set as" and "ak_ts_resp a < frontier n as"
  shows "offline_check n pool (as @ bs) a = offline_check n pool as a \<and>
           ak_ts_resp a < frontier n (as @ bs)"
  using assms(1)
proof (induction bs rule: rev_induct)
  case (snoc b bs)
  then have wf: "wf_acks n pool ((as @ bs) @ [b])" by simp
  with snoc.IH have IH: "offline_check n pool (as @ bs) a = offline_check n pool as a"
      "ak_ts_resp a < frontier n (as @ bs)"
    using wf_acks_prefix [OF wf] by auto
  from decided_stable_snoc [OF wf _ IH(2)] assms(2) IH frontier_mono [OF wf]
  show ?case by auto
qed (use assms in simp)

section \<open>The invariant\<close>

text \<open>
  The spans kept of one client's complete history: a non-empty suffix, which starts, if something
  was dropped, with a span that ended before the frontier and before every queued operation began.
\<close>

definition row_ok :: "u64 \<Rightarrow> QueuedSpan list \<Rightarrow> UpdateSpan list \<Rightarrow> UpdateSpan list \<Rightarrow> bool" where
  "row_ok fr q full kept \<longleftrightarrow>
     (\<exists>d. full = d @ kept \<and> kept \<noteq> [] \<and>
        (d \<noteq> [] \<longrightarrow> us_ts_resp (hd kept) < fr \<and> (\<forall>e \<in> set q. us_ts_resp (hd kept) < qs_ts_call e)))"

definition open_entries :: "nat \<Rightarrow> u64 \<Rightarrow> ack list \<Rightarrow> QueuedSpan list" where
  "open_entries n fr as = filter (\<lambda>e. fr \<le> qs_ts_resp e) (map ack_entry as)"

definition hist_inv :: "nat \<Rightarrow> string list \<Rightarrow> ack list \<Rightarrow> History \<Rightarrow> bool" where
  "hist_inv n pool as h \<longleftrightarrow>
     maxtr h = map (\<lambda>c. last_update c as) [0..<n] \<and>
     queue h = open_entries n (frontier n as) as \<and>
     (\<exists>kept. spans h = client_table n pool kept \<and>
        (\<forall>k \<in> set pool. \<forall>c < n. row_ok (frontier n as) (queue h) (full_spans k c as) (kept k c)))"

lemma same_sight_refl [simp]: "same_sight e a a"
  by (simp add: same_sight_def)

lemma row_ok_sight:
  "row_ok fr q full kept \<Longrightarrow> e \<in> set q \<Longrightarrow> same_sight e kept full"
  by (auto simp: row_ok_def same_sight_drop)

lemma row_ok_full: "full \<noteq> [] \<Longrightarrow> row_ok fr q full full"
  by (auto simp: row_ok_def)

lemma row_ok_append: "row_ok fr q full kept \<Longrightarrow> row_ok fr q (full @ xs) (kept @ xs)"
  by (auto simp: row_ok_def)

lemma row_ok_mono:
  "row_ok fr q full kept \<Longrightarrow> fr \<le> fr' \<Longrightarrow> set q' \<subseteq> set q \<Longrightarrow> row_ok fr' q' full kept"
  unfolding row_ok_def by (auto intro: less_le_trans)

lemma row_ok_enqueue:
  "row_ok fr q full kept \<Longrightarrow> fr < qs_ts_call e \<Longrightarrow> row_ok fr (q @ [e]) full kept"
  unfolding row_ok_def by (auto intro: less_trans)

lemma row_ok_trim:
  assumes r: "row_ok fr q full kept" and chain: "span_chain full"
    and fr: "fr \<le> mc" and mq: "\<And>e. e \<in> set q \<Longrightarrow> mq \<le> qs_ts_call e"
  shows "row_ok mc q full (trim_client mc mq kept)"
proof -
  from r obtain d where d: "full = d @ kept" "kept \<noteq> []"
    and b: "d \<noteq> [] \<longrightarrow> us_ts_resp (hd kept) < fr \<and> (\<forall>e \<in> set q. us_ts_resp (hd kept) < qs_ts_call e)"
    by (auto simp: row_ok_def)
  from chain d have "span_chain kept" by (simp add: span_chain_def sorted_wrt_append)
  from trim_client_spec [OF this d(2), of mc mq] obtain d' where
    d': "kept = d' @ trim_client mc mq kept" "trim_client mc mq kept \<noteq> []"
    and b': "d' \<noteq> [] \<longrightarrow> us_ts_resp (hd (trim_client mc mq kept)) < mc \<and>
                 us_ts_resp (hd (trim_client mc mq kept)) < mq" by blast
  show ?thesis
  proof (cases "d' = []")
    case True
    with d' have "trim_client mc mq kept = kept" by simp
    with row_ok_mono [OF r fr] show ?thesis by simp
  next
    case False
    have "full = (d @ d') @ trim_client mc mq kept" using d d' by simp
    with False b' d'(2) mq show ?thesis
      unfolding row_ok_def by (auto intro: less_le_trans)
  qed
qed

lemma spans_add_keys:
  "fold (add_key n) ks (client_table n pool (\<lambda>_ _. [dummy_span]))
     = client_table n (fold (\<lambda>k p. if k \<in> set p then p else p @ [k]) ks pool) (\<lambda>_ _. [dummy_span])"
proof (induction ks arbitrary: pool)
  case (Cons k ks)
  have "add_key n k (client_table n pool (\<lambda>_ _. [dummy_span]))
      = client_table n (if k \<in> set pool then pool else pool @ [k]) (\<lambda>_ _. [dummy_span])"
    by (simp add: add_key_def map_of_client_table, simp add: client_table_def map_replicate_const)
  with Cons.IH show ?case by simp
qed simp

lemma fold_keys_props:
  "distinct p \<Longrightarrow> distinct (fold (\<lambda>k p. if k \<in> set p then p else p @ [k]) ks p) \<and>
     set (fold (\<lambda>k p. if k \<in> set p then p else p @ [k]) ks p) = set p \<union> set ks"
  by (induction ks arbitrary: p) auto

lemma spans_history_new:
  "\<exists>pool. spans (history_new n keys) = client_table n pool (\<lambda>_ _. [dummy_span]) \<and>
     distinct pool \<and> set pool = \<Union> (set ` set keys)"
proof -
  have "\<exists>pool'. fold (\<lambda>cli_keys m. fold (add_key n) cli_keys m) keys
          (client_table n pool (\<lambda>_ _. [dummy_span])) = client_table n pool' (\<lambda>_ _. [dummy_span]) \<and>
      distinct pool' \<and> set pool' = set pool \<union> \<Union> (set ` set keys)" if "distinct pool" for pool
    using that
  proof (induction keys arbitrary: pool)
    case (Cons ks keys)
    from fold_keys_props [OF Cons.prems, of ks] Cons.IH show ?case
      by (fastforce simp: spans_add_keys)
  qed auto
  from this [of "[]"] show ?thesis by (simp add: history_new_def client_table_def)
qed

lemma key_pool_props:
  "spans (history_new n keys) = client_table n (key_pool n keys) (\<lambda>_ _. [dummy_span])"
  "distinct (key_pool n keys)" "set (key_pool n keys) = \<Union> (set ` set keys)"
proof -
  obtain pool where p: "spans (history_new n keys) = client_table n pool (\<lambda>_ _. [dummy_span])"
    "distinct pool" "set pool = \<Union> (set ` set keys)"
    using spans_history_new [of n keys] by blast
  then have "key_pool n keys = pool" by (simp add: key_pool_def)
  with p show "spans (history_new n keys) = client_table n (key_pool n keys) (\<lambda>_ _. [dummy_span])"
    "distinct (key_pool n keys)" "set (key_pool n keys) = \<Union> (set ` set keys)" by simp_all
qed

lemma hist_inv_new: "hist_inv n (key_pool n keys) [] (history_new n keys)"
proof -
  have "maxtr (history_new n keys) = map (\<lambda>c. last_update c []) [0..<n]"
    "queue (history_new n keys) = []"
    by (simp_all add: history_new_def last_update_def map_replicate_const)
  moreover have "row_ok fr q (full_spans k c []) [dummy_span]" for fr q k c
    using row_ok_full [of "[dummy_span]"] by (simp add: full_spans_def)
  ultimately show ?thesis
    unfolding hist_inv_def using key_pool_props(1) [of n keys]
    by (auto simp: open_entries_def)
qed

section \<open>Popping the decidable responses\<close>

lemma pop_checks_spec:
  "(\<exists>e \<in> set (queue h). qs_ts_resp e < mc \<and> \<not> check_call (spans h) e \<and>
      fst (pop_checks mc h) = Some (Some (qs_resp e))) \<or>
   ((\<forall>e \<in> set (takeWhile (\<lambda>e. qs_ts_resp e < mc) (queue h)). check_call (spans h) e) \<and>
    pop_checks mc h = (None, h\<lparr>queue := dropWhile (\<lambda>e. qs_ts_resp e < mc) (queue h)\<rparr>))"
proof (induction mc h rule: pop_checks.induct)
  case (1 mc h)
  show ?case
  proof (cases "queue h")
    case Nil
    then have "h\<lparr>queue := []\<rparr> = h" by (cases h) simp
    with Nil show ?thesis by (subst (1 2) pop_checks.simps) simp
  next
    case (Cons e q)
    then have same: "h\<lparr>queue := e # q\<rparr> = h" by (cases h) simp
    show ?thesis
    proof (cases "qs_ts_resp e < mc \<and> check_call (spans h) e")
      case False
      with Cons same show ?thesis
        by (subst (1 2) pop_checks.simps) auto
    next
      case True
      have step: "pop_checks mc h = pop_checks mc (h\<lparr>queue := q\<rparr>)"
        using Cons True by (subst pop_checks.simps) simp
      from "1.IH" [OF Cons] True show ?thesis
        unfolding step by (simp add: Cons)
    qed
  qed
qed

lemma sorted_dropWhile_filter:
  "sorted_wrt (\<lambda>a b. f a < (f b :: 'b :: linorder)) xs \<Longrightarrow>
     dropWhile (\<lambda>x. f x < m) xs = filter (\<lambda>x. m \<le> f x) xs \<and>
     set (takeWhile (\<lambda>x. f x < m) xs) = {x \<in> set xs. f x < m}"
proof (induction xs)
  case (Cons x xs)
  then show ?case
  proof (cases "f x < m")
    case False
    with Cons.prems have "\<forall>y \<in> set xs. m \<le> f y" by (auto simp: not_less)
    with False show ?thesis by (auto simp: not_less filter_id_conv)
  qed auto
qed simp

section \<open>One acknowledged operation\<close>

lemma queue_sorted:
  "wf_acks n pool as \<Longrightarrow> sorted_wrt (\<lambda>a b. qs_ts_resp a < qs_ts_resp b) (map ack_entry as)"
  by (simp add: wf_acks_def sorted_wrt_map ack_entry_def)

lemma open_entries_snoc:
  assumes "wf_acks n pool (as @ [a])"
  shows "open_entries n (frontier n as) (as @ [a]) = open_entries n (frontier n as) as @ [ack_entry a]"
  using frontier_before(2) [OF assms] by (simp add: open_entries_def ack_entry_def)

lemma queue_snoc:
  assumes "wf_acks n pool (as @ [a])" and "queue h = open_entries n (frontier n as) as"
  shows "add_to_queue dbg h (ak_ts_call a) (ak_ts_resp a) (ak_resp a)
           = Ok (h\<lparr>queue := open_entries n (frontier n as) (as @ [a])\<rparr>)"
proof -
  have "ak_ts_call a < ak_ts_resp a"
    using assms(1) by (simp add: wf_acks_def ack_ok_def)
  moreover have "qs_ts_resp (last (queue h)) < ak_ts_resp a" if "queue h \<noteq> []"
  proof -
    from last_in_set [OF that] assms(2) obtain b where "b \<in> set as" "last (queue h) = ack_entry b"
      by (auto simp: open_entries_def)
    with assms(1) show ?thesis by (auto simp: wf_acks_def sorted_wrt_append ack_entry_def)
  qed
  ultimately show ?thesis
    unfolding open_entries_snoc [OF assms(1)] assms(2) [symmetric]
    by (cases "queue h = []") (simp_all add: add_to_queue_def ack_entry_def)
qed

lemma frontier_read_only:
  "update_info (ak_call a) = None \<Longrightarrow> frontier n (as @ [a]) = frontier n as"
  by (simp add: frontier_def)

lemma record_ack_read_only:
  assumes wf: "wf_acks n pool (as @ [a])" and inv: "hist_inv n pool as h"
    and ro: "update_info (ak_call a) = None"
  shows "\<exists>h'. record_ack dbg h a = Ok (None, h') \<and> hist_inv n pool (as @ [a]) h'"
proof -
  let ?q = "open_entries n (frontier n as) (as @ [a])"
  from inv obtain kept where m: "maxtr h = map (\<lambda>c. last_update c as) [0..<n]"
    and q: "queue h = open_entries n (frontier n as) as"
    and sp: "spans h = client_table n pool kept"
    and k: "\<And>k c. k \<in> set pool \<Longrightarrow> c < n \<Longrightarrow>
        row_ok (frontier n as) (queue h) (full_spans k c as) (kept k c)"
    by (auto simp: hist_inv_def)
  have full: "full_spans k c (as @ [a]) = full_spans k c as" for k c
    using ro by (simp add: full_spans_snoc updates_key_def)
  have e: "frontier n as < qs_ts_call (ack_entry a)"
    using frontier_before(1) [OF wf] by (simp add: ack_entry_def)
  have "hist_inv n pool (as @ [a]) (h\<lparr>queue := ?q\<rparr>)"
    unfolding hist_inv_def frontier_read_only [OF ro] full
    using m sp ro k row_ok_enqueue [OF _ e]
    by (auto simp: open_entries_snoc [OF wf] q intro!: exI [of _ kept])
  then show ?thesis by (simp add: record_ack_def queue_snoc [OF wf q] ro)
qed

lemma update_client_table:
  "k0 \<in> set pool \<Longrightarrow> distinct pool \<Longrightarrow>
     AList.update k0 (map g [0..<n]) (client_table n pool f) = client_table n pool (f(k0 := g))"
  by (induction pool) (auto simp: client_table_def)

lemma list_update_map_upt:
  "c < n \<Longrightarrow> (map f [0..<n])[c := x] = map (f(c := x)) [0..<n]"
  by (rule nth_equalityI) (auto simp: nth_list_update)

lemma iter_min_le:
  assumes "x \<in> set xs"
  shows "(case iter_min xs of None \<Rightarrow> d | Some t \<Rightarrow> t) \<le> (x :: 'a :: linorder)"
proof -
  from assms have "xs \<noteq> []" by auto
  with assms show ?thesis by (simp add: iter_min_Min)
qed

lemma frontier_Some:
  assumes "0 < n"
  shows "iter_min (map (\<lambda>c. last_update c as) [0..<n]) = Some (frontier n as)"
  using assms by (simp add: frontier_def iter_min_Min)

lemma full_spans_before:
  assumes "wf_acks n pool (as @ [a])" and "updates_key k a" and "s \<in> set (full_spans k (ak_cidx a) as)"
  shows "us_ts_resp s < ak_ts_call a"
  using full_spans_chain [OF assms(1), of k "ak_cidx a"] assms(2,3)
  by (auto simp: span_chain_def full_spans_snoc sorted_wrt_append ack_span_def)

lemma apply_update_step:
  fixes n pool as a h
  defines "q \<equiv> open_entries n (frontier n as) (as @ [a])"
    and "mq \<equiv> (case iter_min (map qs_ts_call (open_entries n (frontier n as) (as @ [a]))) of
                 None \<Rightarrow> u64_MAX | Some t \<Rightarrow> t)"
  assumes wf: "wf_acks n pool (as @ [a])" and d: "distinct pool"
    and up: "update_info (ak_call a) = Some (k0, v)"
    and m: "maxtr h = map (\<lambda>c. last_update c as) [0..<n]"
    and qh: "queue h = q"
    and sp: "spans h = client_table n pool kept"
    and k: "\<And>k c. k \<in> set pool \<Longrightarrow> c < n \<Longrightarrow> row_ok (frontier n as) q (full_spans k c as) (kept k c)"
  shows "\<exists>kept'. apply_update dbg h (ak_cidx a) (ak_ts_call a) (ak_ts_resp a) k0 v
      = Ok (pop_checks (frontier n (as @ [a]))
          (h\<lparr>spans := client_table n pool kept',
             maxtr := map (\<lambda>c. last_update c (as @ [a])) [0..<n]\<rparr>)) \<and>
      (\<forall>k \<in> set pool. \<forall>c < n. row_ok (frontier n (as @ [a])) q (full_spans k c (as @ [a])) (kept' k c))"
proof -
  let ?c = "ak_cidx a"
  from wf up have c: "?c < n" and k0: "k0 \<in> set pool"
    by (auto simp: wf_acks_def ack_ok_def)
  have uk: "updates_key k a \<longleftrightarrow> k = k0" for k using up by (auto simp: updates_key_def)
  have span: "\<lparr>us_ts_call = ak_ts_call a, us_ts_resp = ak_ts_resp a, us_value = v\<rparr> = ack_span a"
    by (simp add: ack_span_def up)
  have ne: "kept k0 ?c \<noteq> []" and last: "last (kept k0 ?c) \<in> set (full_spans k0 ?c as)"
    using k [OF k0 c] by (auto simp: row_ok_def)
  then have before: "us_ts_resp (last (kept k0 ?c)) < ak_ts_call a"
    using full_spans_before [OF wf, of k0] uk by blast
  have ks1: "(map (kept k0) [0..<n])[?c := kept k0 ?c @ [ack_span a]]
      = map (\<lambda>c. kept k0 c @ (if c = ?c then [ack_span a] else [])) [0..<n]"
    unfolding list_update_map_upt [OF c] by auto
  have mx: "(map (\<lambda>c. last_update c as) [0..<n])[?c := ak_ts_resp a]
      = map (\<lambda>c. last_update c (as @ [a])) [0..<n]"
    unfolding list_update_map_upt [OF c] using up by auto
  define kept' where "kept' = kept(k0 := \<lambda>c. trim_client (frontier n (as @ [a])) mq
              (kept k0 c @ (if c = ak_cidx a then [ack_span a] else [])))"
  have "apply_update dbg h (ak_cidx a) (ak_ts_call a) (ak_ts_resp a) k0 v
      = Ok (pop_checks (frontier n (as @ [a]))
          (h\<lparr>spans := client_table n pool kept',
             maxtr := map (\<lambda>c. last_update c (as @ [a])) [0..<n]\<rparr>))"
    using c k0 before
    by (simp add: apply_update_def sp map_of_client_table m span ks1 mx Let_def frontier_Some comp_def
        update_client_table [OF k0 d] qh kept'_def mq_def q_def del: last_update_snoc)
  moreover have "row_ok (frontier n (as @ [a])) q (full_spans k c (as @ [a])) (kept' k c)"
    if kc: "k \<in> set pool" "c < n" for k c
  proof (cases "k = k0")
    case True
    have "row_ok (frontier n as) q (full_spans k0 c (as @ [a]))
        (kept k0 c @ (if c = ?c then [ack_span a] else []))"
      using row_ok_append [OF k [OF k0 kc(2)], of "[ack_span a]"] k [OF k0 kc(2)]
      by (cases "c = ?c") (simp_all add: full_spans_snoc uk)
    moreover have "mq \<le> qs_ts_call e" if "e \<in> set q" for e
      using that unfolding mq_def q_def by (auto intro: iter_min_le)
    ultimately show ?thesis
      using row_ok_trim [OF _ full_spans_chain [OF wf] frontier_mono [OF wf]] True
      by (simp add: kept'_def)
  next
    case False
    with row_ok_mono [OF k [OF kc] frontier_mono [OF wf]] uk show ?thesis
      by (simp add: full_spans_snoc kept'_def)
  qed
  ultimately show ?thesis by blast
qed

lemma set_open_entries: "set (open_entries n fr as) = ack_entry ` {b \<in> set as. fr \<le> ak_ts_resp b}"
  by (auto simp: open_entries_def)

lemma pop_checks_decides:
  assumes wf: "wf_acks n pool as" and q: "queue h = open_entries n fr as" and fr: "fr \<le> fr'"
    and chk: "\<And>b. ack_entry b \<in> set (queue h) \<Longrightarrow>
        check_call (spans h) (ack_entry b) = offline_check n pool as b"
  shows "(\<exists>b \<in> set as. fst (pop_checks fr' h) = Some (Some (ak_resp b)) \<and> ak_ts_resp b < fr' \<and>
            \<not> offline_check n pool as b) \<or>
         (pop_checks fr' h = (None, h\<lparr>queue := open_entries n fr' as\<rparr>) \<and>
          (\<forall>b \<in> set as. fr \<le> ak_ts_resp b \<longrightarrow> ak_ts_resp b < fr' \<longrightarrow> offline_check n pool as b))"
  using pop_checks_spec [of h fr']
proof
  assume "\<exists>e \<in> set (queue h). qs_ts_resp e < fr' \<and> \<not> check_call (spans h) e \<and>
      fst (pop_checks fr' h) = Some (Some (qs_resp e))"
  then obtain b where "b \<in> set as" "ack_entry b \<in> set (queue h)" "ak_ts_resp b < fr'"
    "\<not> check_call (spans h) (ack_entry b)" "fst (pop_checks fr' h) = Some (Some (ak_resp b))"
    unfolding q set_open_entries by auto
  with chk show ?thesis by blast
next
  assume pass: "(\<forall>e \<in> set (takeWhile (\<lambda>e. qs_ts_resp e < fr') (queue h)). check_call (spans h) e) \<and>
      pop_checks fr' h = (None, h\<lparr>queue := dropWhile (\<lambda>e. qs_ts_resp e < fr') (queue h)\<rparr>)"
  have "sorted_wrt (\<lambda>a b. qs_ts_resp a < qs_ts_resp b) (queue h)"
    unfolding q open_entries_def by (rule sorted_wrt_filter [OF queue_sorted [OF wf]])
  note dw = sorted_dropWhile_filter [OF this, of fr']
  have "filter (\<lambda>e. fr' \<le> qs_ts_resp e) (queue h) = open_entries n fr' as"
    unfolding q open_entries_def filter_filter by (rule filter_cong) (use fr in auto)
  with pass dw have "pop_checks fr' h = (None, h\<lparr>queue := open_entries n fr' as\<rparr>)" by simp
  moreover have "offline_check n pool as b"
    if "b \<in> set as" "fr \<le> ak_ts_resp b" "ak_ts_resp b < fr'" for b
  proof -
    from that(1,2) have "ack_entry b \<in> set (queue h)" by (simp add: q set_open_entries)
    with dw pass chk that(3) show ?thesis by fastforce
  qed
  ultimately show ?thesis by blast
qed

lemma record_ack_update:
  assumes wf: "wf_acks n pool (as @ [a])" and d: "distinct pool" and inv: "hist_inv n pool as h"
    and up: "update_info (ak_call a) = Some (k0, v)"
  shows "\<exists>verdict h'. record_ack dbg h a = Ok (verdict, h') \<and>
     ((verdict = None \<and> hist_inv n pool (as @ [a]) h' \<and>
       (\<forall>b \<in> set (as @ [a]). frontier n as \<le> ak_ts_resp b \<longrightarrow> ak_ts_resp b < frontier n (as @ [a]) \<longrightarrow>
          offline_check n pool (as @ [a]) b)) \<or>
      (\<exists>b \<in> set (as @ [a]). verdict = Some (Some (ak_resp b)) \<and>
         ak_ts_resp b < frontier n (as @ [a]) \<and> \<not> offline_check n pool (as @ [a]) b))"
proof -
  let ?fr = "frontier n as" and ?fr' = "frontier n (as @ [a])"
  let ?q = "open_entries n ?fr (as @ [a])"
  from inv obtain kept where m: "maxtr h = map (\<lambda>c. last_update c as) [0..<n]"
    and q: "queue h = open_entries n ?fr as"
    and sp: "spans h = client_table n pool kept"
    and k: "\<And>k c. k \<in> set pool \<Longrightarrow> c < n \<Longrightarrow> row_ok ?fr (queue h) (full_spans k c as) (kept k c)"
    by (auto simp: hist_inv_def)
  have e: "?fr < qs_ts_call (ack_entry a)"
    using frontier_before(1) [OF wf] by (simp add: ack_entry_def)
  have k1: "row_ok ?fr ?q (full_spans k c as) (kept k c)" if "k \<in> set pool" "c < n" for k c
    using row_ok_enqueue [OF k [OF that] e] by (simp add: q open_entries_snoc [OF wf])
  let ?h = "h\<lparr>queue := ?q\<rparr>"
  obtain kept' where
    app: "apply_update dbg ?h (ak_cidx a) (ak_ts_call a) (ak_ts_resp a) k0 v
      = Ok (pop_checks ?fr' (?h\<lparr>spans := client_table n pool kept',
             maxtr := map (\<lambda>c. last_update c (as @ [a])) [0..<n]\<rparr>))"
    and k2: "\<And>k c. k \<in> set pool \<Longrightarrow> c < n \<Longrightarrow> row_ok ?fr' ?q (full_spans k c (as @ [a])) (kept' k c)"
    using apply_update_step [OF wf d up, of ?h kept dbg, OF _ _ _ k1] m sp
    by (simp del: last_update_snoc) blast
  let ?h' = "?h\<lparr>spans := client_table n pool kept',
             maxtr := map (\<lambda>c. last_update c (as @ [a])) [0..<n]\<rparr>"
  have chk: "check_call (spans ?h') (ack_entry b) = offline_check n pool (as @ [a]) b"
    if "ack_entry b \<in> set ?q" for b
    unfolding offline_check_def full_history_table
    using check_call_cong [of pool n "ack_entry b" kept'] row_ok_sight [OF k2 that] by simp
  have rec: "record_ack dbg h a = Ok (pop_checks ?fr' ?h')"
    using app by (simp add: record_ack_def queue_snoc [OF wf q] up)
  have "hist_inv n pool (as @ [a]) (?h'\<lparr>queue := open_entries n ?fr' (as @ [a])\<rparr>)"
  proof -
    have "set (open_entries n ?fr' (as @ [a])) \<subseteq> set ?q"
      using frontier_mono [OF wf] by (auto simp: set_open_entries)
    from row_ok_mono [OF k2 order_refl this] show ?thesis
      unfolding hist_inv_def by (auto simp del: last_update_snoc)
  qed
  moreover obtain verdict h'' where pc: "pop_checks ?fr' ?h' = (verdict, h'')"
    by (cases "pop_checks ?fr' ?h'") auto
  ultimately show ?thesis
    using pop_checks_decides [OF wf, of ?h' ?fr ?fr', OF _ frontier_mono [OF wf]] chk rec
    unfolding pc by (auto simp del: last_update_snoc)
qed

lemma record_ack_step:
  assumes wf: "wf_acks n pool (as @ [a])" and d: "distinct pool" and inv: "hist_inv n pool as h"
    and past: "\<forall>b \<in> set as. ak_ts_resp b < frontier n as \<longrightarrow> offline_check n pool as b"
  shows "\<exists>verdict h'. record_ack dbg h a = Ok (verdict, h') \<and>
     ((verdict = None \<and> hist_inv n pool (as @ [a]) h' \<and>
       (\<forall>b \<in> set (as @ [a]). ak_ts_resp b < frontier n (as @ [a]) \<longrightarrow>
          offline_check n pool (as @ [a]) b)) \<or>
      (\<exists>b \<in> set (as @ [a]). verdict = Some (Some (ak_resp b)) \<and>
         ak_ts_resp b < frontier n (as @ [a]) \<and> \<not> offline_check n pool (as @ [a]) b))"
proof -
  have old: "offline_check n pool (as @ [a]) b"
    if "b \<in> set (as @ [a])" "ak_ts_resp b < frontier n as" for b
  proof -
    from that frontier_before(2) [OF wf] have "b \<in> set as" by auto
    with decided_stable_snoc [OF wf this that(2)] past that(2) show ?thesis by simp
  qed
  show ?thesis
  proof (cases "update_info (ak_call a)")
    case None
    with record_ack_read_only [OF wf inv None, of dbg] old frontier_read_only [OF None]
    show ?thesis by auto
  next
    case (Some u)
    obtain k0 v where "update_info (ak_call a) = Some (k0, v)" using Some by (cases u) auto
    note upd = record_ack_update [OF wf d inv this, of dbg]
    have "\<forall>b \<in> set (as @ [a]). ak_ts_resp b < frontier n (as @ [a]) \<longrightarrow>
        offline_check n pool (as @ [a]) b"
      if "\<forall>b \<in> set (as @ [a]). frontier n as \<le> ak_ts_resp b \<longrightarrow>
        ak_ts_resp b < frontier n (as @ [a]) \<longrightarrow> offline_check n pool (as @ [a]) b"
      using that old not_le by blast
    with upd show ?thesis by blast
  qed
qed

lemma replay_refines:
  assumes "wf_acks n pool (as @ bs)" and "distinct pool" and "hist_inv n pool as h"
    and "\<forall>b \<in> set as. ak_ts_resp b < frontier n as \<longrightarrow> offline_check n pool as b"
  shows "\<exists>verdict h'. replay dbg h bs = Ok (verdict, h') \<and>
     ((verdict = None \<and> hist_inv n pool (as @ bs) h' \<and>
       (\<forall>b \<in> set (as @ bs). ak_ts_resp b < frontier n (as @ bs) \<longrightarrow> offline_check n pool (as @ bs) b)) \<or>
      (\<exists>b \<in> set (as @ bs). verdict = Some (Some (ak_resp b)) \<and>
         ak_ts_resp b < frontier n (as @ bs) \<and> \<not> offline_check n pool (as @ bs) b))"
  using assms
proof (induction bs arbitrary: as h)
  case Nil
  then show ?case by simp
next
  case (Cons b bs)
  from Cons.prems(1) have wf: "wf_acks n pool ((as @ [b]) @ bs)" by simp
  from record_ack_step [OF wf_acks_prefix [OF wf] Cons.prems(2-4), of dbg]
  obtain verdict h' where r: "record_ack dbg h b = Ok (verdict, h')"
    and o: "(verdict = None \<and> hist_inv n pool (as @ [b]) h' \<and>
       (\<forall>x \<in> set (as @ [b]). ak_ts_resp x < frontier n (as @ [b]) \<longrightarrow>
          offline_check n pool (as @ [b]) x)) \<or>
      (\<exists>x \<in> set (as @ [b]). verdict = Some (Some (ak_resp x)) \<and>
         ak_ts_resp x < frontier n (as @ [b]) \<and> \<not> offline_check n pool (as @ [b]) x)" by blast
  from o show ?case
  proof
    assume "verdict = None \<and> hist_inv n pool (as @ [b]) h' \<and>
       (\<forall>x \<in> set (as @ [b]). ak_ts_resp x < frontier n (as @ [b]) \<longrightarrow>
          offline_check n pool (as @ [b]) x)"
    with Cons.IH [OF wf Cons.prems(2)] r show ?thesis by simp
  next
    assume "\<exists>x \<in> set (as @ [b]). verdict = Some (Some (ak_resp x)) \<and>
         ak_ts_resp x < frontier n (as @ [b]) \<and> \<not> offline_check n pool (as @ [b]) x"
    then obtain x where "x \<in> set (as @ [b])" "verdict = Some (Some (ak_resp x))"
      "ak_ts_resp x < frontier n (as @ [b])" "\<not> offline_check n pool (as @ [b]) x" by blast
    with decided_stable [OF wf] r show ?thesis by fastforce
  qed
qed

section \<open>Properties\<close>

text \<open>
  C1. The checker refines its reference. On every well-formed run it neither panics (not even with
  debug assertions) nor reports an unexpected key; it reports a violation iff some operation below
  the frontier fails its check over the complete untrimmed history, and the response it reports is
  one that fails there; without a violation, the queue holds exactly the operations that are not
  below the frontier.
\<close>

theorem online_refines_offline:
  assumes "wf_acks n (key_pool n keys) as"
  shows "\<exists>verdict h. replay dbg (history_new n keys) as = Ok (verdict, h) \<and>
     (verdict = None \<longleftrightarrow> (\<forall>a \<in> set as. ak_ts_resp a < frontier n as \<longrightarrow>
                            offline_check n (key_pool n keys) as a)) \<and>
     (\<forall>v. verdict = Some v \<longrightarrow> (\<exists>a \<in> set as. v = Some (ak_resp a) \<and> ak_ts_resp a < frontier n as \<and>
                            \<not> offline_check n (key_pool n keys) as a)) \<and>
     (verdict = None \<longrightarrow>
        queue h = filter (\<lambda>e. frontier n as \<le> qs_ts_resp e) (map ack_entry as))"
  using replay_refines [of n "key_pool n keys" "[]" as "history_new n keys" dbg]
    assms key_pool_props(2) [of n keys] hist_inv_new [of n keys]
  by (fastforce simp: hist_inv_def open_entries_def)

text \<open>A run of two clients: each puts a key once, and then the first one again.\<close>

definition sample_put :: "nat \<Rightarrow> string \<Rightarrow> u64 \<Rightarrow> u64 \<Rightarrow> bool \<Rightarrow> ack" where
  "sample_put c v tc tr f =
     \<lparr>ak_cidx = c, ak_call = KvCall.Put ''k'' v, ak_ts_call = tc, ak_ts_resp = tr,
      ak_resp = KvResp.Put ''k'' f\<rparr>"

definition sample_run :: "ack list" where
  "sample_run = [sample_put 0 ''a'' 1 2 False, sample_put 1 ''b'' 3 4 True, sample_put 0 ''c'' 5 6 True]"

lemma sample_pool: "key_pool 2 [[''k''], [''k'']] = [''k'']"
  by (simp add: key_pool_def history_new_def add_key_def)

lemma sample_wf: "wf_acks 2 [''k''] sample_run"
  by (simp add: wf_acks_def ack_ok_def sample_run_def sample_put_def)

theorem online_refines_offline_witness:
  "\<exists>verdict h. replay True (history_new 2 [[''k''], [''k'']]) sample_run = Ok (verdict, h) \<and>
     (verdict = None \<longleftrightarrow> (\<forall>a \<in> set sample_run. ak_ts_resp a < frontier 2 sample_run \<longrightarrow>
                            offline_check 2 [''k''] sample_run a))"
  using online_refines_offline [of 2 "[[''k''], [''k'']]" sample_run True] sample_wf
  unfolding sample_pool by blast

text \<open>
  C10. A verdict is final: once an operation is below the frontier, its check over the complete
  history has the same outcome after any well-formed continuation of the run, and the operation
  stays below the frontier.
\<close>

theorem verdict_final:
  assumes "wf_acks n pool (as @ bs)" and "a \<in> set as" and "ak_ts_resp a < frontier n as"
  shows "offline_check n pool (as @ bs) a = offline_check n pool as a \<and>
           ak_ts_resp a < frontier n (as @ bs)"
  using assms by (rule decided_stable)

theorem verdict_final_witness:
  "offline_check 2 [''k''] (sample_run @ [sample_put 1 ''d'' 7 8 True]) (sample_put 0 ''a'' 1 2 False)
     = offline_check 2 [''k''] sample_run (sample_put 0 ''a'' 1 2 False)"
proof -
  have "wf_acks 2 [''k''] (sample_run @ [sample_put 1 ''d'' 7 8 True])"
    by (simp add: wf_acks_def ack_ok_def sample_run_def sample_put_def)
  moreover have "sample_put 0 ''a'' 1 2 False \<in> set sample_run" by (simp add: sample_run_def)
  moreover have "ak_ts_resp (sample_put 0 ''a'' 1 2 False) < frontier 2 sample_run"
    by (simp add: sample_run_def sample_put_def frontier_def last_update_def upt_rec)
  ultimately show ?thesis using verdict_final by blast
qed

end
