(* ===== verification/Lineariz.thy ===== *)
theory Lineariz
  imports Offline "HOL-Library.Multiset"
begin

text \<open>
  What the fuzzer's verdict means for the store under test. A run is linearizable if its operations
  can be put in one order that respects real time (an operation that ended before another began
  comes first) and in which the sequential key-value specification gives every response. The checker
  is sound for this: a linearizable run never raises an alarm. The last part characterises what the
  per-client approximation of the checker cannot see.
\<close>

section \<open>Linearizable runs\<close>

fun legal :: "kv \<Rightarrow> ack list \<Rightarrow> bool" where
  "legal s [] = True"
| "legal s (a # as) =
     (kv_answers s (ak_call a) (ak_resp a) \<and> legal (kv_apply (ak_call a) s) as)"

definition real_time :: "ack list \<Rightarrow> bool" where
  "real_time ord = sorted_wrt (\<lambda>a b. \<not> ak_ts_resp b < ak_ts_call a) ord"

definition linearizable :: "ack list \<Rightarrow> bool" where
  "linearizable as = (\<exists>ord. mset ord = mset as \<and> real_time ord \<and> legal Map.empty ord)"

text \<open>No time stamp is used both for a call and for a response.\<close>

definition ts_distinct :: "ack list \<Rightarrow> bool" where
  "ts_distinct as = (\<forall>a \<in> set as. \<forall>b \<in> set as. ak_ts_call a \<noteq> ak_ts_resp b)"

fun call_in_pool :: "string list \<Rightarrow> KvCall \<Rightarrow> bool" where
  "call_in_pool pool (KvCall.Put k v) = (k \<in> set pool)"
| "call_in_pool pool (KvCall.Swap k v) = (k \<in> set pool)"
| "call_in_pool pool (KvCall.Get k) = (k \<in> set pool)"
| "call_in_pool pool (KvCall.Scan a b) = True"
| "call_in_pool pool (KvCall.Delete k) = (k \<in> set pool)"
| "call_in_pool pool KvCall.Stop = False"

definition kv_run :: "ack list \<Rightarrow> kv \<Rightarrow> kv" where
  "kv_run as s = fold (\<lambda>a. kv_apply (ak_call a)) as s"

section \<open>The value a linearized operation sees\<close>

lemma legal_append: "legal s (xs @ ys) \<longleftrightarrow> legal s xs \<and> legal (kv_run xs s) ys"
  by (induction xs arbitrary: s) (auto simp: kv_run_def)

lemma kv_run_key:
  "((\<forall>x \<in> set xs. \<not> updates_key k x) \<and> kv_run xs s k = s k) \<or>
   (\<exists>xs1 w xs2. xs = xs1 @ w # xs2 \<and> updates_key k w \<and> (\<forall>x \<in> set xs2. \<not> updates_key k x) \<and>
      kv_run xs s k = us_value (ack_span w))"
proof (induction xs rule: rev_induct)
  case Nil
  then show ?case by (simp add: kv_run_def)
next
  case (snoc x xs)
  have run: "kv_run (xs @ [x]) s = kv_apply (ak_call x) (kv_run xs s)" by (simp add: kv_run_def)
  show ?case
  proof (cases "updates_key k x")
    case True
    then have "kv_run (xs @ [x]) s k = us_value (ack_span x)"
      unfolding run by (auto simp: kv_apply_update_info updates_key_def ack_span_def)
    with True show ?thesis by fastforce
  next
    case False
    then have same: "kv_run (xs @ [x]) s k = kv_run xs s k"
      unfolding run by (auto simp: kv_apply_update_info updates_key_def split: option.splits)
    from snoc.IH show ?thesis
    proof
      assume "(\<forall>x \<in> set xs. \<not> updates_key k x) \<and> kv_run xs s k = s k"
      with False same show ?thesis by auto
    next
      assume "\<exists>xs1 w xs2. xs = xs1 @ w # xs2 \<and> updates_key k w \<and>
        (\<forall>x \<in> set xs2. \<not> updates_key k x) \<and> kv_run xs s k = us_value (ack_span w)"
      then obtain xs1 w xs2 where "xs = xs1 @ w # xs2" "updates_key k w"
        "\<forall>x \<in> set xs2. \<not> updates_key k x" "kv_run xs s k = us_value (ack_span w)" by blast
      with False same show ?thesis
        by (intro disjI2 exI [of _ xs1] exI [of _ w] exI [of _ "xs2 @ [x]"]) auto
    qed
  qed
qed

text \<open>Where a span of the complete history comes from, and what follows it.\<close>

lemma full_spans_split:
  assumes "a \<in> set as" and "updates_key k a"
  shows "\<exists>pre post. full_spans k (ak_cidx a) as = pre @ ack_span a # post \<and>
     (\<forall>t \<in> set post. \<exists>u ps qs. as = ps @ a # qs \<and> u \<in> set qs \<and> t = ack_span u \<and>
        ak_cidx u = ak_cidx a \<and> updates_key k u)"
proof -
  from assms(1) obtain ps qs where as: "as = ps @ a # qs" by (meson split_list)
  let ?f = "filter (\<lambda>x. ak_cidx x = ak_cidx a \<and> updates_key k x)"
  have "full_spans k (ak_cidx a) as
      = (dummy_span # map ack_span (?f ps)) @ ack_span a # map ack_span (?f qs)"
    using assms(2) by (simp add: full_spans_def as)
  with as show ?thesis by fastforce
qed

lemma real_time_before:
  assumes "real_time (xs @ a # ys)" and "u \<in> set (xs @ a # ys)" and "ak_ts_resp u < ak_ts_call a"
    and "ak_ts_call a < ak_ts_resp a"
  shows "u \<in> set xs"
  using assms by (auto simp: real_time_def sorted_wrt_append)

text \<open>An operation before which nobody has updated the key sees the initial absent value.\<close>

lemma sees_initial:
  assumes a: "0 < ak_ts_call a" "ak_ts_call a < ak_ts_resp a"
    and none: "\<And>u. u \<in> set as \<Longrightarrow> ak_ts_resp u < ak_ts_call a \<Longrightarrow> \<not> updates_key k u"
  shows "cli_sees (\<lambda>v. v = None) (ak_ts_call a) (ak_ts_resp a) (full_spans k c as)"
  unfolding cli_sees_def full_spans_def
proof (intro exI conjI ballI)
  show "dummy_span # map ack_span (filter (\<lambda>x. ak_cidx x = c \<and> updates_key k x) as)
    = [] @ dummy_span # map ack_span (filter (\<lambda>x. ak_cidx x = c \<and> updates_key k x) as)"
    by simp
  show "us_ts_call dummy_span < ak_ts_resp a"
    using less_trans [OF a] by (simp add: dummy_span_def)
qed (use none in \<open>auto simp: dummy_span_def ack_span_def\<close>)

text \<open>An operation sees an update of which no later one by the same client has ended before it.\<close>

lemma sees_update:
  assumes w: "w \<in> set as" "updates_key k w" "ak_ts_call w < ak_ts_resp a"
    and late: "\<And>u ps qs. as = ps @ w # qs \<Longrightarrow> u \<in> set qs \<Longrightarrow> ak_cidx u = ak_cidx w \<Longrightarrow>
      updates_key k u \<Longrightarrow> \<not> ak_ts_resp u < ak_ts_call a"
  shows "cli_sees (\<lambda>v. v = us_value (ack_span w)) (ak_ts_call a) (ak_ts_resp a) (full_spans k (ak_cidx w) as)"
proof -
  from full_spans_split [OF w(1,2)] obtain pre post where
    fs: "full_spans k (ak_cidx w) as = pre @ ack_span w # post"
    and ps: "\<forall>t \<in> set post. \<exists>u ps qs. as = ps @ w # qs \<and> u \<in> set qs \<and> t = ack_span u \<and>
      ak_cidx u = ak_cidx w \<and> updates_key k u" by blast
  from ps late have "\<forall>t \<in> set post. \<not> us_ts_resp t < ak_ts_call a" by (metis ack_span_sel(2))
  with fs w(3) show ?thesis unfolding cli_sees_def by (metis ack_span_sel(1))
qed

lemma lin_sees:
  assumes wf: "wf_acks n pool as" and td: "ts_distinct as"
    and ord: "mset ord = mset as" "real_time ord" and o: "ord = xs @ a # ys"
  shows "\<exists>c < n. cli_sees (\<lambda>v. v = kv_run xs Map.empty k) (ak_ts_call a) (ak_ts_resp a)
           (full_spans k c as)"
proof -
  have set: "set as = set ord" using ord(1) by (metis set_mset_mset)
  then have a: "a \<in> set as" by (simp add: o)
  with wf have ta: "0 < ak_ts_call a" "ak_ts_call a < ak_ts_resp a" and ca: "ak_cidx a < n"
    by (auto simp: wf_acks_def ack_ok_def list_all_iff)
  have early: "u \<in> set xs" if "u \<in> set as" "ak_ts_resp u < ak_ts_call a" for u
    using real_time_before [of xs a ys u] ord(2) that set o ta(2) by auto
  from kv_run_key [of xs k Map.empty] show ?thesis
  proof
    assume no: "(\<forall>x \<in> set xs. \<not> updates_key k x) \<and> kv_run xs Map.empty k = Map.empty k"
    have "cli_sees (\<lambda>v. v = None) (ak_ts_call a) (ak_ts_resp a) (full_spans k (ak_cidx a) as)"
      by (rule sees_initial [OF ta]) (use no early in blast)
    with no ca show ?thesis by auto
  next
    assume "\<exists>xs1 w xs2. xs = xs1 @ w # xs2 \<and> updates_key k w \<and>
      (\<forall>x \<in> set xs2. \<not> updates_key k x) \<and> kv_run xs Map.empty k = us_value (ack_span w)"
    then obtain xs1 w xs2 where xs: "xs = xs1 @ w # xs2" and w: "updates_key k w"
      and no: "\<forall>x \<in> set xs2. \<not> updates_key k x"
      and val: "kv_run xs Map.empty k = us_value (ack_span w)" by blast
    have wa: "w \<in> set as" by (simp add: set o xs)
    with wf have cw: "ak_cidx w < n" and tw: "ak_ts_call w < ak_ts_resp w"
      by (auto simp: wf_acks_def ack_ok_def list_all_iff)
    have "\<not> ak_ts_resp a < ak_ts_call w"
      using ord(2) by (auto simp: o xs real_time_def sorted_wrt_append)
    with td wa a have call: "ak_ts_call w < ak_ts_resp a"
      by (metis linorder_neqE ts_distinct_def)
    have late: "\<not> ak_ts_resp u < ak_ts_call a"
      if u: "as = ps @ w # qs" "u \<in> set qs" "ak_cidx u = ak_cidx w" "updates_key k u" for u ps qs
    proof
      assume "ak_ts_resp u < ak_ts_call a"
      with early u have "u \<in> set xs" by auto
      moreover have "ak_ts_resp w < ak_ts_call u"
        using wf u by (auto simp: wf_acks_def sorted_wrt_append)
      then have "u \<notin> set xs1 \<and> u \<noteq> w"
        using ord(2) tw by (auto simp: o xs real_time_def sorted_wrt_append)
      ultimately have "u \<in> set xs2" by (auto simp: xs)
      with no u(4) show False by blast
    qed
    have "cli_sees (\<lambda>v. v = us_value (ack_span w)) (ak_ts_call a) (ak_ts_resp a)
        (full_spans k (ak_cidx w) as)" by (rule sees_update [OF wa w call]) (rule late)
    with cw val show ?thesis by auto
  qed
qed

section \<open>Soundness\<close>

lemma collect_entries_Some:
  assumes "distinct (map fst es)" and "\<forall>(k, v) \<in> set es. a \<le> k \<and> k \<le> b"
    and "fst ` set m \<inter> fst ` set es = {}"
  shows "collect_entries a b m es = Some (rev es @ m)"
  using assms
proof (induction es arbitrary: m)
  case (Cons e es)
  obtain k v where e: "e = (k, v)" by (cases e)
  from Cons.prems e have "map_of m k = None" by (auto simp: map_of_eq_None_iff)
  with Cons e show ?case by (auto simp: not_less [symmetric])
qed simp

lemma map_of_rev_distinct: "distinct (map fst es) \<Longrightarrow> map_of (rev es) = map_of es"
  by (rule map_of_inject_set [THEN iffD2]) (simp_all add: rev_map [symmetric])

lemma linearized_passes:
  assumes wf: "wf_acks n pool as" and td: "ts_distinct as"
    and ord: "mset ord = mset as" "real_time ord" "legal Map.empty ord"
    and a: "a \<in> set as" and pool: "call_in_pool pool (ak_call a)"
  shows "offline_check n pool as a"
proof -
  from a ord(1) have "a \<in> set ord" by (metis set_mset_mset)
  then obtain xs ys where o: "ord = xs @ a # ys" by (meson split_list)
  let ?s = "kv_run xs Map.empty" and ?tc = "ak_ts_call a" and ?tr = "ak_ts_resp a"
  let ?row = "\<lambda>k. map (\<lambda>c. full_spans k c as) [0..<n]"
  have ans: "kv_answers ?s (ak_call a) (ak_resp a)"
    using ord(3) by (simp add: o legal_append)
  have row: "\<exists>cli \<in> set (?row k). cli_sees (\<lambda>v. v = ?s k) ?tc ?tr cli" for k
    using lin_sees [OF wf td ord(1,2) o, of k] by auto
  have look: "map_of (full_history n pool as) k = Some (?row k)" if "k \<in> set pool" for k
    using that by (simp add: full_history_table map_of_client_table)
  have scan: "check_scan (full_history n pool as) ?tc ?tr x y es"
    if es: "distinct (map fst es)" "\<And>k v. (k, v) \<in> set es \<longleftrightarrow> x \<le> k \<and> k \<le> y \<and> ?s k = Some v"
    for x y es
  proof -
    have "collect_entries x y [] es = Some (rev es)"
      using collect_entries_Some [of es x y "[]"] es by auto
    moreover have "map_of (rev es) k = ?s k" if "x \<le> k" "k \<le> y" for k
      using es that map_of_rev_distinct [OF es(1)]
      by (cases "?s k") (auto simp: map_of_eq_None_iff intro: map_of_is_SomeI)
    moreover have "check_get (?row k) ?tc ?tr (?s k)" for k
      using row [of k] get.chk_value by blast
    ultimately show ?thesis
      by (auto simp: check_scan_def full_history_def list_all_iff)
  qed
  show ?thesis
  proof (cases "ak_call a")
    case (Put k v)
    with ans pool row [of k] look [of k] put.chk_value show ?thesis
      by (fastforce simp: offline_check_def check_call_def)
  next
    case (Swap k v)
    with ans pool row [of k] look [of k] swap.chk_value show ?thesis
      by (fastforce simp: offline_check_def check_call_def)
  next
    case (Get k)
    with ans pool row [of k] look [of k] get.chk_value show ?thesis
      by (fastforce simp: offline_check_def check_call_def)
  next
    case (Scan x y)
    with ans scan show ?thesis by (auto simp: offline_check_def check_call_def)
  next
    case (Delete k)
    with ans pool row [of k] look [of k] delete.chk_value show ?thesis
      by (fastforce simp: offline_check_def check_call_def)
  qed (use pool in simp)
qed

lemma lin_prefix_passes:
  assumes "wf_acks n pool (as @ bs)" and "ts_distinct (as @ bs)"
    and "linearizable (as @ bs)" and "list_all (\<lambda>a. call_in_pool pool (ak_call a)) as"
  shows "\<forall>a \<in> set as. ak_ts_resp a < frontier n as \<longrightarrow> offline_check n pool as a"
proof -
  from assms(3) obtain ord where "mset ord = mset (as @ bs)" "real_time ord" "legal Map.empty ord"
    by (auto simp: linearizable_def)
  from linearized_passes [OF assms(1,2) this] assms(4)
  have "offline_check n pool (as @ bs) a" if "a \<in> set as" for a
    using that by (simp add: list_all_iff)
  with decided_stable [OF assms(1)] show ?thesis by blast
qed

section \<open>What a client's complete history lets an operation see\<close>

lemma own_updates_sorted:
  assumes "wf_acks n pool as"
  shows "sorted_wrt (\<lambda>a b. ak_ts_resp a < ak_ts_call b)
           (filter (\<lambda>a. ak_cidx a = c \<and> updates_key k a) as)"
proof -
  let ?us = "filter (\<lambda>a. ak_cidx a = c \<and> updates_key k a) as"
  have "sorted_wrt (\<lambda>a b. ak_cidx a = ak_cidx b \<longrightarrow> ak_ts_resp a < ak_ts_call b) ?us"
    using assms by (simp add: wf_acks_def sorted_wrt_filter)
  then show ?thesis by (rule sorted_wrt_mono_rel [rotated]) auto
qed

lemma cli_sees_Cons:
  "cli_sees P tc tr (d # cli) \<longleftrightarrow>
     (us_ts_call d < tr \<and> P (us_value d) \<and> (\<forall>t \<in> set cli. \<not> us_ts_resp t < tc)) \<or>
     cli_sees P tc tr cli" (is "?L \<longleftrightarrow> ?A \<or> ?B")
proof
  assume ?L
  then obtain pre s post where *: "d # cli = pre @ s # post" "us_ts_call s < tr" "P (us_value s)"
      "\<forall>t \<in> set post. \<not> us_ts_resp t < tc"
    by (auto simp: cli_sees_def)
  then show "?A \<or> ?B" by (cases pre) (auto simp: cli_sees_def)
next
  assume "?A \<or> ?B"
  then show ?L
  proof
    assume ?A
    then show ?L unfolding cli_sees_def by (intro exI [of _ "[]"]) auto
  next
    assume ?B
    then obtain pre s post where "d # cli = (d # pre) @ s # post" "us_ts_call s < tr"
        "P (us_value s)" "\<forall>t \<in> set post. \<not> us_ts_resp t < tc"
      by (auto simp: cli_sees_def)
    then show ?L unfolding cli_sees_def by blast
  qed
qed

lemma cli_sees_map:
  "cli_sees P tc tr (map f xs) \<longleftrightarrow>
     (\<exists>xs1 w xs2. xs = xs1 @ w # xs2 \<and> us_ts_call (f w) < tr \<and> P (us_value (f w)) \<and>
        (\<forall>x \<in> set xs2. \<not> us_ts_resp (f x) < tc))" (is "?L \<longleftrightarrow> ?R")
proof
  assume ?L
  then obtain pre s post where *: "map f xs = pre @ s # post" "us_ts_call s < tr" "P (us_value s)"
      "\<forall>t \<in> set post. \<not> us_ts_resp t < tc"
    by (auto simp: cli_sees_def)
  from *(1) obtain xs1 w xs2 where "xs = xs1 @ w # xs2" "s = f w" "post = map f xs2"
    by (auto simp: map_eq_append_conv map_eq_Cons_conv)
  with * show ?R by auto
next
  assume ?R
  then obtain xs1 w xs2 where *: "xs = xs1 @ w # xs2" "us_ts_call (f w) < tr" "P (us_value (f w))"
    "\<forall>x \<in> set xs2. \<not> us_ts_resp (f x) < tc" by blast
  then show ?L
    unfolding cli_sees_def by (intro exI [of _ "map f xs1"] exI [of _ "f w"] exI [of _ "map f xs2"]) auto
qed

lemma later_own_update_iff:
  assumes so: "sorted_wrt (\<lambda>a b. ak_ts_resp a < ak_ts_call b) (us1 @ w # us2)"
    and ok: "\<forall>u \<in> set (us1 @ w # us2). ak_ts_call u < ak_ts_resp u"
    and u: "u \<in> set (us1 @ w # us2)"
  shows "ak_ts_resp w < ak_ts_call u \<longleftrightarrow> u \<in> set us2"
proof
  assume l: "ak_ts_resp w < ak_ts_call u"
  have "u \<noteq> w" using l ok by (auto dest: less_trans)
  moreover have "u \<notin> set us1"
  proof
    assume "u \<in> set us1"
    with so have "ak_ts_resp u < ak_ts_call w" by (auto simp: sorted_wrt_append)
    moreover have "ak_ts_call u < ak_ts_resp u" "ak_ts_call w < ak_ts_resp w" using ok u by auto
    ultimately show False using l by (meson less_trans less_irrefl)
  qed
  ultimately show "u \<in> set us2" using u by auto
qed (use so in \<open>auto simp: sorted_wrt_append\<close>)

text \<open>
  An operation sees the initial value in a client's history if no update of the key by that client
  ended before it began, and the value of an update that began before it ended and that no later
  update of the same client, ended before it began, has overwritten.
\<close>

lemma sees_full_iff:
  assumes wf: "wf_acks n pool as"
  shows "cli_sees P tc tr (full_spans k c as) \<longleftrightarrow>
     (0 < tr \<and> P None \<and>
      (\<forall>u \<in> set as. ak_cidx u = c \<and> updates_key k u \<longrightarrow> \<not> ak_ts_resp u < tc)) \<or>
     (\<exists>w \<in> set as. ak_cidx w = c \<and> updates_key k w \<and> ak_ts_call w < tr \<and>
        P (us_value (ack_span w)) \<and>
        (\<forall>u \<in> set as. ak_cidx u = c \<and> updates_key k u \<and> ak_ts_resp w < ak_ts_call u \<longrightarrow>
           \<not> ak_ts_resp u < tc))"
proof -
  define us where "us = filter (\<lambda>a. ak_cidx a = c \<and> updates_key k a) as"
  have so: "sorted_wrt (\<lambda>a b. ak_ts_resp a < ak_ts_call b) us"
    unfolding us_def by (rule own_updates_sorted [OF wf])
  have ok: "\<forall>u \<in> set us. ak_ts_call u < ak_ts_resp u"
    using wf by (auto simp: us_def wf_acks_def ack_ok_def list_all_iff)
  have mem: "u \<in> set us \<longleftrightarrow> u \<in> set as \<and> ak_cidx u = c \<and> updates_key k u" for u
    by (auto simp: us_def)
  have "(\<exists>us1 w us2. us = us1 @ w # us2 \<and> ak_ts_call w < tr \<and> P (us_value (ack_span w)) \<and>
        (\<forall>x \<in> set us2. \<not> ak_ts_resp x < tc)) \<longleftrightarrow>
     (\<exists>w \<in> set us. ak_ts_call w < tr \<and> P (us_value (ack_span w)) \<and>
        (\<forall>u \<in> set us. ak_ts_resp w < ak_ts_call u \<longrightarrow> \<not> ak_ts_resp u < tc))" (is "?L \<longleftrightarrow> ?R")
  proof
    assume ?L
    then obtain us1 w us2 where s: "us = us1 @ w # us2" "ak_ts_call w < tr"
      "P (us_value (ack_span w))" "\<forall>x \<in> set us2. \<not> ak_ts_resp x < tc" by blast
    with later_own_update_iff [of us1 w us2] so ok show ?R by (metis in_set_conv_decomp)
  next
    assume ?R
    then obtain w where w: "w \<in> set us" "ak_ts_call w < tr" "P (us_value (ack_span w))"
      "\<forall>u \<in> set us. ak_ts_resp w < ak_ts_call u \<longrightarrow> \<not> ak_ts_resp u < tc" by blast
    from w(1) obtain us1 us2 where s: "us = us1 @ w # us2" by (meson split_list)
    with later_own_update_iff [of us1 w us2] so ok w have "\<forall>x \<in> set us2. \<not> ak_ts_resp x < tc"
      by auto
    with s w show ?L by blast
  qed
  moreover have "(\<forall>u \<in> set us. Q u) \<longleftrightarrow> (\<forall>u \<in> set as. ak_cidx u = c \<and> updates_key k u \<longrightarrow> Q u)"
    "(\<exists>u \<in> set us. Q u) \<longleftrightarrow> (\<exists>u \<in> set as. ak_cidx u = c \<and> updates_key k u \<and> Q u)" for Q
    using mem by blast+
  ultimately show ?thesis
    unfolding full_spans_def us_def [symmetric] cli_sees_Cons cli_sees_map
    by (simp add: dummy_span_def imp_conjL)
qed

text \<open>
  The key a single-key response is about, and the value the key must have had for the response to be
  right; the check of such a response over the complete history in terms of both.
\<close>

fun resp_claim :: "KvResp \<Rightarrow> (string \<times> (string option \<Rightarrow> bool)) option" where
  "resp_claim (KvResp.Put k found) = Some (k, \<lambda>v. (v \<noteq> None) = found)"
| "resp_claim (KvResp.Swap k old) = Some (k, \<lambda>v. v = old)"
| "resp_claim (KvResp.Get k val) = Some (k, \<lambda>v. v = val)"
| "resp_claim (KvResp.Delete k found) = Some (k, \<lambda>v. (v \<noteq> None) = found)"
| "resp_claim _ = None"

lemma offline_claim:
  assumes "k \<in> set pool" and "resp_claim (ak_resp a) = Some (k, P)"
  shows "offline_check n pool as a \<longleftrightarrow>
     (\<exists>c < n. cli_sees P (ak_ts_call a) (ak_ts_resp a) (full_spans k c as))"
  using assms
  by (cases "ak_resp a")
     (auto simp: offline_check_def check_call_def full_history_table map_of_client_table
        get.chk_iff put.chk_iff swap.chk_iff delete.chk_iff)

lemma offline_get:
  assumes "k \<in> set pool" and "ak_resp a = KvResp.Get k v"
  shows "offline_check n pool as a \<longleftrightarrow>
     (\<exists>c < n. cli_sees (\<lambda>x. x = v) (ak_ts_call a) (ak_ts_resp a) (full_spans k c as))"
  using assms by (intro offline_claim) simp_all

text \<open>With one client, an operation is preceded and followed by all others.\<close>

lemma single_client_order:
  assumes wf: "wf_acks 1 pool as"
  shows "sorted_wrt (\<lambda>a b. ak_ts_resp a < ak_ts_call b) as" and "\<forall>u \<in> set as. ak_ts_call u < ak_ts_resp u"
    and "\<forall>u \<in> set as. ak_cidx u = 0"
proof -
  show "\<forall>u \<in> set as. ak_ts_call u < ak_ts_resp u" and c0: "\<forall>u \<in> set as. ak_cidx u = 0"
    using wf by (auto simp: wf_acks_def ack_ok_def list_all_iff)
  have "sorted_wrt (\<lambda>a b. ak_cidx a = ak_cidx b \<longrightarrow> ak_ts_resp a < ak_ts_call b) as"
    using wf by (simp add: wf_acks_def)
  then show "sorted_wrt (\<lambda>a b. ak_ts_resp a < ak_ts_call b) as"
    by (rule sorted_wrt_mono_rel [rotated]) (use c0 in auto)
qed

lemma single_client_times:
  assumes wf: "wf_acks 1 pool (xs @ a # ys)" and u: "u \<in> set (xs @ a # ys)" "u \<noteq> a"
  shows "ak_ts_resp u < ak_ts_call a \<longleftrightarrow> u \<in> set xs" and "ak_ts_call u < ak_ts_resp a \<longleftrightarrow> u \<in> set xs"
proof -
  note so = single_client_order [OF wf]
  have ok: "ak_ts_call u < ak_ts_resp u" "ak_ts_call a < ak_ts_resp a" using so(2) u(1) by auto
  have before: "ak_ts_resp u < ak_ts_call a" if "u \<in> set xs" using so(1) that by (auto simp: sorted_wrt_append)
  have after: "ak_ts_resp a < ak_ts_call u" if "u \<notin> set xs" using so(1) that u by (auto simp: sorted_wrt_append)
  show "ak_ts_resp u < ak_ts_call a \<longleftrightarrow> u \<in> set xs"
    using before after ok by (meson less_asym less_trans)
  show "ak_ts_call u < ak_ts_resp a \<longleftrightarrow> u \<in> set xs"
    using before after ok by (meson less_asym less_trans)
qed

text \<open>The value a sequence of operations leaves at a key is that of the update no other one follows.\<close>

lemma last_update_value:
  assumes so: "sorted_wrt (\<lambda>a b. ak_ts_resp a < ak_ts_call b) xs" and ok: "\<forall>u \<in> set xs. ak_ts_call u < ak_ts_resp u"
  shows "(v = None \<and> (\<forall>u \<in> set xs. \<not> updates_key k u)) \<or>
      (\<exists>w \<in> set xs. updates_key k w \<and> us_value (ack_span w) = v \<and>
         (\<forall>u \<in> set xs. updates_key k u \<longrightarrow> \<not> ak_ts_resp w < ak_ts_call u))
    \<longleftrightarrow> v = kv_run xs Map.empty k"
  using kv_run_key [of xs k Map.empty]
proof
  assume "(\<forall>x \<in> set xs. \<not> updates_key k x) \<and> kv_run xs Map.empty k = Map.empty k"
  then show ?thesis by auto
next
  assume "\<exists>xs1 w xs2. xs = xs1 @ w # xs2 \<and> updates_key k w \<and>
    (\<forall>x \<in> set xs2. \<not> updates_key k x) \<and> kv_run xs Map.empty k = us_value (ack_span w)"
  then obtain xs1 w xs2 where xs: "xs = xs1 @ w # xs2" and w: "updates_key k w"
    and no: "\<forall>x \<in> set xs2. \<not> updates_key k x"
    and val: "kv_run xs Map.empty k = us_value (ack_span w)" by blast
  have le: "ak_ts_resp u < ak_ts_call w" if "u \<in> set xs1" for u
    using so that by (auto simp: xs sorted_wrt_append)
  have "\<not> ak_ts_resp w < ak_ts_call u" if "u \<in> set xs" "updates_key k u" for u
    using that no le [of u] ok by (auto simp: xs dest: less_trans)
  moreover have "u = w" if "u \<in> set xs" "updates_key k u" "\<not> ak_ts_resp u < ak_ts_call w" for u
    using that no le [of u] by (auto simp: xs)
  ultimately show ?thesis using w val by (metis xs in_set_conv_decomp)
qed

section \<open>Properties\<close>

text \<open>
  C2. No false alarms: if the run so far is part of a well-formed run that is linearizable with
  respect to the key-value specification, and only calls on keys of the pool were made, then the
  checker, fed with the run so far, raises no alarm.
\<close>

theorem linearizable_never_alarms:
  assumes "wf_acks n (key_pool n keys) (as @ bs)" and "ts_distinct (as @ bs)"
    and "linearizable (as @ bs)" and "list_all (\<lambda>a. call_in_pool (key_pool n keys) (ak_call a)) as"
  shows "\<exists>h. replay dbg (history_new n keys) as = Ok (None, h)"
  using replay_refines [of n "key_pool n keys" "[]" as "history_new n keys" dbg]
    wf_acks_prefix [OF assms(1)] key_pool_props(2) [of n keys] hist_inv_new [of n keys]
    lin_prefix_passes [OF assms] by auto

theorem linearizable_never_alarms_witness:
  "\<exists>h. replay True (history_new 2 [[''k''], [''k'']]) sample_run = Ok (None, h)"
proof -
  have "linearizable (sample_run @ [])"
    unfolding linearizable_def
    by (rule exI [of _ sample_run])
       (simp add: real_time_def sample_run_def sample_put_def)
  moreover have "ts_distinct (sample_run @ [])"
    by (simp add: ts_distinct_def sample_run_def sample_put_def)
  moreover have "list_all (\<lambda>a. call_in_pool [''k''] (ak_call a)) sample_run"
    by (simp add: sample_run_def sample_put_def)
  ultimately show ?thesis
    using linearizable_never_alarms [of 2 "[[''k''], [''k'']]" sample_run "[]" True] sample_wf
    unfolding sample_pool by simp
qed

text \<open>
  C11. What an accepted read means. Over the complete history, the response of a read of a pool key is
  accepted iff, for some client, either it is \<open>null\<close> and no update of the key by that client ended
  before the read began, or it is the value of an update by that client that began before the read
  ended and that no later update of the key by the same client, ended before the read began, has
  overwritten.
\<close>

theorem get_accepted_iff:
  assumes "wf_acks n pool as" and "k \<in> set pool" and "ak_resp a = KvResp.Get k v"
    and "0 < ak_ts_resp a"
  shows "offline_check n pool as a \<longleftrightarrow>
     (\<exists>c < n.
        (v = None \<and> (\<forall>u \<in> set as. ak_cidx u = c \<and> updates_key k u \<longrightarrow>
                       \<not> ak_ts_resp u < ak_ts_call a)) \<or>
        (\<exists>w \<in> set as. ak_cidx w = c \<and> updates_key k w \<and> ak_ts_call w < ak_ts_resp a \<and>
           us_value (ack_span w) = v \<and>
           (\<forall>u \<in> set as. ak_cidx u = c \<and> updates_key k u \<and> ak_ts_resp w < ak_ts_call u \<longrightarrow>
              \<not> ak_ts_resp u < ak_ts_call a)))"
  unfolding offline_get [OF assms(2,3)] sees_full_iff [OF assms(1)]
  by (simp add: assms(4) eq_commute [of None v])

theorem get_accepted_iff_witness:
  "offline_check 2 [''k''] sample_run
     \<lparr>ak_cidx = 1, ak_call = KvCall.Get ''k'', ak_ts_call = 7, ak_ts_resp = 8,
      ak_resp = KvResp.Get ''k'' (Some ''b'')\<rparr>"
  using get_accepted_iff [of 2 "[''k'']" sample_run "''k''"
      "\<lparr>ak_cidx = 1, ak_call = KvCall.Get ''k'', ak_ts_call = 7, ak_ts_resp = 8,
        ak_resp = KvResp.Get ''k'' (Some ''b'')\<rparr>" "Some ''b''"] sample_wf
  by (auto simp: sample_run_def sample_put_def updates_key_def ack_span_def)

text \<open>
  C12. With a single client the check of a read is exact: in a well-formed run of one client, the
  response of a read is accepted iff it is the value that executing the preceding calls one after
  the other leaves at the key.
\<close>

theorem single_client_get_exact:
  assumes wf: "wf_acks 1 pool (xs @ a # ys)" and k: "k \<in> set pool"
    and r: "ak_resp a = KvResp.Get k v" and ro: "update_info (ak_call a) = None"
  shows "offline_check 1 pool (xs @ a # ys) a \<longleftrightarrow> v = kv_run xs Map.empty k"
proof -
  let ?as = "xs @ a # ys"
  note so = single_client_order [OF wf]
  have na: "\<not> updates_key k a" using ro by (simp add: updates_key_def)
  then have ended: "ak_ts_resp u < ak_ts_call a \<longleftrightarrow> u \<in> set xs"
    and begun: "ak_ts_call u < ak_ts_resp a \<longleftrightarrow> u \<in> set xs" if "u \<in> set ?as" "updates_key k u" for u
    using single_client_times [OF wf that(1)] that(2) by auto
  have pos: "0 < ak_ts_resp a"
    using wf by (auto simp: wf_acks_def ack_ok_def intro: less_trans)
  have "offline_check 1 pool ?as a \<longleftrightarrow>
      (None = v \<and> (\<forall>u \<in> set ?as. updates_key k u \<longrightarrow> \<not> ak_ts_resp u < ak_ts_call a)) \<or>
      (\<exists>w \<in> set ?as. updates_key k w \<and> ak_ts_call w < ak_ts_resp a \<and> us_value (ack_span w) = v \<and>
         (\<forall>u \<in> set ?as. updates_key k u \<and> ak_ts_resp w < ak_ts_call u \<longrightarrow>
            \<not> ak_ts_resp u < ak_ts_call a))"
    unfolding offline_get [OF k r] sees_full_iff [OF wf] using pos so(3) by auto
  also have "\<dots> \<longleftrightarrow> (v = None \<and> (\<forall>u \<in> set xs. \<not> updates_key k u)) \<or>
      (\<exists>w \<in> set xs. updates_key k w \<and> us_value (ack_span w) = v \<and>
         (\<forall>u \<in> set xs. updates_key k u \<longrightarrow> \<not> ak_ts_resp w < ak_ts_call u))"
    (is "?A \<or> ?B \<longleftrightarrow> ?A' \<or> ?B'")
  proof -
    have sub: "u \<in> set xs \<Longrightarrow> u \<in> set ?as" for u by simp
    have "?A \<longleftrightarrow> ?A'" using ended sub by blast
    moreover have "?B \<longleftrightarrow> ?B'" using ended begun sub by blast
    ultimately show ?thesis by simp
  qed
  also have "\<dots> \<longleftrightarrow> v = kv_run xs Map.empty k"
    by (rule last_update_value) (use so in \<open>auto simp: sorted_wrt_append\<close>)
  finally show ?thesis .
qed

definition sample_single :: "ack list" where
  "sample_single =
     [\<lparr>ak_cidx = 0, ak_call = KvCall.Put ''k'' ''a'', ak_ts_call = 1, ak_ts_resp = 2,
       ak_resp = KvResp.Put ''k'' False\<rparr>,
      \<lparr>ak_cidx = 0, ak_call = KvCall.Delete ''k'', ak_ts_call = 3, ak_ts_resp = 4,
       ak_resp = KvResp.Delete ''k'' True\<rparr>]"

definition sample_read :: "string option \<Rightarrow> ack" where
  "sample_read v =
     \<lparr>ak_cidx = 0, ak_call = KvCall.Get ''k'', ak_ts_call = 5, ak_ts_resp = 6,
      ak_resp = KvResp.Get ''k'' v\<rparr>"

theorem single_client_get_exact_witness:
  "\<not> offline_check 1 [''k''] (sample_single @ [sample_read (Some ''a'')]) (sample_read (Some ''a''))"
  using single_client_get_exact [of "[''k'']" sample_single "sample_read (Some ''a'')" "[]" "''k''"
      "Some ''a''"]
  by (simp add: sample_single_def sample_read_def kv_run_def wf_acks_def ack_ok_def)

text \<open>
  C13. The history that decides an update's response contains the update itself, so a response that
  describes the state the update leaves behind is accepted whatever the state was before: a \<open>PUT\<close>
  may answer \<open>found\<close>, a \<open>SWAP\<close> may answer its own new value, a \<open>DELETE\<close> may answer \<open>not_found\<close>.
\<close>

theorem own_update_accepted:
  assumes wf: "wf_acks n pool as" and a: "a \<in> set as" and u: "update_info (ak_call a) = Some (k, v)"
    and r: "resp_claim (ak_resp a) = Some (k, P)" and P: "P v"
  shows "offline_check n pool as a"
proof -
  from wf a u have ok: "ak_cidx a < n" "ak_ts_call a < ak_ts_resp a" and k: "k \<in> set pool"
    by (auto simp: wf_acks_def ack_ok_def list_all_iff)
  have late: "\<not> ak_ts_resp x < ak_ts_call a" if "x \<in> set as" "ak_ts_resp a < ak_ts_call x" for x
  proof
    assume "ak_ts_resp x < ak_ts_call a"
    moreover have "ak_ts_call x < ak_ts_resp x"
      using wf that(1) by (auto simp: wf_acks_def ack_ok_def list_all_iff)
    ultimately show False using that(2) ok(2) by (meson less_trans less_irrefl)
  qed
  have "updates_key k a" "us_value (ack_span a) = v" using u by (simp_all add: updates_key_def ack_span_def)
  with a ok(2) P late
  have "cli_sees P (ak_ts_call a) (ak_ts_resp a) (full_spans k (ak_cidx a) as)"
    unfolding sees_full_iff [OF wf] by (intro disjI2 bexI [of _ a]) auto
  with ok(1) show ?thesis unfolding offline_claim [OF k r] by blast
qed

definition sample_false_found :: ack where
  "sample_false_found =
     \<lparr>ak_cidx = 0, ak_call = KvCall.Put ''k'' ''a'', ak_ts_call = 1, ak_ts_resp = 2,
      ak_resp = KvResp.Put ''k'' True\<rparr>"

theorem own_update_accepted_witness:
  "offline_check 1 [''k''] [sample_false_found] sample_false_found \<and>
   \<not> kv_answers Map.empty (ak_call sample_false_found) (ak_resp sample_false_found)"
  using own_update_accepted [of 1 "[''k'']" "[sample_false_found]" sample_false_found "''k''"
      "Some ''a''" "\<lambda>v. (v \<noteq> None) = True"]
  by (simp add: sample_false_found_def wf_acks_def ack_ok_def)

text \<open>
  C14. A response that denies the key (a null \<open>GET\<close> or \<open>SWAP\<close>, a \<open>PUT\<close> or \<open>DELETE\<close> that answers
  \<open>not_found\<close>) is accepted as soon as one client has not updated the key: the initial span of that
  client stands for the absent key for ever. When the clients' key sets are disjoint, this is every
  key, for two clients or more.
\<close>

theorem denied_key_accepted:
  assumes wf: "wf_acks n pool as" and c: "c < n"
    and no: "\<forall>u \<in> set as. ak_cidx u = c \<longrightarrow> \<not> updates_key k u"
    and k: "k \<in> set pool" and a: "0 < ak_ts_resp a"
    and r: "resp_claim (ak_resp a) = Some (k, P)" and P: "P None"
  shows "offline_check n pool as a"
proof -
  have "cli_sees P (ak_ts_call a) (ak_ts_resp a) (full_spans k c as)"
    unfolding sees_full_iff [OF wf] using no P a by auto
  with c show ?thesis unfolding offline_claim [OF k r] by blast
qed

theorem denied_key_accepted_witness:
  "offline_check 2 [''k''] [sample_put 0 ''a'' 1 2 False] (sample_read None) \<and>
   \<not> kv_answers (kv_run [sample_put 0 ''a'' 1 2 False] Map.empty) (ak_call (sample_read None))
       (ak_resp (sample_read None))"
  using denied_key_accepted [of 2 "[''k'']" "[sample_put 0 ''a'' 1 2 False]" 1 "''k''" "sample_read None"
      "\<lambda>v. v = None"]
  by (simp add: sample_put_def sample_read_def wf_acks_def ack_ok_def kv_run_def)

end
