(* ===== verification/Fuzzer.thy ===== *)
theory Fuzzer
  imports Rand Proc Lineariz
begin

text \<open>
  The fuzzer (\<open>runner/src/bin/fuzzer/main.rs\<close>): its state, one iteration of its loop (issue a call
  or harvest a response), the loop, the test, and the main function. Printing to the terminal and
  the pause before the test are not modelled.
\<close>

section \<open>Arguments and state\<close>

record Args =
  num_clis :: nat
  num_keys :: nat
  num_ops :: nat
  conflict :: bool
  client_just_args :: "string list"

definition KEY_LEN :: nat where
  "KEY_LEN = 8"

definition REMAIN_THRESH :: nat where
  "REMAIN_THRESH = 1000"

text \<open>The local variables of \<open>fuzz_test\<close>, with the state of the processes and of the generator.\<close>

record ('w, 'g) fuzz =
  fz_flying :: "bool list"
  fz_timestamp :: u64
  fz_memo :: "(u64 \<times> (string \<times> string option) option) list"
  fz_history :: History
  fz_called :: nat
  fz_waited :: nat
  fz_passed :: bool
  fz_stats :: Stats
  fz_sys :: "'w sys"
  fz_rng :: 'g

definition fuzz_init ::
  "string list list \<Rightarrow> Stats \<Rightarrow> 'w sys \<Rightarrow> 'g \<Rightarrow> ('w, 'g) fuzz" where
  "fuzz_init keys stats s g =
     (let n = length (fst s)
      in \<lparr>fz_flying = replicate n False, fz_timestamp = 0, fz_memo = replicate n (0, None),
          fz_history = history_new n keys, fz_called = 0, fz_waited = 0, fz_passed = True,
          fz_stats = stats, fz_sys = s, fz_rng = g\<rparr>)"

section \<open>One iteration\<close>

text \<open>
  The two branches of the loop's body. The boolean of the result is false for \<open>break\<close>; an outer
  \<^term>\<open>None\<close> is the retry loop of \<open>gen_rand_client\<close> not ending.
\<close>

definition fuzz_call ::
  "bool \<Rightarrow> 'g rng_ops \<Rightarrow> string list list \<Rightarrow> ('w, 'g) fuzz
     \<Rightarrow> (bool \<times> ('w, 'g) fuzz, RunnerError) run option" where
  "fuzz_call dbg rng keys st =
     (case gen_rand_client dbg rng (fz_flying st) False (fz_rng st) of
        None \<Rightarrow> None
      | Some res \<Rightarrow> Some (run_bind res (\<lambda>(cidx, g).
          if \<not> cidx < length keys then Panic
          else run_bind (gen_rand_kvcall dbg rng (keys ! cidx) (fz_stats st) cidx g) (\<lambda>(call, stats, g).
            if \<not> cidx < length (fz_memo st) then Panic
            else run_bind (send_call cidx call (fz_sys st)) (\<lambda>s.
              run_bind (usize_add dbg (fz_called st) 1) (\<lambda>ops_called.
                Ok (True, st\<lparr>fz_memo := (fz_memo st)[cidx := (fz_timestamp st, update_info call)],
                             fz_flying := (fz_flying st)[cidx := True], fz_called := ops_called,
                             fz_stats := stats, fz_sys := s, fz_rng := g\<rparr>)))))))"

text \<open>What is done with a harvested response.\<close>

definition fuzz_harvest ::
  "bool \<Rightarrow> nat \<Rightarrow> nat \<Rightarrow> KvResp \<Rightarrow> ('w, 'g) fuzz \<Rightarrow> (bool \<times> ('w, 'g) fuzz, RunnerError) run" where
  "fuzz_harvest dbg total_ops cidx resp st =
     (if resp = KvResp.Stop then Ok (False, st\<lparr>fz_passed := False\<rparr>)
      else if \<not> cidx < length (fz_memo st) then Panic
      else
        (case fz_memo st ! cidx of (ts_call, upd) \<Rightarrow>
           run_bind (add_to_queue dbg (fz_history st) ts_call (fz_timestamp st) resp) (\<lambda>h.
           run_bind (case upd of
                Some (update_key, update_value) \<Rightarrow>
                  apply_update dbg h cidx ts_call (fz_timestamp st) update_key update_value
              | None \<Rightarrow> Ok (None, h)) (\<lambda>(verdict, h).
           case verdict of
             Some _ \<Rightarrow>
               Ok (False, st\<lparr>fz_memo := (fz_memo st)[cidx := (0, None)], fz_history := h,
                             fz_passed := False\<rparr>)
           | None \<Rightarrow>
               run_bind (usize_add dbg (fz_waited st) 1) (\<lambda>ops_waited.
                 if total_ops div 100 = 0 then Panic
                 else
                   Ok (True, st\<lparr>fz_memo := (fz_memo st)[cidx := (0, None)], fz_history := h,
                                fz_flying := (fz_flying st)[cidx := False],
                                fz_waited := ops_waited\<rparr>))))))"

definition fuzz_wait ::
  "bool \<Rightarrow> 'g rng_ops \<Rightarrow> 'w os \<Rightarrow> nat \<Rightarrow> ('w, 'g) fuzz
     \<Rightarrow> (bool \<times> ('w, 'g) fuzz, RunnerError) run option" where
  "fuzz_wait dbg rng os total_ops st =
     (case gen_rand_client dbg rng (fz_flying st) True (fz_rng st) of
        None \<Rightarrow> None
      | Some res \<Rightarrow> Some (run_bind res (\<lambda>(cidx, g).
          case os_sched os (snd (fz_sys st)) of (sched, w) \<Rightarrow>
          (case wait_resp os sched cidx (fst (fz_sys st), w) of (waited, s) \<Rightarrow>
             run_bind waited (\<lambda>resp.
               fuzz_harvest dbg total_ops cidx resp (st\<lparr>fz_sys := s, fz_rng := g\<rparr>))))))"

definition fuzz_iter ::
  "bool \<Rightarrow> 'g rng_ops \<Rightarrow> 'w os \<Rightarrow> nat \<Rightarrow> string list list \<Rightarrow> ('w, 'g) fuzz
     \<Rightarrow> (bool \<times> ('w, 'g) fuzz, RunnerError) run option" where
  "fuzz_iter dbg rng os total_ops keys st =
     (case u64_inc dbg (fz_timestamp st) of
        Err e \<Rightarrow> Some (Err e)
      | Panic \<Rightarrow> Some Panic
      | Ok ts \<Rightarrow>
          (case gen_call_vs_wait rng (fz_called st) total_ops (fz_flying st) (fz_rng st) of
             (make_call, g) \<Rightarrow>
               if make_call then fuzz_call dbg rng keys (st\<lparr>fz_timestamp := ts, fz_rng := g\<rparr>)
               else fuzz_wait dbg rng os total_ops (st\<lparr>fz_timestamp := ts, fz_rng := g\<rparr>)))"

section \<open>The test\<close>

partial_function (option) fuzz_loop ::
  "bool \<Rightarrow> 'g rng_ops \<Rightarrow> 'w os \<Rightarrow> nat \<Rightarrow> string list list \<Rightarrow> ('w, 'g) fuzz
     \<Rightarrow> (('w, 'g) fuzz, RunnerError) run option" where
  "fuzz_loop dbg rng os total_ops keys st =
     (if fz_waited st < total_ops then
        (case fuzz_iter dbg rng os total_ops keys st of
           None \<Rightarrow> None
         | Some (Err e) \<Rightarrow> Some (Err e)
         | Some Panic \<Rightarrow> Some Panic
         | Some (Ok (continue, st')) \<Rightarrow>
             if continue then fuzz_loop dbg rng os total_ops keys st' else Some (Ok st'))
      else Some (Ok st))"

declare fuzz_loop.simps [code]

text \<open>Stopping the clients in turn, up to the first error.\<close>

fun stop_clients :: "'w os \<Rightarrow> nat list \<Rightarrow> 'w sys \<Rightarrow> (unit, RunnerError) run \<times> 'w sys" where
  "stop_clients os [] s = (Ok (), s)"
| "stop_clients os (i # is) (cs, w) =
     (case os_sched os w of (sched, w') \<Rightarrow>
        (case client_stop os sched i (cs, w') of
           (Ok _, s') \<Rightarrow> stop_clients os is s'
         | (Err e, s') \<Rightarrow> (Err e, s')
         | (Panic, s') \<Rightarrow> (Panic, s')))"

definition fuzz_test ::
  "bool \<Rightarrow> 'g rng_ops \<Rightarrow> 'w os \<Rightarrow> Args \<Rightarrow> string list list \<Rightarrow> Stats \<Rightarrow> 'w sys \<Rightarrow> 'g
     \<Rightarrow> (nat option \<times> Stats, RunnerError) run option" where
  "fuzz_test dbg rng os args keys stats s g =
     (case usize_mul dbg (num_ops args) (num_clis args) of
        Err e \<Rightarrow> Some (Err e)
      | Panic \<Rightarrow> Some Panic
      | Ok total_ops \<Rightarrow>
          (case fuzz_loop dbg rng os total_ops keys (fuzz_init keys stats s g) of
             None \<Rightarrow> None
           | Some res \<Rightarrow> Some (run_bind res (\<lambda>st.
               if fz_passed st then
                 run_bind (fst (stop_clients os [0..<length (fst (fz_sys st))] (fz_sys st))) (\<lambda>_.
                   Ok (Some (queue_len (fz_history st)), fz_stats st))
               else Ok (None, fz_stats st)))))"

section \<open>The main function\<close>

datatype verdict = PASSED | UNFAIR | FAILED

definition verdict_of :: "nat option \<Rightarrow> verdict" where
  "verdict_of result =
     (case result of
        Some remaining \<Rightarrow> if REMAIN_THRESH \<le> remaining then UNFAIR else PASSED
      | None \<Rightarrow> FAILED)"

definition conflict_key :: "nat \<Rightarrow> string" where
  "conflict_key i = ''key'' @ pad_zeros (KEY_LEN - 3) i"

fun gen_client_keys ::
  "bool \<Rightarrow> 'g rng_ops \<Rightarrow> bool \<Rightarrow> nat list \<Rightarrow> 'g \<Rightarrow> (string list \<times> 'g, RunnerError) run" where
  "gen_client_keys dbg rng confl [] g = Ok ([], g)"
| "gen_client_keys dbg rng confl (i # is) g =
     run_bind (if confl then Ok (conflict_key i, g) else gen_rand_string dbg rng KEY_LEN g) (\<lambda>(k, g).
     run_bind (gen_client_keys dbg rng confl is g) (\<lambda>(ks, g). Ok (k # ks, g)))"

fun gen_keys ::
  "bool \<Rightarrow> 'g rng_ops \<Rightarrow> Args \<Rightarrow> nat \<Rightarrow> 'g \<Rightarrow> (string list list \<times> 'g, RunnerError) run" where
  "gen_keys dbg rng args 0 g = Ok ([], g)"
| "gen_keys dbg rng args (Suc n) g =
     run_bind (gen_client_keys dbg rng (conflict args) [0..<num_keys args] g) (\<lambda>(ks, g).
     run_bind (gen_keys dbg rng args n g) (\<lambda>(kss, g). Ok (ks # kss, g)))"

fun new_clients ::
  "'w os \<Rightarrow> string list \<Rightarrow> nat \<Rightarrow> 'w sys \<Rightarrow> ('w sys, RunnerError) run" where
  "new_clients os just_args 0 s = Ok s"
| "new_clients os just_args (Suc n) (cs, w) =
     (case client_new os just_args w of
        (res, w') \<Rightarrow> run_bind res (\<lambda>cp. new_clients os just_args n (cs @ [cp], w')))"

definition fuzzer_main ::
  "bool \<Rightarrow> 'g rng_ops \<Rightarrow> 'w os \<Rightarrow> Args \<Rightarrow> 'w \<Rightarrow> 'g \<Rightarrow> (verdict \<times> Stats, RunnerError) run option" where
  "fuzzer_main dbg rng os args w g =
     (if num_clis args = 0 \<or> num_keys args = 0 \<or> \<not> num_keys args < 100000 \<or> \<not> 1000 \<le> num_ops args
      then Some Panic
      else case gen_keys dbg rng args (num_clis args) g of
          Err e \<Rightarrow> Some (Err e)
        | Panic \<Rightarrow> Some Panic
        | Ok (keys, g) \<Rightarrow>
            (case new_clients os (client_just_args args) (num_clis args) ([], w) of
               Err e \<Rightarrow> Some (Err e)
             | Panic \<Rightarrow> Some Panic
             | Ok s \<Rightarrow>
                 (case fuzz_test dbg rng os args keys (stats_new keys) s g of
                    None \<Rightarrow> None
                  | Some res \<Rightarrow> Some (run_bind res (\<lambda>(result, stats). Ok (verdict_of result, stats))))))"

end
