(* ===== verification/FuzzInv.thy ===== *)
theory FuzzInv
  imports Fuzzer
begin

text \<open>
  The fuzzer's loop: the invariant that ties its local variables to the run it has harvested so
  far, its preservation by an iteration, the absence of panics, and termination.
\<close>

section \<open>The invariant\<close>

definition hist_ok :: "nat \<Rightarrow> string list \<Rightarrow> ack list \<Rightarrow> History \<Rightarrow> bool" where
  "hist_ok n pool as h \<longleftrightarrow>
     hist_inv n pool as h \<and>
     (\<forall>b \<in> set as. ak_ts_resp b < frontier n as \<longrightarrow> offline_check n pool as b)"

text \<open>The harvested operations, at time \<open>t\<close>.\<close>

definition acks_inv :: "nat \<Rightarrow> string list list \<Rightarrow> ack list \<Rightarrow> u64 \<Rightarrow> bool" where
  "acks_inv n keys as t \<longleftrightarrow>
     wf_acks n (key_pool n keys) as \<and> ts_distinct as \<and>
     (\<forall>a \<in> set as. ak_ts_resp a \<le> t \<and> call_over (keys ! ak_cidx a) (ak_call a) \<and>
        ak_resp a \<noteq> KvResp.Stop)"

text \<open>The operation a client has on the fly, and its entry in \<open>call_memo\<close>.\<close>

definition flight_inv ::
  "string list list \<Rightarrow> ack list \<Rightarrow> u64 \<Rightarrow> nat \<Rightarrow> KvCall
     \<Rightarrow> u64 \<times> (string \<times> string option) option \<Rightarrow> bool" where
  "flight_inv keys as t c call memo \<longleftrightarrow>
     snd memo = update_info call \<and> 0 < fst memo \<and> fst memo \<le> t \<and> call_over (keys ! c) call \<and>
     (\<forall>a \<in> set as. ak_ts_resp a \<noteq> fst memo \<and> (ak_cidx a = c \<longrightarrow> ak_ts_resp a < fst memo))"

definition fuzz_inv ::
  "nat \<Rightarrow> string list list \<Rightarrow> nat \<Rightarrow> ack list \<Rightarrow> (nat \<Rightarrow> KvCall) \<Rightarrow> ('w, 'g) fuzz \<Rightarrow> bool" where
  "fuzz_inv n keys tot as cur st \<longleftrightarrow>
     fz_passed st \<and> length (fz_flying st) = n \<and> length (fz_memo st) = n \<and>
     length (fst (fz_sys st)) = n \<and>
     unat (fz_timestamp st) = fz_called st + fz_waited st \<and>
     fz_called st = fz_waited st + length (filter (\<lambda>b. b) (fz_flying st)) \<and>
     fz_called st \<le> tot \<and> length as = fz_waited st \<and>
     stats_acct keys (fz_called st) (fz_stats st) \<and>
     acks_inv n keys as (fz_timestamp st) \<and>
     (\<forall>c < n. fz_flying st ! c \<longrightarrow>
        flight_inv keys as (fz_timestamp st) c (cur c) (fz_memo st ! c)) \<and>
     hist_ok n (key_pool n keys) as (fz_history st)"

text \<open>What the test is started with.\<close>

definition fuzz_setup :: "nat \<Rightarrow> string list list \<Rightarrow> nat \<Rightarrow> bool" where
  "fuzz_setup n keys tot \<longleftrightarrow>
     0 < n \<and> length keys = n \<and> (\<forall>ks \<in> set keys. ks \<noteq> []) \<and> 100 \<le> tot \<and> 2 * tot + 2 < 2 ^ 64"

lemma fuzz_inv_init:
  assumes "length (fst s) = n"
  shows "fuzz_inv n keys tot [] cur (fuzz_init keys (stats_new keys) s g)"
  using assms
  by (simp add: fuzz_inv_def fuzz_init_def Let_def acks_inv_def wf_acks_def ts_distinct_def
      hist_ok_def hist_inv_new stats_acct_new)

section \<open>Counting clients on the fly\<close>

lemma count_flying_set:
  "c < length xs \<Longrightarrow> \<not> xs ! c \<Longrightarrow>
     length (filter (\<lambda>b. b) (xs[c := True])) = Suc (length (filter (\<lambda>b. b) xs))"
  by (induction xs arbitrary: c) (auto split: nat.splits)

lemma count_flying_clear:
  "c < length xs \<Longrightarrow> xs ! c \<Longrightarrow>
     Suc (length (filter (\<lambda>b. b) (xs[c := False]))) = length (filter (\<lambda>b. b) xs)"
  by (induction xs arbitrary: c) (auto split: nat.splits)

lemma none_flying_iff: "list_all (\<lambda>b. \<not> b) xs \<longleftrightarrow> length (filter (\<lambda>b. b) xs) = 0"
  by (induction xs) auto

section \<open>Sizes of the client vector\<close>

lemma driver_step_length [simp]: "length (fst (driver_step os i s)) = length (fst s)"
  by (auto simp: driver_step_def split: prod.splits)

lemma wait_resp_length:
  "wait_resp os sched i s = (res, s') \<Longrightarrow> length (fst s') = length (fst s)"
proof (induction sched arbitrary: s)
  case Nil
  then show ?case
    by (cases s) (auto simp: wait_resp.simps split: if_splits option.splits run.splits)
next
  case (Cons j js)
  obtain cs w where s: "s = (cs, w)" by (cases s)
  from Cons.prems Cons.IH [of "driver_step os j (cs, w)"] show ?case
    unfolding s by (subst (asm) wait_resp.simps)
      (auto split: if_splits option.splits run.splits)
qed

lemma send_call_length:
  "send_call i c s = Ok s' \<Longrightarrow> length (fst s') = length (fst s)"
  by (auto simp: send_call_def run_bind_Ok_iff split: prod.splits if_splits)

section \<open>A new call\<close>

lemma flight_inv_later:
  "flight_inv keys as t c call memo \<Longrightarrow> t \<le> t' \<Longrightarrow> flight_inv keys as t' c call memo"
  by (auto simp: flight_inv_def)

lemma acks_inv_later: "acks_inv n keys as t \<Longrightarrow> t \<le> t' \<Longrightarrow> acks_inv n keys as t'"
  by (fastforce simp: acks_inv_def)

text \<open>The next time stamp.\<close>

lemma next_timestamp:
  assumes "fuzz_inv n keys tot as cur st" and "2 * tot + 2 < 2 ^ 64"
  shows "fz_timestamp st < fz_timestamp st + 1"
    and "unat (fz_timestamp st + 1) = Suc (fz_called st + fz_waited st)"
    and "(u64_inc dbg (fz_timestamp st) :: (u64, RunnerError) run) = Ok (fz_timestamp st + 1)"
proof -
  have "unat (fz_timestamp st) \<le> 2 * tot" using assms(1) by (auto simp: fuzz_inv_def)
  then have "fz_timestamp st \<noteq> u64_MAX" 
    using assms(2) by (auto simp: unsigned_minus_1_eq_mask mask_eq_exp_minus_1)
  from u64_less_inc [OF this] unat_u64_inc [OF this] this assms(1)
  show "fz_timestamp st < fz_timestamp st + 1"
    "unat (fz_timestamp st + 1) = Suc (fz_called st + fz_waited st)"
    "(u64_inc dbg (fz_timestamp st) :: (u64, RunnerError) run) = Ok (fz_timestamp st + 1)"
    by (simp_all add: fuzz_inv_def u64_inc_def)
qed

lemma gen_rand_client_no_panic:
  assumes "gen_rand_client dbg rng flying want g = Some res" and "rng_ok rng" and "flying \<noteq> []"
    and "want \<or> \<not> list_all (\<lambda>b. b) flying" and "\<not> want \<or> \<not> list_all (\<lambda>b. \<not> b) flying"
  shows "\<exists>c g'. res = Ok (c, g') \<and> c < length flying \<and> flying ! c = want"
proof -
  have loop: "rand_client_loop dbg rng flying want g = Some res"
    using assms(1,4,5) by (simp add: gen_rand_client_def)
  from rand_client_loop_no_panic [OF this assms(2,3)] obtain c g' where "res = Ok (c, g')" by auto
  with rand_client_loop_sound [of dbg rng flying want g c g'] loop show ?thesis by simp
qed

lemma send_call_no_panic:
  "i < length (fst s) \<Longrightarrow> send_call i c s \<noteq> Panic"
  by (auto simp: send_call_def send_chan_def split: prod.splits)

lemma fuzz_call_step:
  assumes inv: "fuzz_inv n keys tot as cur st" and su: "fuzz_setup n keys tot" and ok: "rng_ok rng"
    and lt: "fz_called st < tot" and free: "\<not> list_all (\<lambda>b. b) (fz_flying st)"
    and ret: "fuzz_call dbg rng keys (st\<lparr>fz_timestamp := fz_timestamp st + 1, fz_rng := g\<rparr>) = Some res"
  shows "(\<exists>e c call. res = Err e \<and> c < n \<and> \<not> fz_flying st ! c \<and> send_call c call (fz_sys st) = Err e) \<or>
     (\<exists>c call st'. res = Ok (True, st') \<and> c < n \<and> \<not> fz_flying st ! c \<and> call_over (keys ! c) call \<and>
        send_call c call (fz_sys st) = Ok (fz_sys st') \<and>
        fz_flying st' = (fz_flying st)[c := True] \<and> fz_timestamp st' = fz_timestamp st + 1 \<and>
        fz_memo st' = (fz_memo st)[c := (fz_timestamp st + 1, update_info call)] \<and>
        fz_called st' = Suc (fz_called st) \<and> fz_waited st' = fz_waited st \<and>
        fuzz_inv n keys tot as (cur(c := call)) st')"
proof -
  from su have room: "2 * tot + 2 < 2 ^ 64" and len: "length keys = n" and n: "0 < n"
    and ne: "\<And>c. c < n \<Longrightarrow> keys ! c \<noteq> []" by (auto simp: fuzz_setup_def)
  note ts = next_timestamp [OF inv room]
  note I = inv [unfolded fuzz_inv_def]
  let ?st = "st\<lparr>fz_timestamp := fz_timestamp st + 1, fz_rng := g\<rparr>"
  from ret obtain r where r: "gen_rand_client dbg rng (fz_flying st) False g = Some r"
    by (auto simp: fuzz_call_def split: option.splits)
  have "fz_flying st \<noteq> []" using I n by auto
  from gen_rand_client_no_panic [OF r ok this] free obtain c g1 where
    c: "r = Ok (c, g1)" "c < n" "\<not> fz_flying st ! c" using I by auto
  obtain call stats g2 where
    call: "gen_rand_kvcall dbg rng (keys ! c) (fz_stats st) c g1 = Ok (call, stats, g2)"
      "call_over (keys ! c) call" "stats_acct keys (Suc (fz_called st)) stats"
    using gen_rand_kvcall_ok [OF ok, of c keys "fz_called st" "fz_stats st" dbg g1] c(2) len ne I room
    by auto
  have inc: "(usize_add dbg (fz_called st) 1 :: (nat, RunnerError) run) = Ok (Suc (fz_called st))"
    using lt room by (simp add: usize_add_def)
  show ?thesis
  proof (cases "send_call c call (fz_sys st)")
    case (Err e)
    with ret r c call len I show ?thesis by (auto simp: fuzz_call_def)
  next
    case Panic
    with send_call_no_panic [of c "fz_sys st" call] c(2) I show ?thesis by auto
  next
    case (Ok s)
    define st' where "st' = ?st\<lparr>fz_memo := (fz_memo st)[c := (fz_timestamp st + 1, update_info call)],
        fz_flying := (fz_flying st)[c := True], fz_called := Suc (fz_called st),
        fz_stats := stats, fz_sys := s, fz_rng := g2\<rparr>"
    have res: "res = run.Ok (True, st')"
      using ret r c call len Ok inc I [THEN conjunct2, THEN conjunct2, THEN conjunct1]
      by (simp add: fuzz_call_def st'_def)
    have new: "flight_inv keys as (fz_timestamp st + 1) c call (fz_timestamp st + 1, update_info call)"
      using I ts(1) call(2) by (auto simp: flight_inv_def acks_inv_def word_gt_0)
    have "\<forall>d < n. (fz_flying st)[c := True] ! d \<longrightarrow>
        flight_inv keys as (fz_timestamp st + 1) d ((cur(c := call)) d)
          ((fz_memo st)[c := (fz_timestamp st + 1, update_info call)] ! d)"
      using I new flight_inv_later [OF _ less_imp_le [OF ts(1)]] by (auto simp: nth_list_update)
    moreover have "acks_inv n keys as (fz_timestamp st + 1)"
      using I acks_inv_later [OF _ less_imp_le [OF ts(1)]] by blast
    ultimately have "fuzz_inv n keys tot as (cur(c := call)) st'"
      using I lt c(2,3) call(3) ts(2) send_call_length [OF Ok] count_flying_set [of c "fz_flying st"]
      by (simp add: fuzz_inv_def st'_def)
    with res Ok c call show ?thesis by (auto simp: st'_def)
  qed
qed

section \<open>A harvested response\<close>

lemma wf_acks_snoc:
  "wf_acks n pool (as @ [a]) \<longleftrightarrow>
     wf_acks n pool as \<and> ack_ok n pool a \<and> (\<forall>b \<in> set as. ak_ts_resp b < ak_ts_resp a) \<and>
     (\<forall>b \<in> set as. ak_cidx b = ak_cidx a \<longrightarrow> ak_ts_resp b < ak_ts_call a)"
  by (auto simp: wf_acks_def sorted_wrt_append)

lemma call_over_pool:
  assumes "call_over (keys ! c) call" and "c < length keys" and "update_info call = Some (k, v)"
  shows "k \<in> set (key_pool n keys)"
  using assms by (cases call) (auto simp: key_pool_props(3))

text \<open>The operation that the harvest of client \<open>c\<close> adds to the run.\<close>

definition harvested :: "('w, 'g) fuzz \<Rightarrow> (nat \<Rightarrow> KvCall) \<Rightarrow> nat \<Rightarrow> KvResp \<Rightarrow> ack" where
  "harvested st cur c resp =
     \<lparr>ak_cidx = c, ak_call = cur c, ak_ts_call = fst (fz_memo st ! c),
      ak_ts_resp = fz_timestamp st + 1, ak_resp = resp\<rparr>"

lemma acks_inv_harvest:
  assumes inv: "fuzz_inv n keys tot as cur st" and su: "fuzz_setup n keys tot"
    and c: "c < n" "fz_flying st ! c" and resp: "resp \<noteq> KvResp.Stop"
  shows "acks_inv n keys (as @ [harvested st cur c resp]) (fz_timestamp st + 1)"
proof -
  let ?a = "harvested st cur c resp" and ?t = "fz_timestamp st"
  note I = inv [unfolded fuzz_inv_def]
  from su have room: "2 * tot + 2 < 2 ^ 64" and len: "length keys = n" by (auto simp: fuzz_setup_def)
  note ts = next_timestamp [OF inv room]
  from I c have fl: "flight_inv keys as ?t c (cur c) (fz_memo st ! c)" and ai: "acks_inv n keys as ?t"
    by auto
  have "fst (fz_memo st ! c) < ?t + 1" using fl ts(1) by (auto simp: flight_inv_def)
  then have "ack_ok n (key_pool n keys) ?a"
    using fl c(1) len call_over_pool [of keys c "cur c" _ _ n]
    by (auto simp: ack_ok_def harvested_def flight_inv_def split: option.splits)
  moreover have old: "ak_ts_resp b < ?t + 1" if "b \<in> set as" for b
    using ai that ts(1) by (auto simp: acks_inv_def)
  moreover have "ak_ts_call b \<noteq> ?t + 1" if "b \<in> set as" for b
  proof -
    have "ak_ts_call b < ak_ts_resp b"
      using ai that by (auto simp: acks_inv_def wf_acks_def ack_ok_def list_all_iff)
    from less_trans [OF this old [OF that]] show ?thesis by simp
  qed
  ultimately show ?thesis
    using ai fl resp \<open>fst (fz_memo st ! c) < ?t + 1\<close>
    by (auto simp: acks_inv_def wf_acks_snoc ts_distinct_def harvested_def flight_inv_def
        dest: less_imp_le)
qed

lemma fuzz_harvest_record:
  assumes "c < length (fz_memo st)" and "snd (fz_memo st ! c) = update_info (cur c)"
    and "resp \<noteq> KvResp.Stop" and "fz_timestamp st1 = fz_timestamp st + 1"
    and "fz_memo st1 = fz_memo st" "fz_history st1 = fz_history st"
  shows "fuzz_harvest dbg tot c resp st1 =
     run_bind (record_ack dbg (fz_history st) (harvested st cur c resp)) (\<lambda>(verdict, h).
       case verdict of
         Some _ \<Rightarrow> Ok (False, st1\<lparr>fz_memo := (fz_memo st1)[c := (0, None)], fz_history := h,
                                  fz_passed := False\<rparr>)
       | None \<Rightarrow> run_bind (usize_add dbg (fz_waited st1) 1) (\<lambda>ops_waited.
           if tot div 100 = 0 then Panic
           else Ok (True, st1\<lparr>fz_memo := (fz_memo st1)[c := (0, None)], fz_history := h,
                             fz_flying := (fz_flying st1)[c := False], fz_waited := ops_waited\<rparr>)))"
proof -
  obtain tc u where m: "fz_memo st ! c = (tc, u)" by (cases "fz_memo st ! c")
  let ?q = "add_to_queue dbg (fz_history st) tc (fz_timestamp st + 1) resp"
  show ?thesis
    using assms m
    by (cases ?q; cases "update_info (cur c)")
       (auto simp: fuzz_harvest_def record_ack_def harvested_def)
qed

lemma flight_inv_harvest:
  assumes inv: "fuzz_inv n keys tot as cur st" and su: "fuzz_setup n keys tot"
    and d: "d < n" "fz_flying st ! d" "d \<noteq> c"
  shows "flight_inv keys (as @ [harvested st cur c resp]) (fz_timestamp st + 1) d (cur d) (fz_memo st ! d)"
proof -
  from su have room: "2 * tot + 2 < 2 ^ 64" by (auto simp: fuzz_setup_def)
  note ts = next_timestamp [OF inv room]
  have fd: "flight_inv keys as (fz_timestamp st) d (cur d) (fz_memo st ! d)"
    using inv d by (auto simp: fuzz_inv_def)
  then have "fst (fz_memo st ! d) \<noteq> fz_timestamp st + 1" using ts(1) by (auto simp: flight_inv_def)
  with flight_inv_later [OF fd less_imp_le [OF ts(1)]] d(3) show ?thesis
    by (auto simp: flight_inv_def harvested_def)
qed

lemma fuzz_inv_harvest:
  assumes inv: "fuzz_inv n keys tot as cur st" and su: "fuzz_setup n keys tot"
    and c: "c < n" "fz_flying st ! c" and resp: "resp \<noteq> KvResp.Stop" and s: "length (fst s) = n"
    and h: "hist_ok n (key_pool n keys) (as @ [harvested st cur c resp]) h"
  shows "fuzz_inv n keys tot (as @ [harvested st cur c resp]) cur
     (st\<lparr>fz_timestamp := fz_timestamp st + 1, fz_sys := s, fz_rng := g,
         fz_memo := (fz_memo st)[c := (0, None)], fz_history := h,
         fz_flying := (fz_flying st)[c := False], fz_waited := Suc (fz_waited st)\<rparr>)"
proof -
  let ?a = "harvested st cur c resp" and ?t = "fz_timestamp st"
  note I = inv [unfolded fuzz_inv_def]
  from su have room: "2 * tot + 2 < 2 ^ 64" by (auto simp: fuzz_setup_def)
  note ts = next_timestamp [OF inv room]
  have ai: "acks_inv n keys (as @ [?a]) (?t + 1)" by (rule acks_inv_harvest [OF inv su c resp])
  have "flight_inv keys (as @ [?a]) (?t + 1) d (cur d) (fz_memo st ! d)"
    if d: "d < n" "fz_flying st ! d" "d \<noteq> c" for d by (rule flight_inv_harvest [OF inv su d])
  with I c ts(2) ai h s count_flying_clear [of c "fz_flying st"] show ?thesis
    by (auto simp: fuzz_inv_def nth_list_update)
qed

lemma fuzz_harvest_step:
  assumes inv: "fuzz_inv n keys tot as cur st" and su: "fuzz_setup n keys tot"
    and lt: "fz_waited st < tot" and c: "c < n" "fz_flying st ! c" and s: "length (fst s) = n"
    and resp: "resp \<noteq> KvResp.Stop"
    and a_def: "a = harvested st cur c resp"
    and st1_def: "st1 = st\<lparr>fz_timestamp := fz_timestamp st + 1, fz_sys := s, fz_rng := g\<rparr>"
  shows "(\<exists>st'. fuzz_harvest dbg tot c resp st1 = Ok (True, st') \<and> fuzz_inv n keys tot (as @ [a]) cur st' \<and>
        fz_sys st' = s \<and> fz_timestamp st' = fz_timestamp st + 1 \<and> fz_called st' = fz_called st \<and>
        fz_waited st' = Suc (fz_waited st) \<and> fz_flying st' = (fz_flying st)[c := False] \<and>
        fz_memo st' = (fz_memo st)[c := (0, None)]) \<or>
     (\<exists>st' b. fuzz_harvest dbg tot c resp st1 = Ok (False, st') \<and> \<not> fz_passed st' \<and>
        fz_stats st' = fz_stats st \<and> b \<in> set (as @ [a]) \<and> ak_ts_resp b < frontier n (as @ [a]) \<and>
        \<not> offline_check n (key_pool n keys) (as @ [a]) b)"
proof -
  note I = inv [unfolded fuzz_inv_def]
  let ?pool = "key_pool n keys"
  have ai: "acks_inv n keys (as @ [a]) (fz_timestamp st + 1)"
    unfolding a_def by (rule acks_inv_harvest [OF inv su c resp])
  then have wf: "wf_acks n ?pool (as @ [a])" by (simp add: acks_inv_def)
  from I have hi: "hist_inv n ?pool as (fz_history st)"
    and past: "\<forall>b \<in> set as. ak_ts_resp b < frontier n as \<longrightarrow> offline_check n ?pool as b"
    by (auto simp: hist_ok_def)
  have u: "snd (fz_memo st ! c) = update_info (cur c)" using I c by (auto simp: flight_inv_def)
  have len: "c < length (fz_memo st)" using I c by simp
  have st1: "fz_timestamp st1 = fz_timestamp st + 1" "fz_memo st1 = fz_memo st"
    "fz_history st1 = fz_history st" "fz_waited st1 = fz_waited st" "fz_flying st1 = fz_flying st"
    by (simp_all add: st1_def)
  note eq = fuzz_harvest_record [of c st cur resp st1 dbg tot, OF len u resp st1(1-3), folded a_def,
      unfolded st1(2,4,5)]
  have inc: "(usize_add dbg (fz_waited st) 1 :: (nat, RunnerError) run) = Ok (Suc (fz_waited st))"
    and hundred: "tot div 100 \<noteq> 0" 
    using lt su by (auto simp: usize_add_def fuzz_setup_def div_greater_zero_iff)
  from record_ack_step [OF wf key_pool_props(2) hi past, of dbg] obtain verdict h where
    r: "record_ack dbg (fz_history st) a = Ok (verdict, h)"
    and o: "(verdict = None \<and> hist_ok n ?pool (as @ [a]) h) \<or>
      (\<exists>b \<in> set (as @ [a]). verdict = Some (Some (ak_resp b)) \<and>
         ak_ts_resp b < frontier n (as @ [a]) \<and> \<not> offline_check n ?pool (as @ [a]) b)"
    unfolding hist_ok_def by blast
  from o show ?thesis
  proof
    assume v: "verdict = None \<and> hist_ok n ?pool (as @ [a]) h"
    let ?st' = "st1\<lparr>fz_memo := (fz_memo st)[c := (0, None)], fz_history := h,
        fz_flying := (fz_flying st)[c := False], fz_waited := Suc (fz_waited st)\<rparr>"
    have "fuzz_harvest dbg tot c resp st1 = Ok (True, ?st')"
      using v inc hundred by (simp add: eq r)
    moreover have "fuzz_inv n keys tot (as @ [a]) cur ?st'"
      using fuzz_inv_harvest [OF inv su c resp s, of h g] v by (simp add: a_def st1_def)
    ultimately show ?thesis by (intro disjI1 exI [of _ ?st']) (simp add: st1_def)
  next
    assume "\<exists>b \<in> set (as @ [a]). verdict = Some (Some (ak_resp b)) \<and>
         ak_ts_resp b < frontier n (as @ [a]) \<and> \<not> offline_check n ?pool (as @ [a]) b"
    then obtain b where b: "b \<in> set (as @ [a])" "verdict = Some (Some (ak_resp b))"
      "ak_ts_resp b < frontier n (as @ [a])" "\<not> offline_check n ?pool (as @ [a]) b" by blast
    let ?st' = "st1\<lparr>fz_memo := (fz_memo st)[c := (0, None)], fz_history := h, fz_passed := False\<rparr>"
    have "fuzz_harvest dbg tot c resp st1 = Ok (False, ?st')" by (simp add: eq r b(2))
    moreover have "\<not> fz_passed ?st'" "fz_stats ?st' = fz_stats st" by (simp_all add: st1_def)
    ultimately show ?thesis using b(1,3,4) by blast
  qed
qed

section \<open>An iteration\<close>

lemma wait_resp_no_panic:
  "i < length (fst s) \<Longrightarrow> wait_resp os sched i s \<noteq> (Panic, s')"
proof (induction sched arbitrary: s)
  case Nil
  then show ?case
    by (cases s) (auto simp: wait_resp.simps poll_chan_def split: list.splits)
next
  case (Cons j js)
  then show ?case
    using Cons.IH [of "driver_step os j s"]
    by (cases s) (auto simp: wait_resp.simps [of os "j # js"] poll_chan_def split: list.splits)
qed

text \<open>When the fuzzer waits, some client has an operation on the fly.\<close>

lemma some_flying:
  assumes inv: "fuzz_inv n keys tot as cur st" and n: "0 < n" and lt: "fz_waited st < tot"
    and mk: "gen_call_vs_wait rng (fz_called st) tot (fz_flying st) g = (False, g')"
  shows "\<not> list_all (\<lambda>b. \<not> b) (fz_flying st)"
proof
  assume none: "list_all (\<lambda>b. \<not> b) (fz_flying st)"
  note I = inv [unfolded fuzz_inv_def]
  have "fz_flying st \<noteq> []" using I n by auto
  with none have "\<not> list_all (\<lambda>b. b) (fz_flying st)" by (cases "fz_flying st") auto
  with mk none have "fz_called st = tot" by (auto simp: gen_call_vs_wait_def split: if_splits)
  with I none lt show False by (auto simp: none_flying_iff)
qed

lemma fuzz_iter_cases:
  assumes inv: "fuzz_inv n keys tot as cur st" and su: "fuzz_setup n keys tot" and ok: "rng_ok rng"
    and lt: "fz_waited st < tot" and ret: "fuzz_iter dbg rng os tot keys st = Some res"
  shows "(\<exists>e c sched w s. res = Err e \<and> c < n \<and> fz_flying st ! c \<and>
        os_sched os (snd (fz_sys st)) = (sched, w) \<and>
        wait_resp os sched c (fst (fz_sys st), w) = (Err e, s)) \<or>
     (\<exists>g. fz_called st < tot \<and> \<not> list_all (\<lambda>b. b) (fz_flying st) \<and>
        fuzz_call dbg rng keys (st\<lparr>fz_timestamp := fz_timestamp st + 1, fz_rng := g\<rparr>) = Some res) \<or>
     (\<exists>c g sched w resp s. c < n \<and> fz_flying st ! c \<and> os_sched os (snd (fz_sys st)) = (sched, w) \<and>
        wait_resp os sched c (fst (fz_sys st), w) = (Ok resp, s) \<and> length (fst s) = n \<and>
        res = fuzz_harvest dbg tot c resp
                (st\<lparr>fz_timestamp := fz_timestamp st + 1, fz_sys := s, fz_rng := g\<rparr>))"
proof -
  from su have room: "2 * tot + 2 < 2 ^ 64" and n: "0 < n" by (auto simp: fuzz_setup_def)
  note ts = next_timestamp [OF inv room]
  note I = inv [unfolded fuzz_inv_def]
  obtain mk g where mk: "gen_call_vs_wait rng (fz_called st) tot (fz_flying st) (fz_rng st) = (mk, g)"
    by (cases "gen_call_vs_wait rng (fz_called st) tot (fz_flying st) (fz_rng st)")
  let ?st = "st\<lparr>fz_timestamp := fz_timestamp st + 1, fz_rng := g\<rparr>"
  show ?thesis
  proof (cases mk)
    case True
    with mk have "fz_called st \<noteq> tot" "\<not> list_all (\<lambda>b. b) (fz_flying st)"
      by (auto simp: gen_call_vs_wait_def split: if_splits)
    moreover have "fuzz_call dbg rng keys ?st = Some res"
      using ret ts(3) [of dbg] mk True by (simp add: fuzz_iter_def)
    ultimately show ?thesis using I by (intro disjI2 disjI1 exI [of _ g]) simp
  next
    case False
    have w: "fuzz_wait dbg rng os tot ?st = Some res"
      using ret ts(3) [of dbg] mk False by (simp add: fuzz_iter_def)
    then obtain r where r: "gen_rand_client dbg rng (fz_flying st) True g = Some r"
      by (auto simp: fuzz_wait_def split: option.splits)
    have "fz_flying st \<noteq> []" using I n by auto
    moreover have "\<not> list_all (\<lambda>b. \<not> b) (fz_flying st)"
      using some_flying [OF inv n lt] mk False by simp
    ultimately obtain c g1 where c: "r = Ok (c, g1)" "c < n" "fz_flying st ! c"
      using gen_rand_client_no_panic [OF r ok] I by auto
    obtain sched w' where sc: "os_sched os (snd (fz_sys st)) = (sched, w')"
      by (cases "os_sched os (snd (fz_sys st))")
    obtain wr s where wr: "wait_resp os sched c (fst (fz_sys st), w') = (wr, s)"
      by (cases "wait_resp os sched c (fst (fz_sys st), w')")
    have len: "length (fst s) = n" using wait_resp_length [OF wr] I by simp
    have res: "res = run_bind wr (\<lambda>resp. fuzz_harvest dbg tot c resp
        (st\<lparr>fz_timestamp := fz_timestamp st + 1, fz_sys := s, fz_rng := g1\<rparr>))"
      using w r c(1) sc wr by (simp add: fuzz_wait_def)
    show ?thesis
    proof (cases wr)
      case (Ok resp)
      have "wait_resp os sched c (fst (fz_sys st), w') = (Ok resp, s)" by (simp add: wr Ok)
      moreover have "res = fuzz_harvest dbg tot c resp
          (st\<lparr>fz_timestamp := fz_timestamp st + 1, fz_sys := s, fz_rng := g1\<rparr>)" by (simp add: res Ok)
      ultimately show ?thesis using c(2,3) sc len by blast
    next
      case (Err e)
      with c(2,3) sc wr show ?thesis by (auto simp: res)
    next
      case Panic
      with wait_resp_no_panic [of c "(fst (fz_sys st), w')" os sched s] wr c(2) I show ?thesis by auto
    qed
  qed
qed

section \<open>The run behind the harvested operations\<close>

definition of_client :: "nat \<Rightarrow> ack list \<Rightarrow> ack list" where
  "of_client c as = filter (\<lambda>a. ak_cidx a = c) as"

text \<open>
  The fuzzer's clients are in a state that some interleaving of the fuzzer and the driver threads
  leads to, in which every client was sent the calls, and gave the responses, that the fuzzer has on
  record.
\<close>

definition trace_inv ::
  "'w os \<Rightarrow> 'w sys \<Rightarrow> nat \<Rightarrow> ack list \<Rightarrow> (nat \<Rightarrow> KvCall) \<Rightarrow> ('w, 'g) fuzz \<Rightarrow> bool" where
  "trace_inv os s0 n as cur st \<longleftrightarrow>
     (\<exists>tr. sys_run os s0 tr (fz_sys st) \<and>
        (\<forall>c < n. got_by c tr = map ak_resp (of_client c as) \<and>
           sent_by c tr = map ak_call (of_client c as) @ (if fz_flying st ! c then [cur c] else [])))"

lemma trace_inv_call:
  assumes tr: "trace_inv os s0 n as cur st" and len: "length (fz_flying st) = n"
    and c: "c < n" "\<not> fz_flying st ! c" and send: "send_call c call (fz_sys st) = Ok (fz_sys st')"
    and fl: "fz_flying st' = (fz_flying st)[c := True]"
  shows "trace_inv os s0 n as (cur(c := call)) st'"
proof -
  from tr obtain tr where run: "sys_run os s0 tr (fz_sys st)"
    and t: "\<forall>d < n. got_by d tr = map ak_resp (of_client d as) \<and>
      sent_by d tr = map ak_call (of_client d as) @ (if fz_flying st ! d then [cur d] else [])"
    by (auto simp: trace_inv_def)
  from t c len show ?thesis
    unfolding trace_inv_def fl
    by (intro exI [of _ "tr @ [Sent c call]"] conjI run_send [OF run send])
       (auto simp: nth_list_update)
qed

lemma trace_run_wait:
  assumes run: "sys_run os s0 tr s" and sc: "os_sched os (snd s) = (sched, w)"
    and wr: "wait_resp os sched c (fst s, w) = (Ok resp, s')"
  shows "\<exists>tr'. sys_run os s0 tr' s' \<and>
     (\<forall>d. sent_by d tr' = sent_by d tr \<and> got_by d tr' = got_by d tr @ (if d = c then [resp] else []))"
proof -
  have "sys_run os s0 tr (fst s, w)" using run_sched [of os s0 tr "fst s" "snd s" sched w] run sc by simp
  from wait_resp_in_run [OF this wr] obtain tr1 where
    "sys_run os s0 (tr @ tr1 @ [Got c resp]) s'" "\<forall>j. sent_by j tr1 = [] \<and> got_by j tr1 = []" by blast
  then show ?thesis by (intro exI [of _ "tr @ tr1 @ [Got c resp]"]) auto
qed

lemma trace_inv_harvest:
  assumes tr: "trace_inv os s0 n as cur st" and len: "length (fz_flying st) = n"
    and c: "c < n" "fz_flying st ! c" and sc: "os_sched os (snd (fz_sys st)) = (sched, w)"
    and wr: "wait_resp os sched c (fst (fz_sys st), w) = (Ok resp, fz_sys st')"
    and fl: "fz_flying st' = (fz_flying st)[c := False]"
    and a: "ak_cidx a = c" "ak_call a = cur c" "ak_resp a = resp"
  shows "trace_inv os s0 n (as @ [a]) cur st'"
proof -
  from tr obtain tr where run: "sys_run os s0 tr (fz_sys st)"
    and t: "\<forall>d < n. got_by d tr = map ak_resp (of_client d as) \<and>
      sent_by d tr = map ak_call (of_client d as) @ (if fz_flying st ! d then [cur d] else [])"
    by (auto simp: trace_inv_def)
  from trace_run_wait [OF run sc wr] obtain tr' where "sys_run os s0 tr' (fz_sys st')"
    and "\<forall>d. sent_by d tr' = sent_by d tr \<and> got_by d tr' = got_by d tr @ (if d = c then [resp] else [])"
    by blast
  with t c a len show ?thesis
    unfolding trace_inv_def fl
    by (intro exI [of _ tr']) (auto simp: of_client_def nth_list_update)
qed

text \<open>The harvested operations are true to the run: they pair each call with the answer to it.\<close>

definition acks_true :: "'w os \<Rightarrow> 'w sys \<Rightarrow> nat \<Rightarrow> ack list \<Rightarrow> bool" where
  "acks_true os s0 n as \<longleftrightarrow>
     (\<exists>tr s. sys_run os s0 tr s \<and>
        (\<forall>c < n. prefix (map (\<lambda>a. (ak_call a, ak_resp a)) (of_client c as)) (answered_by c tr)))"

definition fresh_sys :: "nat \<Rightarrow> 'w sys \<Rightarrow> bool" where
  "fresh_sys n s \<longleftrightarrow> length (fst s) = n \<and>
     (\<forall>cp \<in> set (fst s). ch_items (cp_call cp) = [] \<and> ch_items (cp_resp cp) = [])"

lemma prefix_pairs:
  assumes "prefix (map fst ps) xs" and "prefix ys (map snd ps)" and "prefix zs xs" "length zs = length ys"
  shows "prefix (zip zs ys) ps"
proof -
  have len: "length ys \<le> length ps" using prefix_length_le [OF assms(2)] by simp
  have "zs = take (length ys) xs" using assms(3,4) by (metis append_eq_conv_conj prefix_def)
  moreover from assms(1) have "take (length ps) xs = map fst ps"
    by (metis append_eq_conv_conj length_map prefix_def)
  ultimately have "zs = take (length ys) (map fst ps)" using len
    by (metis min.absorb1 take_take)
  moreover have "ys = take (length ys) (map snd ps)" using assms(2) by (metis append_eq_conv_conj prefix_def)
  ultimately have "zip zs ys = take (length ys) (zip (map fst ps) (map snd ps))" by (metis take_zip)
  then show ?thesis by (simp add: zip_map_fst_snd take_is_prefix)
qed

lemma trace_inv_true:
  assumes tr: "trace_inv os s0 n as cur st" and fresh: "fresh_sys n s0"
  shows "acks_true os s0 n as"
proof -
  from tr obtain tr where run: "sys_run os s0 tr (fz_sys st)"
    and t: "\<And>c. c < n \<Longrightarrow> got_by c tr = map ak_resp (of_client c as)"
      "\<And>c. c < n \<Longrightarrow> sent_by c tr = map ak_call (of_client c as) @ (if fz_flying st ! c then [cur c] else [])"
    by (auto simp: trace_inv_def)
  have "prefix (map (\<lambda>a. (ak_call a, ak_resp a)) (of_client c as)) (answered_by c tr)" if c: "c < n" for c
  proof -
    have "fifo_inv c tr (fst (fz_sys st) ! c)"
      by (rule sys_run_fifo [OF run]) (use fresh c in \<open>auto simp: fresh_sys_def\<close>)
    then have "prefix (map fst (answered_by c tr)) (sent_by c tr)"
        "prefix (got_by c tr) (map snd (answered_by c tr))" by (auto simp: fifo_inv_def)
    moreover have "prefix (map ak_call (of_client c as)) (sent_by c tr)" using t(2) [OF c] by simp
    ultimately have "prefix (zip (map ak_call (of_client c as)) (got_by c tr)) (answered_by c tr)"
      using t(1) [OF c] by (intro prefix_pairs) simp_all
    then show ?thesis using t(1) [OF c] 
      by (simp add: zip_map_map map_zip_map zip_same_conv_map comp_def)
  qed
  with run show ?thesis unfolding acks_true_def by blast
qed

section \<open>The loop\<close>

text \<open>
  Why a test fails: a client answered \<open>STOP\<close>, or a harvested operation below the frontier fails
  its check over the complete history.
\<close>

definition fuzz_flaw :: "nat \<Rightarrow> string list list \<Rightarrow> 'w os \<Rightarrow> 'w sys \<Rightarrow> bool" where
  "fuzz_flaw n keys os s0 \<longleftrightarrow>
     (\<exists>tr s c. sys_run os s0 tr s \<and> KvResp.Stop \<in> set (got_by c tr)) \<or>
     (\<exists>as t b. acks_inv n keys as t \<and> acks_true os s0 n as \<and> b \<in> set as \<and>
        ak_ts_resp b < frontier n as \<and> \<not> offline_check n (key_pool n keys) as b)"

definition fuzz_J ::
  "nat \<Rightarrow> string list list \<Rightarrow> nat \<Rightarrow> 'g rng_ops \<Rightarrow> 'w os \<Rightarrow> 'w sys \<Rightarrow> ('w, 'g) fuzz \<Rightarrow> bool" where
  "fuzz_J n keys tot rng os s0 st \<longleftrightarrow>
     fuzz_setup n keys tot \<and> rng_ok rng \<and> fresh_sys n s0 \<and>
     (\<exists>as cur. fuzz_inv n keys tot as cur st \<and> trace_inv os s0 n as cur st)"

definition fuzz_left :: "nat \<Rightarrow> ('w, 'g) fuzz \<Rightarrow> nat" where
  "fuzz_left tot st = 2 * tot - (fz_called st + fz_waited st)"

lemma fuzz_left_less:
  assumes "fuzz_inv n keys tot as cur st" and "fz_waited st < tot"
    and "fz_called st' + fz_waited st' = Suc (fz_called st + fz_waited st)"
  shows "fuzz_left tot st' < fuzz_left tot st"
  using assms by (auto simp: fuzz_left_def fuzz_inv_def)

lemma fuzz_J_harvest:
  assumes J: "fuzz_setup n keys tot" "rng_ok rng" "fresh_sys n s0" "fuzz_inv n keys tot as cur st"
      "trace_inv os s0 n as cur st"
    and lt: "fz_waited st < tot" and c: "c < n" "fz_flying st ! c"
    and sc: "os_sched os (snd (fz_sys st)) = (sched, w)"
    and wr: "wait_resp os sched c (fst (fz_sys st), w) = (Ok resp, s)" "length (fst s) = n"
    and ns: "resp \<noteq> KvResp.Stop"
    and res: "res = fuzz_harvest dbg tot c resp (st\<lparr>fz_timestamp := fz_timestamp st + 1, fz_sys := s, fz_rng := g\<rparr>)"
  shows "(\<exists>st'. res = Ok (True, st') \<and> fuzz_J n keys tot rng os s0 st' \<and> fuzz_left tot st' < fuzz_left tot st) \<or>
     (\<exists>st'. res = Ok (False, st') \<and> \<not> fz_passed st' \<and> fuzz_flaw n keys os s0)"
proof -
  let ?a = "harvested st cur c resp"
  have len: "length (fz_flying st) = n" using J(4) by (simp add: fuzz_inv_def)
  have hv: "ak_cidx ?a = c" "ak_call ?a = cur c" "ak_resp ?a = resp" by (simp_all add: harvested_def)
  have true: "trace_inv os s0 n (as @ [?a]) cur st'" if "fz_sys st' = s"
      "fz_flying st' = (fz_flying st)[c := False]" for st'
    using trace_inv_harvest [OF J(5) len c sc _ that(2) hv] wr(1) that(1) by simp
  from fuzz_harvest_step [OF J(4,1) lt c wr(2) ns refl refl, of dbg g] show ?thesis
    unfolding res [symmetric]
  proof (elim disjE exE conjE)
    fix st'
    assume st': "res = Ok (True, st')" "fuzz_inv n keys tot (as @ [?a]) cur st'" "fz_sys st' = s"
      "fz_called st' = fz_called st" "fz_waited st' = Suc (fz_waited st)"
      "fz_flying st' = (fz_flying st)[c := False]"
    with true [of st'] J fuzz_left_less [OF J(4) lt, of st'] show ?thesis by (auto simp: fuzz_J_def)
  next
    fix st' b
    assume st': "res = Ok (False, st')" "\<not> fz_passed st'" "b \<in> set (as @ [?a])"
      "ak_ts_resp b < frontier n (as @ [?a])" "\<not> offline_check n (key_pool n keys) (as @ [?a]) b"
    have "acks_true os s0 n (as @ [?a])"
      using trace_inv_true [OF true J(3), of "st\<lparr>fz_sys := s, fz_flying := (fz_flying st)[c := False]\<rparr>"]
      by simp
    with st' acks_inv_harvest [OF J(4,1) c ns] have "fuzz_flaw n keys os s0"
      unfolding fuzz_flaw_def by blast
    with st'(1,2) show ?thesis by blast
  qed
qed

lemma fuzz_J_step:
  assumes J: "fuzz_J n keys tot rng os s0 st" and lt: "fz_waited st < tot"
    and ret: "fuzz_iter dbg rng os tot keys st = Some res"
  shows "(\<exists>e. res = Err e) \<or>
     (\<exists>st'. res = Ok (True, st') \<and> fuzz_J n keys tot rng os s0 st' \<and> fuzz_left tot st' < fuzz_left tot st) \<or>
     (\<exists>st'. res = Ok (False, st') \<and> \<not> fz_passed st' \<and> fuzz_flaw n keys os s0)"
proof -
  from J obtain as cur where su: "fuzz_setup n keys tot" and ok: "rng_ok rng"
    and fresh: "fresh_sys n s0" and inv: "fuzz_inv n keys tot as cur st"
    and tr: "trace_inv os s0 n as cur st" by (auto simp: fuzz_J_def)
  have len: "length (fz_flying st) = n" using inv by (simp add: fuzz_inv_def)
  from fuzz_iter_cases [OF inv su ok lt ret] consider (err) e where "res = Err e"
    | (call) g where "fz_called st < tot" "\<not> list_all (\<lambda>b. b) (fz_flying st)"
        "fuzz_call dbg rng keys (st\<lparr>fz_timestamp := fz_timestamp st + 1, fz_rng := g\<rparr>) = Some res"
    | (wait) c g sched w resp s where "c < n" "fz_flying st ! c" "os_sched os (snd (fz_sys st)) = (sched, w)"
        "wait_resp os sched c (fst (fz_sys st), w) = (Ok resp, s)" "length (fst s) = n"
        "res = fuzz_harvest dbg tot c resp (st\<lparr>fz_timestamp := fz_timestamp st + 1, fz_sys := s, fz_rng := g\<rparr>)"
    by blast
  then show ?thesis
  proof cases
    case err
    then show ?thesis by blast
  next
    case call
    from fuzz_call_step [OF inv su ok call] show ?thesis
    proof (elim disjE exE conjE)
      fix c cl st'
      assume st': "res = Ok (True, st')" "c < n" "\<not> fz_flying st ! c" "send_call c cl (fz_sys st) = Ok (fz_sys st')"
        "fz_flying st' = (fz_flying st)[c := True]" "fz_called st' = Suc (fz_called st)"
        "fz_waited st' = fz_waited st" "fuzz_inv n keys tot as (cur(c := cl)) st'"
      have "trace_inv os s0 n as (cur(c := cl)) st'" by (rule trace_inv_call [OF tr len st'(2-5)])
      with st' su ok fresh fuzz_left_less [OF inv lt, of st'] show ?thesis by (auto simp: fuzz_J_def)
    qed blast
  next
    case wait
    show ?thesis
    proof (cases "resp = KvResp.Stop")
      case True
      from tr obtain tr' where "sys_run os s0 tr' (fz_sys st)" by (auto simp: trace_inv_def)
      from trace_run_wait [OF this wait(3,4)] obtain tr'' where
        "sys_run os s0 tr'' s" "KvResp.Stop \<in> set (got_by c tr'')" using True by fastforce
      then have "fuzz_flaw n keys os s0" unfolding fuzz_flaw_def by blast
      with wait(6) True show ?thesis by (simp add: fuzz_harvest_def)
    next
      case False
      from fuzz_J_harvest [OF su ok fresh inv tr lt wait(1-5) False wait(6)] show ?thesis by blast
    qed
  qed
qed

interpretation fl: break_loop
  "fuzz_iter dbg rng os tot keys" "\<lambda>st. fz_waited st < tot" "fuzz_loop dbg rng os tot keys"
  "fuzz_J n keys tot rng os s0" "\<lambda>st. \<not> fz_passed st \<and> fuzz_flaw n keys os s0" "fuzz_left tot"
  for dbg and rng :: "'g rng_ops" and os :: "'w os" and tot keys n s0
proof
  show "fuzz_loop dbg rng os tot keys st =
      (if fz_waited st < tot then
         (case fuzz_iter dbg rng os tot keys st of
            None \<Rightarrow> None
          | Some (Err e) \<Rightarrow> Some (Err e)
          | Some Panic \<Rightarrow> Some Panic
          | Some (Ok (continue, st')) \<Rightarrow>
              if continue then fuzz_loop dbg rng os tot keys st' else Some (Ok st'))
       else Some (Ok st))" for st
    by (rule fuzz_loop.simps)
qed (use fuzz_J_step in blast)

lemma fuzz_iter_live:
  assumes inv: "fuzz_inv n keys tot as cur st" and su: "fuzz_setup n keys tot"
    and ok: "rng_ok rng" and fair: "rng_fair rng" and lt: "fz_waited st < tot"
  shows "fuzz_iter dbg rng os tot keys st \<noteq> None"
proof -
  from su have room: "2 * tot + 2 < 2 ^ 64" and n: "0 < n" by (auto simp: fuzz_setup_def)
  note ts = next_timestamp [OF inv room]
  note I = inv [unfolded fuzz_inv_def]
  obtain mk g where mk: "gen_call_vs_wait rng (fz_called st) tot (fz_flying st) (fz_rng st) = (mk, g)"
    by (cases "gen_call_vs_wait rng (fz_called st) tot (fz_flying st) (fz_rng st)")
  have "\<exists>c < length (fz_flying st). fz_flying st ! c = (\<not> mk)"
  proof (cases mk)
    case True
    with mk have "\<not> list_all (\<lambda>b. b) (fz_flying st)" by (auto simp: gen_call_vs_wait_def split: if_splits)
    with True show ?thesis by (auto simp: list_all_length)
  next
    case False
    have "\<not> list_all (\<lambda>b. \<not> b) (fz_flying st)"
      using some_flying [OF inv n lt] mk False by simp
    with False show ?thesis by (auto simp: list_all_length)
  qed
  then obtain c where "c < length (fz_flying st)" "fz_flying st ! c = (\<not> mk)" by blast
  from gen_rand_client_returns [OF ok fair this, of dbg g] obtain r where
    "gen_rand_client dbg rng (fz_flying st) (\<not> mk) g = Some r" by blast
  with ts(3) [of dbg] mk show ?thesis
    by (cases mk) (auto simp: fuzz_iter_def fuzz_call_def fuzz_wait_def)
qed

lemma fuzz_loop_returns:
  assumes "fuzz_J n keys tot rng os s0 st" and "rng_fair rng"
  shows "\<exists>res. fuzz_loop dbg rng os tot keys st = Some res"
  using assms fuzz_iter_live by (intro fl.returns) (auto simp: fuzz_J_def)

lemma fuzz_J_init:
  assumes "fuzz_setup n keys tot" and "rng_ok rng" and "fresh_sys n s"
  shows "fuzz_J n keys tot rng os s (fuzz_init keys (stats_new keys) s g)"
proof -
  have n: "length (fst s) = n" using assms(3) by (simp add: fresh_sys_def)
  let ?st = "fuzz_init keys (stats_new keys) s g"
  have "trace_inv os s n [] (\<lambda>_. KvCall.Stop) ?st"
    unfolding trace_inv_def using n
    by (intro exI [of _ "[]"]) (simp add: fuzz_init_def Let_def of_client_def run_init)
  moreover have "fuzz_inv n keys tot [] (\<lambda>_. KvCall.Stop) ?st" by (rule fuzz_inv_init [OF n])
  ultimately show ?thesis unfolding fuzz_J_def using assms by (intro conjI exI)
qed

text \<open>What is known when the loop has ended without a failure.\<close>

lemma fuzz_J_end:
  assumes "fuzz_J n keys tot rng os s0 st" and "\<not> fz_waited st < tot"
  shows "\<exists>as t. length as = tot \<and> acks_inv n keys as t \<and> acks_true os s0 n as \<and>
     (\<forall>a \<in> set as. ak_ts_resp a < frontier n as \<longrightarrow> offline_check n (key_pool n keys) as a) \<and>
     queue_len (fz_history st) = length (filter (\<lambda>a. frontier n as \<le> ak_ts_resp a) as) \<and>
     stats_acct keys tot (fz_stats st) \<and> fz_passed st"
proof -
  from assms(1) obtain as cur where inv: "fuzz_inv n keys tot as cur st"
    and tr: "trace_inv os s0 n as cur st" and fresh: "fresh_sys n s0" by (auto simp: fuzz_J_def)
  note I = inv [unfolded fuzz_inv_def]
  have "fz_waited st = tot" "fz_called st = tot" using I assms(2) by auto
  moreover have "queue_len (fz_history st) = length (filter (\<lambda>a. frontier n as \<le> ak_ts_resp a) as)"
    using I by (simp add: hist_ok_def hist_inv_def queue_len_def open_entries_def filter_map comp_def)
  ultimately show ?thesis using I trace_inv_true [OF tr fresh] unfolding hist_ok_def by metis
qed

section \<open>Stopping the clients\<close>

lemma client_drop_length [simp]: "length (fst (client_drop i s)) = length (fst s)"
  by (cases s) (simp add: client_drop_def)

lemma client_stop_no_panic:
  assumes "\<And>pid w. fst (os_kill os pid w) \<noteq> Panic" and "i < length (fst s)"
    and "client_stop os sched i s = (res, s')"
  shows "res \<noteq> Panic \<and> length (fst s') = length (fst s)"
proof -
  show ?thesis
  proof (cases "send_call i KvCall.Stop s")
    case (Ok s1)
    have l1: "length (fst s1) = length (fst s)" by (rule send_call_length [OF Ok])
    obtain r s2 where w: "wait_resp os sched i s1 = (r, s2)" by (cases "wait_resp os sched i s1")
    have l2: "length (fst s2) = length (fst s)" using wait_resp_length [OF w] l1 by simp
    have np: "r \<noteq> Panic" using wait_resp_no_panic [of i s1 os sched s2] w l1 assms(2) by auto
    obtain cs w2 where s2: "s2 = (cs, w2)" by (cases s2)
    have "io_question (fst (os_kill os pid w)) \<noteq> Panic" for pid w
      using assms(1) [of pid w] by (cases "fst (os_kill os pid w)") auto
    with assms(3) Ok w np l2 show ?thesis
      by (auto simp: client_stop_def s2 split: run.splits if_splits prod.splits) (metis fst_conv)+
  next
    case (Err e)
    with assms(3) show ?thesis by (auto simp: client_stop_def)
  next
    case Panic
    with send_call_no_panic [OF assms(2)] show ?thesis by blast
  qed
qed

lemma stop_clients_no_panic:
  assumes "\<And>pid w. fst (os_kill os pid w) \<noteq> Panic" and "\<forall>i \<in> set is. i < length (fst s)"
  shows "fst (stop_clients os is s) \<noteq> Panic"
  using assms(2)
proof (induction "is" arbitrary: s)
  case (Cons i "is")
  obtain cs w where s: "s = (cs, w)" by (cases s)
  obtain sched w' where sc: "os_sched os w = (sched, w')" by (cases "os_sched os w")
  obtain r s' where r: "client_stop os sched i (cs, w') = (r, s')" by (cases "client_stop os sched i (cs, w')")
  from client_stop_no_panic [OF assms(1) _ r] Cons.prems s have "r \<noteq> Panic" "length (fst s') = length cs"
    by auto
  with Cons s sc r show ?case by (cases r) auto
qed simp

section \<open>Keys and clients of the main function\<close>

definition key_ok :: "string \<Rightarrow> bool" where
  "key_ok k \<longleftrightarrow> length k = KEY_LEN \<and> list_all is_alphanumeric k"

lemma digit_alphanumeric: "d < 10 \<Longrightarrow> is_alphanumeric (digit_char d)"
  by (simp add: is_alphanumeric_def digit_char_def)

lemma conflict_key_ok:
  assumes "i < 100000"
  shows "key_ok (conflict_key i)"
proof -
  have "length (pad_zeros 5 i) = 5" using assms by (intro length_pad_zeros) simp_all
  moreover have "list_all is_alphanumeric (show_nat i)"
    using show_nat_digits [of i] by (auto simp: list_all_iff dest!: bspec intro: digit_alphanumeric)
  then have "list_all is_alphanumeric (pad_zeros 5 i)"
    by (auto simp: pad_zeros_def list_all_iff digit_alphanumeric)
  moreover have "list_all is_alphanumeric ''key''" by (simp add: is_alphanumeric_def)
  ultimately show ?thesis by (simp add: key_ok_def conflict_key_def KEY_LEN_def)
qed

lemma gen_client_keys_ok:
  assumes ok: "rng_ok rng" and "\<forall>i \<in> set is. i < 100000"
  shows "\<exists>ks g'. gen_client_keys dbg rng confl is g = Ok (ks, g') \<and> length ks = length is \<and>
     list_all key_ok ks \<and> (confl \<longrightarrow> ks = map conflict_key is)"
  using assms(2)
proof (induction "is" arbitrary: g)
  case (Cons i "is")
  obtain k g1 where k: "(if confl then Ok (conflict_key i, g) else gen_rand_string dbg rng KEY_LEN g)
      = Ok (k, g1)" "key_ok k" "confl \<longrightarrow> k = conflict_key i"
    using gen_rand_string_ok [OF ok, of KEY_LEN dbg g] conflict_key_ok [of i] Cons.prems
    by (cases confl) (auto simp: key_ok_def KEY_LEN_def)
  obtain ks g2 where "gen_client_keys dbg rng confl is g1 = Ok (ks, g2)" "length ks = length is"
      "list_all key_ok ks" "confl \<longrightarrow> ks = map conflict_key is"
    using Cons.IH [of g1] Cons.prems by auto
  with k show ?case by simp
qed simp

lemma gen_keys_ok:
  assumes ok: "rng_ok rng" and "num_keys args < 100000"
  shows "\<exists>keys g'. gen_keys dbg rng args n g = Ok (keys, g') \<and> length keys = n \<and>
     (\<forall>ks \<in> set keys. length ks = num_keys args \<and> list_all key_ok ks \<and>
        (conflict args \<longrightarrow> ks = map conflict_key [0..<num_keys args]))"
proof (induction n arbitrary: g)
  case (Suc n)
  obtain ks g1 where "gen_client_keys dbg rng (conflict args) [0..<num_keys args] g = Ok (ks, g1)"
      "length ks = num_keys args" "list_all key_ok ks"
      "conflict args \<longrightarrow> ks = map conflict_key [0..<num_keys args]"
    using gen_client_keys_ok [OF ok, of "[0..<num_keys args]" dbg "conflict args" g] assms(2) by auto
  moreover obtain keys g2 where "gen_keys dbg rng args n g1 = Ok (keys, g2)" "length keys = n"
      "\<forall>ks \<in> set keys. length ks = num_keys args \<and> list_all key_ok ks \<and>
        (conflict args \<longrightarrow> ks = map conflict_key [0..<num_keys args])"
    using Suc.IH [of g1] by blast
  ultimately show ?case by simp
qed simp

text \<open>The system calls the fuzzer makes itself never panic.\<close>

definition os_sane :: "'w os \<Rightarrow> bool" where
  "os_sane os \<longleftrightarrow>
     (\<forall>args w. fst (os_spawn os args w) \<noteq> Panic) \<and> (\<forall>pid w. fst (os_kill os pid w) \<noteq> Panic)"

lemma new_clients_ok:
  assumes sane: "os_sane os"
    and "\<forall>cp \<in> set (fst s). ch_items (cp_call cp) = [] \<and> ch_items (cp_resp cp) = []"
  shows "new_clients os args n s \<noteq> Panic \<and>
     (\<forall>s'. new_clients os args n s = Ok s' \<longrightarrow> fresh_sys (length (fst s) + n) s')"
  using assms(2)
proof (induction n arbitrary: s)
  case 0
  then show ?case by (auto simp: fresh_sys_def)
next
  case (Suc n)
  obtain cs w where s: "s = (cs, w)" by (cases s)
  obtain r w' where sp: "os_spawn os (''just'' # args) w = (r, w')" by (cases "os_spawn os (''just'' # args) w")
  with sane have r: "r \<noteq> Panic" by (metis fst_conv os_sane_def)
  show ?case
  proof (cases r)
    case (Ok pid)
    let ?cp = "\<lparr>cp_handle = pid, cp_call = channel, cp_resp = channel,
        cp_stdout = \<lparr>rd_rest = [], rd_end = Blocks\<rparr>, cp_stopped = False, cp_driver = Running, cp_log = []\<rparr>"
    have "\<forall>cp \<in> set (fst (cs @ [?cp], w')). ch_items (cp_call cp) = [] \<and> ch_items (cp_resp cp) = []"
      using Suc.prems by (auto simp: s channel_def)
    from Suc.IH [OF this] Ok sp show ?thesis by (simp add: s client_new_def)
  qed (use sp r in \<open>simp_all add: s client_new_def\<close>)
qed

lemma total_ops_exact:
  assumes "fuzz_setup n keys (a * b)"
  shows "(usize_mul dbg a b :: (nat, RunnerError) run) = Ok (a * b)"
proof -
  have "a * b < 2 ^ 64" using assms unfolding fuzz_setup_def by linarith
  then show ?thesis by simp
qed

lemma fuzz_test_outcome:
  assumes ok: "rng_ok rng" and su: "fuzz_setup n keys (num_ops args * num_clis args)"
    and fresh: "fresh_sys n s" and kill: "\<And>pid w. fst (os_kill os pid w) \<noteq> Panic"
    and ret: "fuzz_test dbg rng os args keys (stats_new keys) s g = Some res"
  shows "res \<noteq> Panic \<and> (\<forall>stats. res = Ok (None, stats) \<longrightarrow> fuzz_flaw n keys os s)"
proof -
  let ?tot = "num_ops args * num_clis args" and ?st = "fuzz_init keys (stats_new keys) s g"
  note m = total_ops_exact [OF su, of dbg]
  from ret m obtain r where r: "fuzz_loop dbg rng os ?tot keys ?st = Some r"
    by (auto simp: fuzz_test_def split: option.splits)
  have J: "fuzz_J n keys ?tot rng os s ?st" by (rule fuzz_J_init [OF su ok fresh])
  from fl.outcome [OF J r] show ?thesis
  proof (elim disjE exE conjE)
    fix e assume "r = Err e"
    with ret m r show ?thesis by (auto simp: fuzz_test_def)
  next
    fix st assume st: "r = Ok st" "fuzz_J n keys ?tot rng os s st" "\<not> fz_waited st < ?tot"
    then have "fz_passed st" by (auto simp: fuzz_J_def fuzz_inv_def)
    moreover have "fst (stop_clients os [0..<length (fst (fz_sys st))] (fz_sys st)) \<noteq> Panic"
      by (rule stop_clients_no_panic [OF kill]) simp
    ultimately show ?thesis using ret m r st(1)
      by (cases "fst (stop_clients os [0..<length (fst (fz_sys st))] (fz_sys st))")
         (auto simp: fuzz_test_def)
  next
    fix st assume "r = Ok st" "\<not> fz_passed st" "fuzz_flaw n keys os s"
    with ret m r show ?thesis by (auto simp: fuzz_test_def)
  qed
qed

lemma fuzz_test_returns:
  assumes ok: "rng_ok rng" and fair: "rng_fair rng"
    and su: "fuzz_setup n keys (num_ops args * num_clis args)" and fresh: "fresh_sys n s"
  shows "\<exists>res. fuzz_test dbg rng os args keys (stats_new keys) s g = Some res"
proof -
  let ?tot = "num_ops args * num_clis args"
  note m = total_ops_exact [OF su, of dbg]
  from fuzz_loop_returns [OF fuzz_J_init [OF su ok fresh] fair, of dbg os g] m show ?thesis
    by (auto simp: fuzz_test_def)
qed

lemma fuzz_setup_args:
  assumes "0 < num_clis args" and "1000 \<le> num_ops args" and "length keys = num_clis args"
    and "\<forall>ks \<in> set keys. ks \<noteq> []" and "2 * (num_ops args * num_clis args) + 2 < 2 ^ 64"
  shows "fuzz_setup (num_clis args) keys (num_ops args * num_clis args)"
proof -
  have "1000 * 1 \<le> num_ops args * num_clis args" using assms(1,2) by (intro mult_le_mono) auto
  with assms show ?thesis by (simp add: fuzz_setup_def)
qed

section \<open>Properties\<close>

text \<open>
  C5. The fuzzer's main function returns. With valid arguments (those its assertions accept, and not
  so many operations that the time stamps overflow), a generator that draws every index sooner or
  later, and whatever the clients do, it returns, and never by a panic: neither the debug assertions
  of the history and of the random choices, nor an index, nor an overflow, nor the division by
  \<open>total_ops / 100\<close> fail.
\<close>

theorem fuzzer_main_returns:
  assumes "rng_ok rng" and "rng_fair rng" and "os_sane os"
    and "0 < num_clis args" and "0 < num_keys args" and "num_keys args < 100000"
    and "1000 \<le> num_ops args" and "2 * (num_ops args * num_clis args) + 2 < 2 ^ 64"
  shows "\<exists>res. fuzzer_main dbg rng os args w g = Some res \<and> res \<noteq> Panic"
proof -
  obtain keys g1 where keys: "gen_keys dbg rng args (num_clis args) g = Ok (keys, g1)"
      "length keys = num_clis args" "\<forall>ks \<in> set keys. length ks = num_keys args"
    using gen_keys_ok [OF assms(1,6), of dbg "num_clis args" g] by auto
  have su: "fuzz_setup (num_clis args) keys (num_ops args * num_clis args)"
    by (rule fuzz_setup_args [OF assms(4,7) keys(2) _ assms(8)]) (use keys(3) assms(5) in auto)
  have nc: "new_clients os (client_just_args args) (num_clis args) ([], w) \<noteq> Panic"
    "new_clients os (client_just_args args) (num_clis args) ([], w) = Ok s \<Longrightarrow> fresh_sys (num_clis args) s" for s
    using new_clients_ok [OF assms(3), of "([], w)" "client_just_args args" "num_clis args"] by auto
  show ?thesis
  proof (cases "new_clients os (client_just_args args) (num_clis args) ([], w)")
    case (Ok s)
    obtain r where r: "fuzz_test dbg rng os args keys (stats_new keys) s g1 = Some r"
      using fuzz_test_returns [OF assms(1,2) su nc(2) [OF Ok]] by blast
    moreover have "r \<noteq> Panic"
      using fuzz_test_outcome [OF assms(1) su nc(2) [OF Ok] _ r] assms(3) by (auto simp: os_sane_def)
    ultimately show ?thesis using assms keys Ok by (cases r) (auto simp: fuzzer_main_def)
  qed (use nc(1) assms keys in \<open>auto simp: fuzzer_main_def\<close>)
qed

theorem fuzzer_main_returns_witness:
  "\<exists>res. fuzzer_main True counter_rng script_os
      \<lparr>num_clis = 2, num_keys = 3, num_ops = 1000, conflict = True, client_just_args = [''kv'']\<rparr> [] 0
     = Some res \<and> res \<noteq> Panic"
  by (rule fuzzer_main_returns [OF counter_rng_ok counter_rng_fair])
     (simp_all add: os_sane_def script_os_def)

text \<open>
  C25. The pool of keys: every client gets the requested number of keys, each an alphanumeric word of
  \<open>KEY_LEN\<close> characters; with \<open>--conflict\<close> all clients get the same, pairwise distinct keys.
\<close>

theorem key_pool_generated:
  assumes "rng_ok rng" and "num_keys args < 100000"
  shows "\<exists>keys g'. gen_keys dbg rng args n g = Ok (keys, g') \<and> length keys = n \<and>
     (\<forall>ks \<in> set keys. length ks = num_keys args \<and> list_all key_ok ks \<and>
        (conflict args \<longrightarrow> ks = map conflict_key [0..<num_keys args] \<and> distinct ks))"
proof -
  have "distinct (map conflict_key [0..<num_keys args])"
    by (auto simp: distinct_map inj_on_def conflict_key_def pad_zeros_inj)
  then show ?thesis using gen_keys_ok [OF assms, of dbg n g] by metis
qed

theorem key_pool_generated_witness:
  "\<exists>keys g'. gen_keys False counter_rng
      \<lparr>num_clis = 2, num_keys = 12, num_ops = 1000, conflict = True, client_just_args = []\<rparr> 2 0
      = Ok (keys, g') \<and> length keys = 2 \<and> (\<forall>ks \<in> set keys. distinct ks)"
  using key_pool_generated [OF counter_rng_ok, of
      "\<lparr>num_clis = 2, num_keys = 12, num_ops = 1000, conflict = True, client_just_args = []\<rparr>" False 2 0]
  by auto

end
