(* ===== verification/BTree.thy ===== *)
theory BTree
  imports Prelude
begin

text \<open>
  The ordered collections of \<open>std::collections\<close> the sources use: \<open>BTreeMap\<close> (the state of the
  reference client) and \<open>BTreeSet\<close> (the inserted keys of the benchmark driver). A map is the list of
  its entries in ascending key order, a set the list of its elements in ascending order, which is
  the order their iterators have. The interface \<open>ordered_map\<close> states what the clients rely on, and
  is interpreted on these operations.
\<close>

section \<open>Ordered maps\<close>

type_synonym ('k, 'v) btree_map = "('k \<times> 'v) list"

text \<open>\<open>BTreeMap::insert\<close> returns the value it replaced.\<close>

fun bt_insert ::
  "'k::linorder \<Rightarrow> 'v \<Rightarrow> ('k, 'v) btree_map \<Rightarrow> 'v option \<times> ('k, 'v) btree_map" where
  "bt_insert k v [] = (None, [(k, v)])"
| "bt_insert k v ((a, b) # m) =
     (if k < a then (None, (k, v) # (a, b) # m)
      else if k = a then (Some b, (k, v) # m)
      else (let (old, m') = bt_insert k v m in (old, (a, b) # m')))"

text \<open>\<open>BTreeMap::remove\<close> returns the value it removed.\<close>

fun bt_remove ::
  "'k::linorder \<Rightarrow> ('k, 'v) btree_map \<Rightarrow> 'v option \<times> ('k, 'v) btree_map" where
  "bt_remove k [] = (None, [])"
| "bt_remove k ((a, b) # m) =
     (if k = a then (Some b, m) else (let (old, m') = bt_remove k m in (old, (a, b) # m')))"

fun bt_get :: "'k::linorder \<Rightarrow> ('k, 'v) btree_map \<Rightarrow> 'v option" where
  "bt_get k [] = None"
| "bt_get k ((a, b) # m) = (if k = a then Some b else bt_get k m)"

definition bt_contains_key :: "'k::linorder \<Rightarrow> ('k, 'v) btree_map \<Rightarrow> bool" where
  "bt_contains_key k m = (bt_get k m \<noteq> None)"

text \<open>\<open>BTreeMap::range(lo..hi)\<close>, which panics when the start is greater than the end.\<close>

definition bt_range ::
  "'k::linorder \<Rightarrow> 'k \<Rightarrow> ('k, 'v) btree_map \<Rightarrow> (('k \<times> 'v) list, string) run" where
  "bt_range lo hi m =
     (if hi < lo then Panic else Ok (filter (\<lambda>(k, _). lo \<le> k \<and> k < hi) m))"

definition bt_sorted :: "('k::linorder, 'v) btree_map \<Rightarrow> bool" where
  "bt_sorted m = sorted_wrt (<) (map fst m)"

section \<open>Ordered sets\<close>

type_synonym 'k btree_set = "'k list"

fun bs_insert :: "'k::linorder \<Rightarrow> 'k btree_set \<Rightarrow> 'k btree_set" where
  "bs_insert k [] = [k]"
| "bs_insert k (a # s) =
     (if k < a then k # a # s else if k = a then a # s else a # bs_insert k s)"

definition bs_extend :: "'k::linorder btree_set \<Rightarrow> 'k list \<Rightarrow> 'k btree_set" where
  "bs_extend s ks = fold bs_insert ks s"

text \<open>\<open>BTreeSet::range(lo..)\<close>.\<close>

definition bs_range_from :: "'k::linorder \<Rightarrow> 'k btree_set \<Rightarrow> 'k list" where
  "bs_range_from lo s = filter (\<lambda>k. lo \<le> k) s"

text \<open>\<open>Iterator::nth\<close> and \<open>BTreeSet::last\<close>.\<close>

definition iter_nth :: "'a list \<Rightarrow> nat \<Rightarrow> 'a option" where
  "iter_nth xs n = (if n < length xs then Some (xs ! n) else None)"

definition bs_last :: "'k btree_set \<Rightarrow> 'k option" where
  "bs_last s = (if s = [] then None else Some (last s))"

section \<open>The interface of an ordered map\<close>

locale ordered_map =
  fixes empty :: 'm
    and insert :: "'k::linorder \<Rightarrow> 'v \<Rightarrow> 'm \<Rightarrow> 'v option \<times> 'm"
    and remove :: "'k \<Rightarrow> 'm \<Rightarrow> 'v option \<times> 'm"
    and get :: "'k \<Rightarrow> 'm \<Rightarrow> 'v option"
    and range :: "'k \<Rightarrow> 'k \<Rightarrow> 'm \<Rightarrow> (('k \<times> 'v) list, string) run"
    and invar :: "'m \<Rightarrow> bool"
  assumes invar_empty: "invar empty"
    and get_empty: "get k empty = None"
    and insert_spec: "invar m \<Longrightarrow>
      fst (insert k v m) = get k m \<and> invar (snd (insert k v m)) \<and>
      (\<forall>x. get x (snd (insert k v m)) = (if x = k then Some v else get x m))"
    and remove_spec: "invar m \<Longrightarrow>
      fst (remove k m) = get k m \<and> invar (snd (remove k m)) \<and>
      (\<forall>x. get x (snd (remove k m)) = (if x = k then None else get x m))"
    and range_panic: "hi < lo \<Longrightarrow> range lo hi m = Panic"
    and range_Ok: "invar m \<Longrightarrow> lo \<le> hi \<Longrightarrow>
      \<exists>es. range lo hi m = Ok es \<and> sorted_wrt (<) (map fst es) \<and>
        set es = {(k, v). get k m = Some v \<and> lo \<le> k \<and> k < hi}"
begin

abbreviation view :: "'m \<Rightarrow> 'k \<Rightarrow> 'v option" where
  "view m k \<equiv> get k m"

lemma view_insert: "invar m \<Longrightarrow> view (snd (insert k v m)) = (view m)(k \<mapsto> v)"
  by (simp add: insert_spec fun_eq_iff)

lemma view_remove: "invar m \<Longrightarrow> view (snd (remove k m)) = (view m)(k := None)"
  by (simp add: remove_spec fun_eq_iff)

lemma insert_get: "invar m \<Longrightarrow> get k (snd (insert k v m)) = Some v"
  by (simp add: insert_spec)

lemma remove_insert_absent:
  "invar m \<Longrightarrow> get k m = None \<Longrightarrow> view (snd (remove k (snd (insert k v m)))) = view m"
  by (simp add: fun_eq_iff remove_spec insert_spec)

lemma range_map_of:
  assumes "invar m" "lo \<le> hi" "range lo hi m = Ok es"
  shows "map_of es k = (if lo \<le> k \<and> k < hi then get k m else None)"
proof -
  from range_Ok [OF assms(1,2)] assms(3)
  have s: "sorted_wrt (<) (map fst es)"
    and e: "set es = {(k, v). get k m = Some v \<and> lo \<le> k \<and> k < hi}" by auto
  from s have d: "distinct (map fst es)" by (simp add: strict_sorted_iff)
  show ?thesis
  proof (cases "map_of es k")
    case None
    then have "\<forall>v. (k, v) \<notin> set es" by (force simp: map_of_eq_None_iff)
    with e None show ?thesis by auto
  next
    case (Some v)
    then have "(k, v) \<in> set es" by (rule map_of_SomeD)
    with e Some show ?thesis by auto
  qed
qed

end

section \<open>The model implements the interface\<close>

lemma bt_get_eq_map_of: "bt_get k m = map_of m k"
  by (induction k m rule: bt_get.induct) auto

lemma bt_insert_Cons:
  "snd (bt_insert k v ((a, b) # m)) =
     (if k < a then (k, v) # (a, b) # m else if k = a then (k, v) # m
      else (a, b) # snd (bt_insert k v m))"
  "fst (bt_insert k v ((a, b) # m)) =
     (if k < a then None else if k = a then Some b else fst (bt_insert k v m))"
  by (simp_all split: prod.splits)

lemma bt_remove_Cons:
  "snd (bt_remove k ((a, b) # m)) = (if k = a then m else (a, b) # snd (bt_remove k m))"
  "fst (bt_remove k ((a, b) # m)) = (if k = a then Some b else fst (bt_remove k m))"
  by (simp_all split: prod.splits)

lemmas bt_Cons = bt_insert_Cons bt_remove_Cons bt_insert.simps(1) bt_remove.simps(1)

definition bt_keys :: "('k \<times> 'v) list \<Rightarrow> 'k set" where
  "bt_keys m = fst ` set m"

lemma bt_keys_simps [simp]:
  "bt_keys [] = {}" "bt_keys ((a, b) # m) = Set.insert a (bt_keys m)"
  by (simp_all add: bt_keys_def)

lemma bt_sorted_simps [simp]:
  "bt_sorted []"
  "bt_sorted ((a, b) # m) \<longleftrightarrow> (\<forall>k \<in> bt_keys m. a < k) \<and> bt_sorted m"
  by (auto simp: bt_sorted_def bt_keys_def)

lemma bt_get_None [simp]: "k \<notin> bt_keys m \<Longrightarrow> bt_get k m = None"
  by (induction k m rule: bt_get.induct) auto

lemma bt_get_below: "\<forall>x \<in> bt_keys m. a < x \<Longrightarrow> k \<le> a \<Longrightarrow> bt_get k m = None"
  by (rule bt_get_None) (auto simp: not_le [symmetric])

lemma fst_bt_insert: "bt_sorted m \<Longrightarrow> fst (bt_insert k v m) = bt_get k m"
  by (induction m) (auto simp: bt_Cons bt_get_below simp del: bt_insert.simps(2))

lemma keys_bt_insert [simp]: "bt_keys (snd (bt_insert k v m)) = Set.insert k (bt_keys m)"
  by (induction m) (auto simp: bt_Cons simp del: bt_insert.simps(2) split: if_splits)

lemma sorted_bt_insert: "bt_sorted m \<Longrightarrow> bt_sorted (snd (bt_insert k v m))"
  by (induction m)
     (fastforce simp: bt_Cons not_less_iff_gr_or_eq simp del: bt_insert.simps(2))+

lemma get_bt_insert: "bt_get x (snd (bt_insert k v m)) = (if x = k then Some v else bt_get x m)"
  by (induction m) (auto simp: bt_Cons simp del: bt_insert.simps(2))

lemma fst_bt_remove: "fst (bt_remove k m) = bt_get k m"
  by (induction m) (auto simp: bt_Cons simp del: bt_remove.simps(2))

lemma keys_bt_remove: "bt_keys (snd (bt_remove k m)) \<subseteq> bt_keys m"
  by (induction m) (auto simp: bt_Cons simp del: bt_remove.simps(2) split: if_splits)

lemma sorted_bt_remove: "bt_sorted m \<Longrightarrow> bt_sorted (snd (bt_remove k m))"
  by (induction m)
     (use keys_bt_remove in \<open>fastforce simp: bt_Cons simp del: bt_remove.simps(2)\<close>)+

lemma get_bt_remove:
  "bt_sorted m \<Longrightarrow> bt_get x (snd (bt_remove k m)) = (if x = k then None else bt_get x m)"
  by (induction m) (auto simp: bt_Cons bt_get_below simp del: bt_remove.simps(2))

lemma bt_range_set:
  assumes "bt_sorted m"
  shows "set (filter (\<lambda>(k, _). lo \<le> k \<and> k < hi) m)
           = {(k, v). bt_get k m = Some v \<and> lo \<le> k \<and> k < hi}"
proof -
  from assms have "distinct (map fst m)" by (simp add: bt_sorted_def strict_sorted_iff)
  then show ?thesis by (auto simp: bt_get_eq_map_of)
qed

lemma sorted_filter_keys:
  "sorted_wrt (<) (map fst m) \<Longrightarrow> sorted_wrt (<) (map fst (filter P m))"
  by (induction m) auto

interpretation btm: ordered_map "[]" bt_insert bt_remove bt_get bt_range bt_sorted
proof (unfold_locales, goal_cases)
  case (6 m lo hi)
  then show ?case
    using bt_range_set [of m lo hi] sorted_filter_keys [of m]
    by (auto simp: bt_range_def bt_sorted_def)
qed (auto simp: fst_bt_insert sorted_bt_insert get_bt_insert
      fst_bt_remove sorted_bt_remove get_bt_remove bt_range_def)

section \<open>Ordered sets stay ordered\<close>

lemma set_bs_insert [simp]: "set (bs_insert k s) = Set.insert k (set s)"
  by (induction k s rule: bs_insert.induct) auto

lemma sorted_bs_insert: "sorted_wrt (<) s \<Longrightarrow> sorted_wrt (<) (bs_insert k s)"
  by (induction k s rule: bs_insert.induct) auto

lemma set_bs_extend [simp]: "set (bs_extend s ks) = set s \<union> set ks"
  unfolding bs_extend_def by (induction ks arbitrary: s) auto

lemma sorted_bs_extend: "sorted_wrt (<) s \<Longrightarrow> sorted_wrt (<) (bs_extend s ks)"
  unfolding bs_extend_def by (induction ks arbitrary: s) (auto simp: sorted_bs_insert)

end
