(* ===== verification/RefCli.thy ===== *)
theory RefCli
  imports KvSpec BTree
begin

text \<open>
  The reference client (\<open>refcli/src/main.rs\<close>): the parser of call lines, the handler of calls over
  its ordered map, the writer of response lines, and the main loop. An \<open>io::Error\<close> is its message.
\<close>

section \<open>Parsing a call\<close>

definition invalid_input :: "string \<Rightarrow> string" where
  "invalid_input line = ''invalid input line: '' @ line"

fun cli_next_seg :: "string list \<Rightarrow> string \<Rightarrow> (string \<times> string list, string) run" where
  "cli_next_seg (s # segs) line = Ok (s, segs)"
| "cli_next_seg [] line = Err (invalid_input line)"

definition parse_input_call :: "string \<Rightarrow> (KvCall, string) run" where
  "parse_input_call line =
     (case split_whitespace line of
        [] \<Rightarrow> Err (invalid_input line)
      | tag # segs \<Rightarrow>
          if tag = ''PUT'' then
            run_bind (cli_next_seg segs line) (\<lambda>(key, segs).
            run_bind (cli_next_seg segs line) (\<lambda>(v, segs). Ok (KvCall.Put key v)))
          else if tag = ''SWAP'' then
            run_bind (cli_next_seg segs line) (\<lambda>(key, segs).
            run_bind (cli_next_seg segs line) (\<lambda>(v, segs). Ok (KvCall.Swap key v)))
          else if tag = ''GET'' then
            run_bind (cli_next_seg segs line) (\<lambda>(key, segs). Ok (KvCall.Get key))
          else if tag = ''SCAN'' then
            run_bind (cli_next_seg segs line) (\<lambda>(a, segs).
            run_bind (cli_next_seg segs line) (\<lambda>(b, segs). Ok (KvCall.Scan a b)))
          else if tag = ''DELETE'' then
            run_bind (cli_next_seg segs line) (\<lambda>(key, segs). Ok (KvCall.Delete key))
          else if tag = ''STOP'' then Ok KvCall.Stop
          else Err (invalid_input line))"

section \<open>Handling a call\<close>

type_synonym cli_state = "(string, string) btree_map"

fun handle_kv_call :: "KvCall \<Rightarrow> cli_state \<Rightarrow> (KvResp \<times> cli_state, string) run" where
  "handle_kv_call (KvCall.Put key v) state =
     (let found = bt_contains_key key state; (_, state') = bt_insert key v state
      in Ok (KvResp.Put key found, state'))"
| "handle_kv_call (KvCall.Swap key v) state =
     (let (old, state') = bt_insert key v state in Ok (KvResp.Swap key old, state'))"
| "handle_kv_call (KvCall.Get key) state = Ok (KvResp.Get key (bt_get key state), state)"
| "handle_kv_call (KvCall.Scan a b) state =
     run_bind (bt_range a b state) (\<lambda>ents. Ok (KvResp.Scan a b ents, state))"
| "handle_kv_call (KvCall.Delete key) state =
     (let (old, state') = bt_remove key state in Ok (KvResp.Delete key (old \<noteq> None), state'))"
| "handle_kv_call KvCall.Stop state = Ok (KvResp.Stop, state)"

section \<open>Writing a response\<close>

definition found_str :: "bool \<Rightarrow> string" where
  "found_str f = (if f then ''found'' else ''not_found'')"

definition opt_str :: "string option \<Rightarrow> string" where
  "opt_str v = (case v of Some x \<Rightarrow> x | None \<Rightarrow> ''null'')"

text \<open>The lines of a response, in the order of the \<open>writeln!\<close> calls.\<close>

fun fmt_response :: "KvResp \<Rightarrow> string list" where
  "fmt_response (KvResp.Put key f) = [''PUT '' @ key @ '' '' @ found_str f @ [newline]]"
| "fmt_response (KvResp.Swap key old) = [''SWAP '' @ key @ '' '' @ opt_str old @ [newline]]"
| "fmt_response (KvResp.Get key v) = [''GET '' @ key @ '' '' @ opt_str v @ [newline]]"
| "fmt_response (KvResp.Scan a b ents) =
     [''SCAN '' @ a @ '' '' @ b @ '' BEGIN'' @ [newline]]
     @ map (\<lambda>(k, v). ''  '' @ k @ '' '' @ v @ [newline]) ents
     @ [''SCAN END'' @ [newline]]"
| "fmt_response (KvResp.Delete key f) = [''DELETE '' @ key @ '' '' @ found_str f @ [newline]]"
| "fmt_response KvResp.Stop = [''STOP'' @ [newline]]"

fun write_lines ::
  "(string \<Rightarrow> 'w \<Rightarrow> ('w, string) run) \<Rightarrow> string list \<Rightarrow> 'w \<Rightarrow> ('w, string) run" where
  "write_lines wr [] w = Ok w"
| "write_lines wr (l # ls) w = run_bind (wr l w) (write_lines wr ls)"

definition write_response ::
  "KvResp \<Rightarrow> (string \<Rightarrow> 'w \<Rightarrow> ('w, string) run) \<Rightarrow> 'w \<Rightarrow> ('w, string) run" where
  "write_response resp wr w = write_lines wr (fmt_response resp) w"

section \<open>The main loop\<close>

partial_function (option) cli_read_nonblank ::
  "reader \<Rightarrow> string \<Rightarrow> (string \<times> reader, string) run option" where
  "cli_read_nonblank r buffer =
     (case read_line r buffer of
        None \<Rightarrow> None
      | Some (Err e) \<Rightarrow> Some (Err e)
      | Some Panic \<Rightarrow> Some Panic
      | Some (Ok (_, buffer', r')) \<Rightarrow>
          if trim buffer' \<noteq> [] then Some (Ok (buffer', r')) else cli_read_nonblank r' buffer')"

text \<open>Read and parse the next call.\<close>

definition cli_read_call :: "reader \<Rightarrow> (KvCall \<times> reader, string) run option" where
  "cli_read_call r =
     (case cli_read_nonblank r [] of
        None \<Rightarrow> None
      | Some res \<Rightarrow>
          Some (run_bind res (\<lambda>(buffer, r').
            run_bind (parse_input_call (trim buffer)) (\<lambda>call. Ok (call, r')))))"

text \<open>One round of the loop after a call was read; the flag says whether to stop.\<close>

definition cli_round ::
  "(string \<Rightarrow> 'w \<Rightarrow> ('w, string) run) \<Rightarrow> KvCall \<Rightarrow> cli_state \<Rightarrow> 'w
     \<Rightarrow> (bool \<times> cli_state \<times> 'w, string) run" where
  "cli_round wr call state w =
     run_bind (handle_kv_call call state) (\<lambda>(resp, state').
     run_bind (write_response resp wr w) (\<lambda>w'. Ok (resp = KvResp.Stop, state', w')))"

partial_function (option) cli_loop ::
  "(string \<Rightarrow> 'w \<Rightarrow> ('w, string) run) \<Rightarrow> reader \<Rightarrow> cli_state \<Rightarrow> 'w \<Rightarrow> ('w, string) run option"
where
  "cli_loop wr r state w =
     (case cli_read_call r of
        None \<Rightarrow> None
      | Some (Err e) \<Rightarrow> Some (Err e)
      | Some Panic \<Rightarrow> Some Panic
      | Some (Ok (call, r')) \<Rightarrow>
          (case cli_round wr call state w of
             Err e \<Rightarrow> Some (Err e)
           | Panic \<Rightarrow> Some Panic
           | Ok (to_stop, state', w') \<Rightarrow>
               if to_stop then Some (Ok w') else cli_loop wr r' state' w'))"

definition cli_main ::
  "(string \<Rightarrow> 'w \<Rightarrow> ('w, string) run) \<Rightarrow> reader \<Rightarrow> 'w \<Rightarrow> ('w, string) run option" where
  "cli_main wr r w = cli_loop wr r [] w"

declare cli_read_nonblank.simps [code] cli_loop.simps [code]

section \<open>Both directions of the text interface are codecs\<close>

text \<open>The words of a call line and of a single-line response.\<close>

fun call_words :: "KvCall \<Rightarrow> string list" where
  "call_words (KvCall.Put k v) = [''PUT'', k, v]"
| "call_words (KvCall.Swap k v) = [''SWAP'', k, v]"
| "call_words (KvCall.Get k) = [''GET'', k]"
| "call_words (KvCall.Scan a b) = [''SCAN'', a, b]"
| "call_words (KvCall.Delete k) = [''DELETE'', k]"
| "call_words KvCall.Stop = [''STOP'']"

definition call_tokens :: "KvCall \<Rightarrow> bool" where
  "call_tokens c = list_all is_token (call_words c)"

text \<open>
  Responses whose text is unambiguous: words only, no stored value spelled like the marker of an
  absent one, and no scan entry spelled like the end marker.
\<close>

definition plain_entry :: "string \<times> string \<Rightarrow> bool" where
  "plain_entry e =
     (is_token (fst e) \<and> is_token (snd e) \<and> snd e \<noteq> ''null'' \<and> e \<noteq> (''SCAN'', ''END''))"

fun resp_plain :: "KvResp \<Rightarrow> bool" where
  "resp_plain (KvResp.Put k f) = is_token k"
| "resp_plain (KvResp.Swap k v) = (is_token k \<and> pred_option (\<lambda>x. is_token x \<and> x \<noteq> ''null'') v)"
| "resp_plain (KvResp.Get k v) = (is_token k \<and> pred_option (\<lambda>x. is_token x \<and> x \<noteq> ''null'') v)"
| "resp_plain (KvResp.Scan a b es) = (is_token a \<and> is_token b \<and> list_all plain_entry es)"
| "resp_plain (KvResp.Delete k f) = is_token k"
| "resp_plain KvResp.Stop = True"

lemma keyword_tokens [simp]:
  "is_token ''PUT''" "is_token ''SWAP''" "is_token ''GET''" "is_token ''SCAN''"
  "is_token ''DELETE''" "is_token ''STOP''" "is_token ''BEGIN''" "is_token ''END''"
  "is_token ''found''" "is_token ''not_found''" "is_token ''null''"
  by (simp_all add: is_token_def is_whitespace_def)

lemma fmt_call_words: "fmt_call c = words_line (call_words c)"
  by (cases c) simp_all

lemma cli_read_nonblank_at_once [line_simps]:
  "take_line (rd_rest r) = Some (l, rest) \<Longrightarrow> trim l \<noteq> [] \<Longrightarrow>
     cli_read_nonblank r [] = Some (Ok (l, r\<lparr>rd_rest := rest\<rparr>))"
  by (simp add: cli_read_nonblank.simps read_line_complete)

lemma cli_read_call_fmt:
  assumes "call_tokens c"
  shows "cli_read_call (r\<lparr>rd_rest := fmt_call c @ rest\<rparr>) = Some (Ok (c, r\<lparr>rd_rest := rest\<rparr>))"
proof -
  have ws: "list_all is_token (call_words c)" "call_words c \<noteq> []"
    using assms by (cases c; simp add: call_tokens_def)+
  have "cli_read_nonblank (r\<lparr>rd_rest := fmt_call c @ rest\<rparr>) []
      = Some (Ok (words_line (call_words c), r\<lparr>rd_rest := rest\<rparr>))"
    using ws by (simp add: cli_read_nonblank_at_once fmt_call_words take_line_words
        trim_words_line_nonempty)
  moreover have "parse_input_call (trim (words_line (call_words c))) = Ok c"
    using split_words_line [OF ws(1)]
    by (cases c) (simp_all add: parse_input_call_def split_whitespace_trim)
  ultimately show ?thesis by (simp add: cli_read_call_def)
qed

interpretation call_codec: line_codec fmt_call cli_read_call call_tokens
  by unfold_locales (rule cli_read_call_fmt)

text \<open>The response side: what the reference client writes, the runner reads back.\<close>

fun resp_words :: "KvResp \<Rightarrow> string list" where
  "resp_words (KvResp.Put k f) = [''PUT'', k, found_str f]"
| "resp_words (KvResp.Swap k v) = [''SWAP'', k, opt_str v]"
| "resp_words (KvResp.Get k v) = [''GET'', k, opt_str v]"
| "resp_words (KvResp.Scan a b es) = [''SCAN'', a, b, ''BEGIN'']"
| "resp_words (KvResp.Delete k f) = [''DELETE'', k, found_str f]"
| "resp_words KvResp.Stop = [''STOP'']"

lemma found_str_simps [simp]:
  "is_token (found_str f)" "parse_found (found_str f) = Ok f"
  by (simp_all add: found_str_def parse_found_def)

lemma opt_str_simps:
  "pred_option (\<lambda>x. is_token x \<and> x \<noteq> ''null'') v \<Longrightarrow>
     is_token (opt_str v) \<and> parse_opt_value (opt_str v) = v"
  by (cases v) (simp_all add: opt_str_def parse_opt_value_def)

lemma resp_words_tokens: "resp_plain resp \<Longrightarrow> list_all is_token (resp_words resp)"
  by (cases resp) (simp_all add: opt_str_simps)

lemma read_next_line_words:
  "ws \<noteq> [] \<Longrightarrow> list_all is_token ws \<Longrightarrow>
     read_next_line (r\<lparr>rd_rest := words_line ws @ rest\<rparr>) buffer
       = Some (Ok (utf8_len (words_line ws), words_line ws, r\<lparr>rd_rest := rest\<rparr>))"
  by (simp add: read_next_line_at_once take_line_words trim_words_line_nonempty)

definition entry_line :: "string \<times> string \<Rightarrow> string" where
  "entry_line e = ''  '' @ words_line [fst e, snd e]"

lemma entry_line_props:
  assumes "plain_entry e"
  shows "take_line (entry_line e @ rest) = Some (entry_line e, rest)"
    and "trim (entry_line e) \<noteq> ''SCAN END''"
    and "trim (entry_line e) \<noteq> []"
    and "get_segs_of_line (entry_line e) = [fst e, snd e]"
proof -
  from assms have t: "list_all is_token [fst e, snd e]" and ne: "e \<noteq> (''SCAN'', ''END'')"
    by (simp_all add: plain_entry_def)
  have nl: "newline \<notin> set ''  ''" by (simp add: newline_def)
  show "take_line (entry_line e @ rest) = Some (entry_line e, rest)"
    using take_line_words [OF t, of rest]
    by (simp only: entry_line_def append_assoc take_line_prefix [OF nl]) simp
  have tr: "trim (entry_line e) = fst e @ CHR '' '' # snd e"
    using t by (simp add: entry_line_def trim_skip trim_two_tokens)
  show "trim (entry_line e) \<noteq> ''SCAN END''" "trim (entry_line e) \<noteq> []"
    using two_tokens_eq_iff [of "fst e" "snd e" "''SCAN''" "''END''"] t ne
    by (auto simp: tr prod_eq_iff)
  show "get_segs_of_line (entry_line e) = [fst e, snd e]"
    using split_words_line [OF t]
    by (simp add: entry_line_def get_segs_of_line_def split_whitespace_skip)
qed

lemma scan_end_line:
  "read_scan_entries (r\<lparr>rd_rest := ''SCAN END'' @ [newline] @ rest\<rparr>) ents
     = Some (Ok (ents, r\<lparr>rd_rest := rest\<rparr>))"
proof -
  have "trim (words_line [''SCAN'', ''END'']) = ''SCAN END''"
    using trim_two_tokens [of "''SCAN''" "''END''"] by simp
  then show ?thesis
    using read_next_line_words [where ws = "[''SCAN'', ''END'']" and r = r and rest = rest]
    by (subst read_scan_entries.simps) simp
qed

lemma read_scan_entries_fmt:
  "list_all plain_entry es \<Longrightarrow>
     read_scan_entries
       (r\<lparr>rd_rest := concat (map entry_line es) @ ''SCAN END'' @ [newline] @ rest\<rparr>) ents
     = Some (Ok (ents @ es, r\<lparr>rd_rest := rest\<rparr>))"
proof (induction es arbitrary: ents)
  case Nil
  then show ?case using scan_end_line [where r = r and rest = rest and ents = ents] by simp
next
  case (Cons e es)
  let ?rest = "concat (map entry_line es) @ ''SCAN END'' @ [newline] @ rest"
  from Cons have "plain_entry e" by simp
  note el = entry_line_props [OF this]
  have "read_next_line (r\<lparr>rd_rest := entry_line e @ ?rest\<rparr>) []
      = Some (Ok (utf8_len (entry_line e), entry_line e, r\<lparr>rd_rest := ?rest\<rparr>))"
    using read_next_line_at_once [of "r\<lparr>rd_rest := entry_line e @ ?rest\<rparr>", OF _ el(3)]
    by (simp add: el(1))
  then have "read_scan_entries (r\<lparr>rd_rest := entry_line e @ ?rest\<rparr>) ents
      = read_scan_entries (r\<lparr>rd_rest := ?rest\<rparr>) (ents @ [e])"
    by (subst read_scan_entries.simps) (simp add: el(2,4))
  then show ?case using Cons.IH [of "ents @ [e]"] Cons.prems by simp
qed

lemma from_read_fmt:
  assumes "resp_plain resp"
  shows "from_read (r\<lparr>rd_rest := concat (fmt_response resp) @ rest\<rparr>) buffer
           = Some (Ok (resp, r\<lparr>rd_rest := rest\<rparr>))"
proof (cases "\<exists>a b es. resp = KvResp.Scan a b es")
  case True
  then obtain a b es where resp: "resp = KvResp.Scan a b es" by blast
  have lines: "map (\<lambda>(k, v). ''  '' @ k @ '' '' @ v @ [newline]) es = map entry_line es"
    by (simp add: entry_line_def case_prod_beta)
  have ws: "list_all is_token [''SCAN'', a, b, ''BEGIN'']"
    using assms resp by simp
  let ?rest = "concat (map entry_line es) @ ''SCAN END'' @ [newline] @ rest"
  have "concat (fmt_response resp) @ rest = words_line [''SCAN'', a, b, ''BEGIN''] @ ?rest"
    by (simp only: resp fmt_response.simps lines) simp
  then show ?thesis
    using read_next_line_words [OF _ ws, where r = r and rest = ?rest and buffer = buffer]
      split_words_line [OF ws]
      read_scan_entries_fmt [where r = r and rest = rest and ents = "[]" and es = es] assms
    by (simp add: from_read_def get_segs_of_line_def parse_scan_head_def resp)
next
  case False
  note ws = resp_words_tokens [OF assms]
  have "concat (fmt_response resp) = words_line (resp_words resp)" and ne: "resp_words resp \<noteq> []"
    using False by (cases resp; simp)+
  then show ?thesis
    using read_next_line_words [OF ne ws, where r = r and rest = rest and buffer = buffer]
      split_words_line [OF ws] assms False
    by (cases resp) (simp_all add: from_read_def get_segs_of_line_def parse_single_def opt_str_simps)
qed

interpretation resp_codec:
  line_codec "\<lambda>resp. concat (fmt_response resp)" "\<lambda>r. from_read r []" resp_plain
  by unfold_locales (rule from_read_fmt)

section \<open>The handler\<close>

abbreviation cli_view :: "cli_state \<Rightarrow> kv" where
  "cli_view st \<equiv> (\<lambda>k. bt_get k st)"

lemma handle_update:
  "bt_sorted st \<Longrightarrow> handle_kv_call c st = Ok (resp, st') \<Longrightarrow>
     bt_sorted st' \<and> cli_view st' = kv_apply c (cli_view st)"
  by (cases c)
     (auto simp: fst_bt_insert sorted_bt_insert get_bt_insert sorted_bt_remove get_bt_remove
        run_bind_Ok_iff fun_eq_iff prod_eq_iff split: prod.splits
        dest: arg_cong [where f = snd])

lemma handle_answers:
  "bt_sorted st \<Longrightarrow> handle_kv_call c st = Ok (resp, st') \<Longrightarrow> (\<nexists>a b. c = KvCall.Scan a b) \<Longrightarrow>
     kv_answers (cli_view st) c resp"
  using fst_bt_insert [of st] fst_bt_remove [of _ st]
  by (cases c) (auto simp: bt_contains_key_def split: prod.splits, (metis fst_conv)+)

lemma handle_scan:
  assumes "bt_sorted st" and "a \<le> b"
  shows "\<exists>es. handle_kv_call (KvCall.Scan a b) st = Ok (KvResp.Scan a b es, st) \<and>
           sorted_wrt (<) (map fst es) \<and>
           (\<forall>k v. (k, v) \<in> set es \<longleftrightarrow> a \<le> k \<and> k < b \<and> bt_get k st = Some v)"
  using btm.range_Ok [OF assms] by fastforce

text \<open>A whole session of the handler.\<close>

fun handle_all :: "KvCall list \<Rightarrow> cli_state \<Rightarrow> (KvResp list \<times> cli_state, string) run" where
  "handle_all [] st = Ok ([], st)"
| "handle_all (c # cs) st =
     run_bind (handle_kv_call c st) (\<lambda>(resp, st').
     run_bind (handle_all cs st') (\<lambda>(resps, st''). Ok (resp # resps, st'')))"

definition call_plain :: "KvCall \<Rightarrow> bool" where
  "call_plain c =
     (call_tokens c \<and>
      (case update_info c of Some (k, Some v) \<Rightarrow> plain_entry (k, v) | _ \<Rightarrow> True))"

definition scan_ordered :: "KvCall \<Rightarrow> bool" where
  "scan_ordered c = (case c of KvCall.Scan a b \<Rightarrow> a \<le> b | _ \<Rightarrow> True)"

lemma bt_get_in: "bt_get k m = Some v \<Longrightarrow> (k, v) \<in> set m"
  by (simp add: bt_get_eq_map_of map_of_SomeD)

lemma set_bt_insert: "set (snd (bt_insert k v m)) \<subseteq> Set.insert (k, v) (set m)"
  by (induction m) (auto simp: bt_Cons simp del: bt_insert.simps(2) split: if_splits)

lemma set_bt_remove: "set (snd (bt_remove k m)) \<subseteq> set m"
  by (induction m) (auto simp: bt_Cons simp del: bt_remove.simps(2) split: if_splits)

lemma handle_total:
  assumes "bt_sorted st" and "scan_ordered c"
  shows "\<exists>resp st'. handle_kv_call c st = Ok (resp, st')"
proof (cases c)
  case (Scan a b)
  with assms handle_scan [of st a b] show ?thesis by (auto simp: scan_ordered_def)
qed (auto split: prod.splits)

lemma bt_insert_plain:
  assumes "list_all plain_entry st" and "plain_entry (k, v)" and "bt_sorted st"
    and "bt_insert k v st = (old, st')"
  shows "list_all plain_entry st' \<and> pred_option (\<lambda>x. is_token x \<and> x \<noteq> ''null'') old"
proof -
  from assms(4) set_bt_insert [of k v st] have "set st' \<subseteq> Set.insert (k, v) (set st)" by simp
  moreover have "pred_option (\<lambda>x. is_token x \<and> x \<noteq> ''null'') (bt_get k st)"
    using assms(1) bt_get_in [of k st] by (cases "bt_get k st") (auto simp: list_all_iff plain_entry_def)
  ultimately show ?thesis
    using assms fst_bt_insert [OF assms(3), of k v] by (auto simp: list_all_iff)
qed

lemma handle_plain:
  assumes "list_all plain_entry st" "bt_sorted st" "call_plain c" "scan_ordered c"
    and "handle_kv_call c st = Ok (resp, st')"
  shows "resp_plain resp \<and> list_all plain_entry st'"
proof (cases c)
  case (Put k v)
  with assms bt_insert_plain [of st k v] show ?thesis
    by (auto simp: call_plain_def call_tokens_def split: prod.splits)
next
  case (Swap k v)
  with assms bt_insert_plain [of st k v] show ?thesis
    by (auto simp: call_plain_def call_tokens_def split: prod.splits)
next
  case (Get k)
  with assms bt_get_in [of k st] show ?thesis
    by (cases "bt_get k st") (auto simp: call_plain_def call_tokens_def list_all_iff plain_entry_def)
next
  case (Scan a b)
  with assms obtain es where es: "resp = KvResp.Scan a b es" "st' = st"
    and "\<And>k v. (k, v) \<in> set es \<Longrightarrow> bt_get k st = Some v"
    using handle_scan [of st a b] by (auto simp: scan_ordered_def)
  then have "set es \<subseteq> set st" by (auto intro: bt_get_in)
  with Scan assms es show ?thesis
    by (auto simp: call_plain_def call_tokens_def list_all_iff)
next
  case (Delete k)
  with assms set_bt_remove [of k st] show ?thesis
    by (auto simp: call_plain_def call_tokens_def list_all_iff split: prod.splits)
qed (use assms in auto)

lemma handle_all_total:
  assumes "list_all scan_ordered cs" "list_all call_plain cs"
    and "bt_sorted st" "list_all plain_entry st"
  shows "\<exists>resps st'. handle_all cs st = Ok (resps, st') \<and> list_all resp_plain resps \<and>
           length resps = length cs"
  using assms
proof (induction cs arbitrary: st)
  case (Cons c cs)
  then obtain resp st' where h: "handle_kv_call c st = Ok (resp, st')"
    using handle_total [of st c] by fastforce
  with Cons.prems handle_plain [of st c resp st'] handle_update [OF _ h]
  show ?case using Cons.IH [of st'] by (auto simp: h)
qed simp

section \<open>The main loop\<close>

abbreviation sink :: "string \<Rightarrow> string \<Rightarrow> (string, string) run" where
  "sink l w \<equiv> Ok (w @ l)"

lemma write_lines_sink: "write_lines sink ls w = Ok (w @ concat ls)"
  by (induction ls arbitrary: w) auto

lemma cli_loop_step:
  assumes "call_tokens c" and "c \<noteq> KvCall.Stop"
    and h: "handle_kv_call c st = Ok (resp, st')"
  shows "cli_loop sink (r\<lparr>rd_rest := fmt_call c @ rest\<rparr>) st w
      = cli_loop sink (r\<lparr>rd_rest := rest\<rparr>) st' (w @ concat (fmt_response resp))"
proof -
  from assms(2) h have "resp \<noteq> KvResp.Stop"
    by (cases c) (auto simp: run_bind_Ok_iff split: prod.splits)
  then show ?thesis
    by (subst cli_loop.simps)
       (simp add: cli_read_call_fmt assms(1) cli_round_def h write_response_def write_lines_sink)
qed

lemma cli_loop_session:
  assumes "list_all call_tokens cs" and "KvCall.Stop \<notin> set cs"
    and "handle_all cs st = Ok (resps, st')"
  shows "cli_loop sink (r\<lparr>rd_rest := concat (map fmt_call (cs @ [KvCall.Stop])) @ rest\<rparr>) st w
      = Some (Ok (w @ concat (map (\<lambda>x. concat (fmt_response x)) (resps @ [KvResp.Stop]))))"
  using assms
proof (induction cs arbitrary: st resps w)
  case Nil
  have "call_tokens KvCall.Stop" by (simp add: call_tokens_def)
  with Nil show ?case
    using cli_read_call_fmt [where c = KvCall.Stop and r = r and rest = rest]
    by (subst cli_loop.simps) (simp add: cli_round_def write_response_def)
next
  case (Cons c cs)
  then obtain resp st1 resps' where h: "handle_kv_call c st = Ok (resp, st1)"
    and hs: "handle_all cs st1 = Ok (resps', st')" and "resps = resp # resps'"
    by (auto simp: run_bind_Ok_iff)
  moreover from Cons.prems have "call_tokens c" "c \<noteq> KvCall.Stop" by auto
  note step = cli_loop_step [OF this h]
  ultimately show ?case
    using Cons by (simp add: step)
qed

lemma cli_read_nonblank_eof_diverges:
  assumes "list_all is_whitespace buffer" and "list_all is_whitespace (rd_rest r)"
    and "rd_end r = Eof"
  shows "cli_read_nonblank r buffer = None"
proof (cases "cli_read_nonblank r buffer")
  case (Some res)
  have "\<not> (list_all is_whitespace buffer \<and> list_all is_whitespace (rd_rest r) \<and> rd_end r = Eof)"
  proof (rule cli_read_nonblank.raw_induct
      [where P = "\<lambda>r buffer _. \<not> (list_all is_whitespace buffer \<and>
          list_all is_whitespace (rd_rest r) \<and> rd_end r = Eof)", OF _ Some], goal_cases)
    case (1 f r buffer res)
    show ?case
    proof
      assume h: "list_all is_whitespace buffer \<and> list_all is_whitespace (rd_rest r) \<and> rd_end r = Eof"
      with read_line_blank [of buffer r] obtain n b' r' where
        "read_line r buffer = Some (Ok (n, b', r'))" and b': "list_all is_whitespace b'"
        and r': "list_all is_whitespace (rd_rest r')" "rd_end r' = Eof"
        by blast
      with "1"(2) have "f r' b' = Some res" by (simp add: trim_eq_Nil_iff)
      with "1"(1) b' r' show False by blast
    qed
  qed
  with assms show ?thesis by simp
qed simp

lemma cli_loop_starved:
  assumes "list_all call_tokens cs" and "KvCall.Stop \<notin> set cs"
    and "handle_all cs st = Ok (resps, st')"
  shows "cli_loop sink (\<lparr>rd_rest = concat (map fmt_call cs), rd_end = Eof\<rparr>) st w = None"
  using assms
proof (induction cs arbitrary: st resps w)
  case Nil
  then show ?case
    by (subst cli_loop.simps) (simp add: cli_read_call_def cli_read_nonblank_eof_diverges)
next
  case (Cons c cs)
  then obtain resp st1 resps' where h: "handle_kv_call c st = Ok (resp, st1)"
    and hs: "handle_all cs st1 = Ok (resps', st')"
    by (auto simp: run_bind_Ok_iff)
  from Cons.prems have "call_tokens c" "c \<noteq> KvCall.Stop" by auto
  note step = cli_loop_step [OF this h, where r = "\<lparr>rd_rest = [], rd_end = Eof\<rparr>", simplified]
  from Cons hs show ?case by (simp add: step)
qed

section \<open>Properties\<close>

text \<open>
  C15. Every call that is not a scan is answered as the key-value specification says, and every call
  updates the state as the specification says and keeps the map ordered.
\<close>

theorem handle_refines_spec:
  assumes "bt_sorted st" and "handle_kv_call c st = Ok (resp, st')"
  shows "bt_sorted st' \<and> (\<lambda>k. bt_get k st') = kv_apply c (\<lambda>k. bt_get k st) \<and>
     ((\<exists>a b. c = KvCall.Scan a b) \<or> kv_answers (\<lambda>k. bt_get k st) c resp)"
  using handle_update [OF assms] handle_answers [OF assms] by blast

theorem handle_refines_spec_witness:
  "handle_kv_call (KvCall.Swap ''b'' ''2'') [(''a'', ''0''), (''b'', ''1'')]
     = Ok (KvResp.Swap ''b'' (Some ''1''), [(''a'', ''0''), (''b'', ''2'')]) \<and>
   kv_answers (\<lambda>k. bt_get k [(''a'', ''0''), (''b'', ''1'')]) (KvCall.Swap ''b'' ''2'')
     (KvResp.Swap ''b'' (Some ''1''))"
proof -
  have s: "bt_sorted [(''a'', ''0''), (''b'', ''1'')]" by code_simp
  have h: "handle_kv_call (KvCall.Swap ''b'' ''2'') [(''a'', ''0''), (''b'', ''1'')]
     = Ok (KvResp.Swap ''b'' (Some ''1''), [(''a'', ''0''), (''b'', ''2'')])" by code_simp
  from handle_refines_spec [OF s h] h show ?thesis by simp
qed

text \<open>
  C16. A scan panics exactly when its start is greater than its end; otherwise it answers with the
  entries from the start, included, to the end, excluded, in ascending key order, and leaves the
  state as it is.
\<close>

theorem handle_scan_half_open:
  assumes "bt_sorted st"
  shows "(b < a \<longrightarrow> handle_kv_call (KvCall.Scan a b) st = Panic) \<and>
     (a \<le> b \<longrightarrow> (\<exists>es. handle_kv_call (KvCall.Scan a b) st = Ok (KvResp.Scan a b es, st) \<and>
        sorted_wrt (<) (map fst es) \<and>
        (\<forall>k v. (k, v) \<in> set es \<longleftrightarrow> a \<le> k \<and> k < b \<and> bt_get k st = Some v)))"
  using handle_scan [OF assms] by (simp add: btm.range_panic)

theorem handle_scan_half_open_witness:
  "handle_kv_call (KvCall.Scan ''b'' ''a'') [(''a'', ''1''), (''b'', ''2'')] = Panic \<and>
   (\<exists>es. handle_kv_call (KvCall.Scan ''a'' ''b'') [(''a'', ''1''), (''b'', ''2'')]
       = Ok (KvResp.Scan ''a'' ''b'' es, [(''a'', ''1''), (''b'', ''2'')]) \<and>
     sorted_wrt (<) (map fst es))"
proof -
  have s: "bt_sorted [(''a'', ''1''), (''b'', ''2'')]" by code_simp
  have o1: "''a'' < ''b''" and o2: "''a'' \<le> ''b''" by code_simp+
  show ?thesis
    using handle_scan_half_open [OF s, of "''a''" "''b''"]
      handle_scan_half_open [OF s, of "''b''" "''a''"] o1 o2 by blast
qed

text \<open>
  C17. When the end key of a scan is present in the map, the reference client's answer is not the
  one of the specification, whose range includes the end key.
\<close>

theorem handle_scan_misses_end_key:
  assumes "bt_sorted st" and "a \<le> b" and "bt_get b st \<noteq> None"
  shows "\<exists>resp. handle_kv_call (KvCall.Scan a b) st = Ok (resp, st) \<and>
           \<not> kv_answers (\<lambda>k. bt_get k st) (KvCall.Scan a b) resp"
proof -
  from handle_scan [OF assms(1,2)] obtain es where
    h: "handle_kv_call (KvCall.Scan a b) st = Ok (KvResp.Scan a b es, st)"
    and es: "\<And>k v. (k, v) \<in> set es \<longleftrightarrow> a \<le> k \<and> k < b \<and> bt_get k st = Some v" by blast
  from assms(2,3) es have "\<not> kv_answers (\<lambda>k. bt_get k st) (KvCall.Scan a b) (KvResp.Scan a b es)"
    by auto
  with h show ?thesis by blast
qed

theorem handle_scan_misses_end_key_witness:
  "\<exists>resp. handle_kv_call (KvCall.Scan ''a'' ''b'') [(''a'', ''1''), (''b'', ''2'')]
       = Ok (resp, [(''a'', ''1''), (''b'', ''2'')]) \<and>
     \<not> kv_answers (\<lambda>k. bt_get k [(''a'', ''1''), (''b'', ''2'')]) (KvCall.Scan ''a'' ''b'') resp"
  by (rule handle_scan_misses_end_key) code_simp+

text \<open>
  C18. The call direction of the text interface: any sequence of calls whose keys and values are
  words, written by the runner one after the other, is read back by the reference client as exactly
  that sequence, and nothing of the text that follows is consumed.
\<close>

theorem call_stream_roundtrip:
  assumes "list_all call_tokens cs"
  shows "decode_n cli_read_call (length cs) \<lparr>rd_rest = concat (map fmt_call cs) @ rest, rd_end = e\<rparr>
           = Some (Ok (cs, \<lparr>rd_rest = rest, rd_end = e\<rparr>))"
  using call_codec.decode_stream
    [OF assms, where r = "\<lparr>rd_rest = [], rd_end = e\<rparr>" and rest = rest] by simp

theorem call_stream_roundtrip_witness:
  "decode_n cli_read_call 2
     \<lparr>rd_rest = concat (map fmt_call [KvCall.Put ''k'' ''v'', KvCall.Stop]) @ ''GET'', rd_end = Blocks\<rparr>
   = Some (Ok ([KvCall.Put ''k'' ''v'', KvCall.Stop], \<lparr>rd_rest = ''GET'', rd_end = Blocks\<rparr>))"
  using call_stream_roundtrip [of "[KvCall.Put ''k'' ''v'', KvCall.Stop]" "''GET''" Blocks]
  by (simp add: call_tokens_def is_token_def is_whitespace_def numeral_2_eq_2)

text \<open>
  C19. The response direction: any sequence of responses without ambiguous texts (a stored value
  spelled \<open>null\<close>, a scan entry spelled \<open>SCAN END\<close>), written by the reference client, is read back
  by the runner as exactly that sequence.
\<close>

theorem resp_stream_roundtrip:
  assumes "list_all resp_plain rs"
  shows "decode_n (\<lambda>r. from_read r []) (length rs)
       \<lparr>rd_rest = concat (map (\<lambda>x. concat (fmt_response x)) rs) @ rest, rd_end = e\<rparr>
     = Some (Ok (rs, \<lparr>rd_rest = rest, rd_end = e\<rparr>))"
  using resp_codec.decode_stream
    [OF assms, where r = "\<lparr>rd_rest = [], rd_end = e\<rparr>" and rest = rest] by simp

theorem resp_stream_roundtrip_witness:
  "decode_n (\<lambda>r. from_read r []) 1
     \<lparr>rd_rest = concat (map (\<lambda>x. concat (fmt_response x)) [KvResp.Scan ''a'' ''b'' [(''a'', ''1'')]]),
      rd_end = Blocks\<rparr>
   = Some (Ok ([KvResp.Scan ''a'' ''b'' [(''a'', ''1'')]], \<lparr>rd_rest = [], rd_end = Blocks\<rparr>))"
  using resp_stream_roundtrip [of "[KvResp.Scan ''a'' ''b'' [(''a'', ''1'')]]" "[]" Blocks]
  by (simp add: plain_entry_def is_token_def is_whitespace_def)

text \<open>
  C9. A whole session: fed with the lines of any sequence of calls with unambiguous values and
  ordered scans, followed by \<open>STOP\<close>, the reference client terminates, and the runner reads back
  from its output exactly the responses its handler computed, followed by \<open>STOP\<close>.
\<close>

theorem cli_session:
  assumes "list_all call_plain cs" and "list_all scan_ordered cs" and "KvCall.Stop \<notin> set cs"
  shows "\<exists>resps st out. handle_all cs [] = Ok (resps, st) \<and>
     cli_main sink \<lparr>rd_rest = concat (map fmt_call (cs @ [KvCall.Stop])), rd_end = e\<rparr> []
       = Some (Ok out) \<and>
     decode_n (\<lambda>r. from_read r []) (Suc (length cs)) \<lparr>rd_rest = out, rd_end = e'\<rparr>
       = Some (Ok (resps @ [KvResp.Stop], \<lparr>rd_rest = [], rd_end = e'\<rparr>))"
proof -
  from handle_all_total [OF assms(2,1), of "[]"] obtain resps st where
    h: "handle_all cs [] = Ok (resps, st)" and p: "list_all resp_plain resps"
    and len: "length resps = length cs" by auto
  have t: "list_all call_tokens cs"
    using assms(1) by (auto simp: list_all_iff call_plain_def)
  have "cli_main sink \<lparr>rd_rest = concat (map fmt_call (cs @ [KvCall.Stop])), rd_end = e\<rparr> []
      = Some (Ok (concat (map (\<lambda>x. concat (fmt_response x)) (resps @ [KvResp.Stop]))))"
    using cli_loop_session
      [OF t assms(3) h, where r = "\<lparr>rd_rest = [], rd_end = e\<rparr>" and rest = "[]" and w = "[]"]
    by (simp add: cli_main_def)
  moreover have "decode_n (\<lambda>r. from_read r []) (Suc (length cs))
      \<lparr>rd_rest = concat (map (\<lambda>x. concat (fmt_response x)) (resps @ [KvResp.Stop])), rd_end = e'\<rparr>
    = Some (Ok (resps @ [KvResp.Stop], \<lparr>rd_rest = [], rd_end = e'\<rparr>))"
    using resp_codec.decode_stream [where ms = "resps @ [KvResp.Stop]"
        and r = "\<lparr>rd_rest = [], rd_end = e'\<rparr>" and rest = "[]"]
      p len by simp
  ultimately show ?thesis using h by blast
qed

theorem cli_session_witness:
  "\<exists>resps st out. handle_all [KvCall.Put ''k'' ''v'', KvCall.Get ''k''] [] = Ok (resps, st) \<and>
     cli_main sink \<lparr>rd_rest = concat (map fmt_call
        ([KvCall.Put ''k'' ''v'', KvCall.Get ''k''] @ [KvCall.Stop])), rd_end = Eof\<rparr> []
       = Some (Ok out) \<and>
     decode_n (\<lambda>r. from_read r []) (Suc (length [KvCall.Put ''k'' ''v'', KvCall.Get ''k'']))
       \<lparr>rd_rest = out, rd_end = Blocks\<rparr>
       = Some (Ok (resps @ [KvResp.Stop], \<lparr>rd_rest = [], rd_end = Blocks\<rparr>))"
  by (rule cli_session)
     (simp_all add: call_plain_def call_tokens_def plain_entry_def scan_ordered_def
        is_token_def is_whitespace_def)

text \<open>
  C26. Without a final \<open>STOP\<close>, the reference client does not exit when its input ends: it answers
  the calls and then spins on the end of file.
\<close>

theorem cli_main_eof_spins:
  assumes "list_all call_tokens cs" and "KvCall.Stop \<notin> set cs"
    and "handle_all cs [] = Ok (resps, st)"
  shows "cli_main sink \<lparr>rd_rest = concat (map fmt_call cs), rd_end = Eof\<rparr> [] = None"
  unfolding cli_main_def using assms by (rule cli_loop_starved)

theorem cli_main_eof_spins_witness:
  "cli_main sink \<lparr>rd_rest = concat (map fmt_call [KvCall.Get ''k'']), rd_end = Eof\<rparr> [] = None"
  by (rule cli_main_eof_spins [where resps = "[KvResp.Get ''k'' None]" and st = "[]"])
     (simp_all add: call_tokens_def is_token_def is_whitespace_def)

end
