(* ===== verification/Store.thy ===== *)
theory Store
  imports RefCli Proc
begin

text \<open>
  The interface between the runner and the key-value service under test: what a client process that
  fronts a store promises its driver thread, as a locale, with the consequences for a client handle
  proved in it. It is interpreted on the process that the reference client's loop
  (\<open>refcli/src/main.rs\<close>) makes, for calls other than scans, and on a store with inclusive scans.
\<close>

section \<open>Plain contents\<close>

text \<open>Contents whose entries can be written unambiguously.\<close>

definition plain_kv :: "kv \<Rightarrow> bool" where
  "plain_kv s \<longleftrightarrow> (\<forall>k v. s k = Some v \<longrightarrow> plain_entry (k, v))"

lemma plain_kv_apply: "plain_kv s \<Longrightarrow> call_plain c \<Longrightarrow> plain_kv (kv_apply c s)"
  by (cases c) (auto simp: plain_kv_def call_plain_def)

lemma kv_answers_plain:
  assumes "plain_kv s" and "call_plain c" and "kv_answers s c resp"
  shows "resp_plain resp"
proof -
  have val: "pred_option (\<lambda>x. is_token x \<and> x \<noteq> ''null'') (s k)" for k
    using assms(1) by (cases "s k") (auto simp: plain_kv_def plain_entry_def)
  show ?thesis
  proof (cases c)
    case (Scan a b)
    with assms show ?thesis
      by (auto simp: call_plain_def call_tokens_def list_all_iff plain_kv_def)
  qed (use assms val in \<open>auto simp: call_plain_def call_tokens_def\<close>)
qed

section \<open>A client and its driver\<close>

definition client_at :: "ClientProc \<Rightarrow> KvCall list \<Rightarrow> KvResp list \<Rightarrow> bool" where
  "client_at cp calls resps \<longleftrightarrow>
     cp_driver cp = Running \<and> cp_call cp = channel\<lparr>ch_items := calls\<rparr> \<and>
     cp_resp cp = channel\<lparr>ch_items := resps\<rparr> \<and> rd_rest (cp_stdout cp) = []"

lemma driver_idle:
  assumes "client_at cp [] resps"
  shows "driver_thread os cp w = (cp, w)"
  using assms
  by (simp add: client_at_def driver_thread_def driver_iter_def recv_chan_def channel_def)

lemma driver_step_idle:
  assumes "client_at (cs ! j) [] resps"
  shows "driver_step os j (cs, w) = (cs, w)"
  using driver_idle [OF assms, of os w] by (simp add: driver_step_def)

lemma wait_at:
  assumes "c < length cs" and "client_at (cs ! c) calls resps"
  shows "resps = [r] \<Longrightarrow> wait_resp os sched c (cs, w) = (Ok r, (cs[c := (cs ! c)\<lparr>cp_resp := channel\<rparr>], w))"
    and "resps = [] \<Longrightarrow> wait_resp os [] c (cs, w) = (Err (from_std RecvTimeout), (cs, w))"
    and "resps = [] \<Longrightarrow> wait_resp os (j # js) c (cs, w) = wait_resp os js c (driver_step os j (cs, w))"
  using assms
  by (simp_all add: client_at_def wait_resp.simps [of os sched] wait_resp.simps [of os "[]"]
      wait_resp.simps [of os "j # js"] poll_chan_def channel_def)

lemma driver_no_call:
  assumes "ch_items (cp_call cp) = []"
  shows "\<exists>cp'. driver_thread os cp w = (cp', w) \<and> ch_items (cp_call cp') = [] \<and>
     (client_at cp [] [] \<longrightarrow> cp' = cp)"
proof (cases "client_at cp [] []")
  case True
  with driver_idle [OF True, of os w] assms show ?thesis by simp
next
  case False
  with assms show ?thesis
    by (auto simp: driver_thread_def driver_iter_def recv_chan_def)
qed

section \<open>The contract\<close>

text \<open>What the operating system owes the fuzzer for a test to go through.\<close>

definition os_live :: "nat \<Rightarrow> 'w os \<Rightarrow> bool" where
  "os_live n os \<longleftrightarrow>
     (\<forall>w. \<forall>i < n. i \<in> set (fst (os_sched os w))) \<and> (\<forall>pid w. fst (os_kill os pid w) = Ok ()) \<and>
     (\<forall>args w. \<exists>pid. fst (os_spawn os args w) = Ok pid)"

text \<open>One call and its response, as a process sees them: a line read, the lines printed.\<close>

definition exchange :: "'w os \<Rightarrow> nat \<Rightarrow> KvCall \<Rightarrow> KvResp \<Rightarrow> 'w \<Rightarrow> 'w \<Rightarrow> bool" where
  "exchange os pid c resp w w' \<longleftrightarrow>
     (\<exists>w1 fin. os_write os pid (fmt_call c) w = (Ok (), w1) \<and>
        os_output os pid w1 = ((concat (fmt_response resp), fin), w'))"

text \<open>
  The contract of a store behind client processes. \<open>view\<close> is its content and \<open>good\<close> an invariant of
  it; a process that is written the line of an accepted call prints the line of the response the
  specification gives, and the store changes as the specification says. Scheduling, starting and
  killing processes leave the content alone.
\<close>

locale kv_service =
  fixes os :: "'w os" and view :: "'w \<Rightarrow> kv" and good :: "'w \<Rightarrow> bool" and accepts :: "KvCall \<Rightarrow> bool"
  assumes serve:
      "good w \<Longrightarrow> accepts c \<Longrightarrow> call_tokens c \<Longrightarrow>
         \<exists>resp fin w1 w2. os_write os pid (fmt_call c) w = (Ok (), w1) \<and>
           os_output os pid w1 = ((concat (fmt_response resp), fin), w2) \<and>
           kv_answers (view w) c resp \<and> view w2 = kv_apply c (view w) \<and> good w2"
    and accepts_stop: "accepts KvCall.Stop"
    and sched_keeps: "good w \<Longrightarrow> good (snd (os_sched os w)) \<and> view (snd (os_sched os w)) = view w"
    and spawn_keeps: "good w \<Longrightarrow> good (snd (os_spawn os args w)) \<and> view (snd (os_spawn os args w)) = view w"
    and kill_keeps: "good w \<Longrightarrow> good (snd (os_kill os pid w)) \<and> view (snd (os_kill os pid w)) = view w"
begin

lemma driver_serves:
  assumes "good w" and "accepts c" and "call_tokens c" and "client_at cp [c] []"
    and "\<And>resp. kv_answers (view w) c resp \<Longrightarrow> resp_plain resp"
  shows "\<exists>resp cp' w'. driver_thread os cp w = (cp', w') \<and> client_at cp' [] [resp] \<and>
     kv_answers (view w) c resp \<and> view w' = kv_apply c (view w) \<and> good w' \<and>
     exchange os (cp_handle cp) c resp w w' \<and> cp_handle cp' = cp_handle cp"
proof -
  from serve [OF assms(1-3), of "cp_handle cp"] obtain resp fin w1 w2 where
    w: "os_write os (cp_handle cp) (fmt_call c) w = (Ok (), w1)"
      "os_output os (cp_handle cp) w1 = ((concat (fmt_response resp), fin), w2)"
    and a: "kv_answers (view w) c resp" "view w2 = kv_apply c (view w)" "good w2" by blast
  have "resp_plain resp" by (rule assms(5) [OF a(1)])
  from from_read_fmt [OF this, where r = "\<lparr>rd_rest = [], rd_end = fin\<rparr>" and buffer = "[]" and rest = "[]"]
  have "from_read \<lparr>rd_rest = rd_rest (cp_stdout cp) @ concat (fmt_response resp), rd_end = fin\<rparr> []
      = Some (Ok (resp, \<lparr>rd_rest = [], rd_end = fin\<rparr>))"
    using assms(4) by (simp add: client_at_def)
  from driver_iter_answer [OF _ _ w this] assms(4) a w show ?thesis
    by (auto simp: exchange_def client_at_def driver_thread_def set_client_def channel_def)
qed

lemma stop_wait:
  assumes "good w" and "i < length cs" and "client_at (cs ! i) [KvCall.Stop] []" and "i \<in> set sched"
    and "\<forall>j < length cs. j \<noteq> i \<longrightarrow> ch_items (cp_call (cs ! j)) = []"
  shows "\<exists>cs' w'. wait_resp os sched i (cs, w) = (Ok KvResp.Stop, (cs', w')) \<and> good w' \<and> view w' = view w \<and>
     length cs' = length cs \<and> (\<forall>j < length cs. ch_items (cp_call (cs' ! j)) = [] \<and>
        (j \<noteq> i \<and> client_at (cs ! j) [] [] \<longrightarrow> cs' ! j = cs ! j))"
  using assms(2-)
proof (induction sched arbitrary: cs)
  case (Cons j js)
  note wt = wait_at(3) [OF Cons.prems(1,2) refl, of os j js w]
  show ?case
  proof (cases "j = i")
    case True
    have "resp_plain resp" if "kv_answers (view w) KvCall.Stop resp" for resp using that by simp
    from driver_serves [OF assms(1) accepts_stop _ Cons.prems(2) this] obtain cp' w' where
      dr: "driver_thread os (cs ! i) w = (cp', w')" "client_at cp' [] [KvResp.Stop]"
      and g: "good w'" "view w' = view w"
      by (auto simp: call_tokens_def)
    then have "wait_resp os (j # js) i (cs, w) = wait_resp os js i (cs[i := cp'], w')"
      using wt Cons.prems(1) True by (simp add: driver_step_def)
    also have "\<dots> = (Ok KvResp.Stop, (cs[i := cp'\<lparr>cp_resp := channel\<rparr>], w'))"
      using wait_at(1) [of i "cs[i := cp']" "[]" "[KvResp.Stop]" KvResp.Stop os js w'] Cons.prems(1) dr(2) by simp
    finally show ?thesis using Cons.prems(1,4) dr(2) g
      by (intro exI [of _ "cs[i := cp'\<lparr>cp_resp := channel\<rparr>]"] exI [of _ w'])
         (auto simp: nth_list_update client_at_def channel_def)
  next
    case False
    obtain cs1 where st: "driver_step os j (cs, w) = (cs1, w)" "length cs1 = length cs" "cs1 ! i = cs ! i"
      and other: "\<forall>k < length cs. k \<noteq> i \<longrightarrow> ch_items (cp_call (cs1 ! k)) = [] \<and>
        (client_at (cs ! k) [] [] \<longrightarrow> cs1 ! k = cs ! k)"
    proof (cases "j < length cs")
      case True
      with driver_no_call [of "cs ! j" os w] Cons.prems(4) False obtain cp' where
        "driver_thread os (cs ! j) w = (cp', w)" "ch_items (cp_call cp') = []"
        "client_at (cs ! j) [] [] \<longrightarrow> cp' = cs ! j" by blast
      with True False Cons.prems(4) show ?thesis
        by (intro that [of "cs[j := cp']"]) (auto simp: driver_step_def nth_list_update)
    next
      case no: False
      with Cons.prems(4) show ?thesis by (intro that [of cs]) (auto simp: driver_step_def)
    qed
    have "\<exists>cs' w'. wait_resp os js i (cs1, w) = (Ok KvResp.Stop, (cs', w')) \<and> good w' \<and> view w' = view w \<and>
       length cs' = length cs1 \<and> (\<forall>j < length cs1. ch_items (cp_call (cs' ! j)) = [] \<and>
          (j \<noteq> i \<and> client_at (cs1 ! j) [] [] \<longrightarrow> cs' ! j = cs1 ! j))"
      by (rule Cons.IH) (use Cons.prems False st other in auto)
    with wt st other show ?thesis by (metis (no_types, lifting))
  qed
qed simp

lemma client_stop_serves:
  assumes g: "good w" and i: "i < length cs" "client_at (cs ! i) [] []" "i \<in> set sched"
    and others: "\<forall>j < length cs. ch_items (cp_call (cs ! j)) = []"
    and kill: "\<And>pid w. fst (os_kill os pid w) = Ok ()"
  shows "\<exists>cs' w'. client_stop os sched i (cs, w) = (Ok (), (cs', w')) \<and> good w' \<and> view w' = view w \<and>
     length cs' = length cs \<and> (\<forall>j < length cs. ch_items (cp_call (cs' ! j)) = [] \<and>
        (j \<noteq> i \<and> client_at (cs ! j) [] [] \<longrightarrow> cs' ! j = cs ! j))"
proof -
  let ?cs = "cs[i := (cs ! i)\<lparr>cp_call := channel\<lparr>ch_items := [KvCall.Stop]\<rparr>\<rparr>]"
  have send: "send_call i KvCall.Stop (cs, w) = Ok (?cs, w)"
    using i by (simp add: send_call_def send_chan_def client_at_def channel_def)
  have "\<exists>cs' w'. wait_resp os sched i (?cs, w) = (Ok KvResp.Stop, (cs', w')) \<and> good w' \<and> view w' = view w \<and>
     length cs' = length ?cs \<and> (\<forall>j < length ?cs. ch_items (cp_call (cs' ! j)) = [] \<and>
        (j \<noteq> i \<and> client_at (?cs ! j) [] [] \<longrightarrow> cs' ! j = ?cs ! j))"
    by (rule stop_wait [OF g]) (use i others in \<open>auto simp: client_at_def\<close>)
  then obtain cs1 w1 where w1: "wait_resp os sched i (?cs, w) = (Ok KvResp.Stop, (cs1, w1))"
    and g1: "good w1" "view w1 = view w" and l1: "length cs1 = length cs"
    and o1: "\<forall>j < length cs. ch_items (cp_call (cs1 ! j)) = [] \<and>
        (j \<noteq> i \<and> client_at (cs ! j) [] [] \<longrightarrow> cs1 ! j = cs ! j)" by auto
  obtain w2 where k: "os_kill os (cp_handle (cs1 ! i)) w1 = (Ok (), w2)"
    using kill by (metis prod.collapse)
  have "good w2" "view w2 = view w" using kill_keeps [OF g1(1), of "cp_handle (cs1 ! i)"] k g1(2) by simp_all
  moreover have "client_stop os sched i (cs, w) = (Ok (), client_drop i (cs1, w2))"
    by (simp add: client_stop_def send w1 k)
  ultimately show ?thesis using l1 o1 i(1) by (auto simp: client_drop_def nth_list_update)
qed

end

section \<open>The traffic with the client processes\<close>

text \<open>
  What passes between the runner and its client processes: a line written to the standard input of
  a process, and what is then read from its standard output.
\<close>

datatype io_event = Wrote nat string | Printed nat string

text \<open>The traffic of a list of calls, each answered before the next is made.\<close>

definition exchanges :: "nat \<Rightarrow> KvCall list \<Rightarrow> KvResp list \<Rightarrow> io_event list" where
  "exchanges pid calls resps =
     concat (map2 (\<lambda>c r. [Wrote pid (fmt_call c), Printed pid (concat (fmt_response r))]) calls resps)"

lemma exchanges_simps [simp]:
  "exchanges pid [] resps = []"
  "exchanges pid (c # calls) (r # resps)
     = Wrote pid (fmt_call c) # Printed pid (concat (fmt_response r)) # exchanges pid calls resps"
  by (simp_all add: exchanges_def)

text \<open>The responses that the specification gives to a list of calls.\<close>

fun kv_serial :: "kv \<Rightarrow> KvCall list \<Rightarrow> KvResp list \<Rightarrow> bool" where
  "kv_serial s [] [] \<longleftrightarrow> True"
| "kv_serial s (c # cs) (r # rs) \<longleftrightarrow> kv_answers s c r \<and> kv_serial (kv_apply c s) cs rs"
| "kv_serial s _ _ \<longleftrightarrow> False"

lemma kv_serial_length: "kv_serial s calls resps \<Longrightarrow> length resps = length calls"
  by (induction s calls resps rule: kv_serial.induct) auto

lemma exchanges_append:
  "length calls = length resps \<Longrightarrow>
     exchanges pid (calls @ calls') (resps @ resps') = exchanges pid calls resps @ exchanges pid calls' resps'"
  by (induction calls resps rule: list_induct2) simp_all

text \<open>
  A system whose traffic is on record: \<open>traffic\<close> is the traffic so far, in its order. Starting, killing
  and scheduling processes are not part of it.
\<close>

locale recorded_os =
  fixes os :: "'w os" and traffic :: "'w \<Rightarrow> io_event list"
  assumes log_write: "traffic (snd (os_write os pid line w)) = traffic w @ [Wrote pid line]"
    and log_output: "traffic (snd (os_output os pid w)) = traffic w @ [Printed pid (fst (fst (os_output os pid w)))]"
    and log_spawn: "traffic (snd (os_spawn os args w)) = traffic w"
    and log_kill: "traffic (snd (os_kill os pid w)) = traffic w"
    and log_sched: "traffic (snd (os_sched os w)) = traffic w"
begin

lemma log_exchange:
  assumes "exchange os pid c resp w w'"
  shows "traffic w' = traffic w @ exchanges pid [c] [resp]"
proof -
  from assms obtain w1 fin where
    w: "os_write os pid (fmt_call c) w = (Ok (), w1)" "os_output os pid w1 = ((concat (fmt_response resp), fin), w')"
    by (auto simp: exchange_def)
  with log_write [of pid "fmt_call c" w] log_output [of pid w1] show ?thesis by simp
qed

end

locale recorded_service = kv_service os view good accepts + recorded_os os traffic
  for os :: "'w os" and view good accepts traffic

text \<open>Any system, with the record kept beside its state.\<close>

definition log_os :: "'w os \<Rightarrow> ('w \<times> io_event list) os" where
  "log_os os =
     \<lparr>os_spawn = \<lambda>args (w, l). (case os_spawn os args w of (r, w') \<Rightarrow> (r, (w', l))),
      os_write = \<lambda>pid line (w, l). (case os_write os pid line w of (r, w') \<Rightarrow> (r, (w', l @ [Wrote pid line]))),
      os_output = \<lambda>pid (w, l). (case os_output os pid w of ((out, fin), w') \<Rightarrow>
        ((out, fin), (w', l @ [Printed pid out]))),
      os_wait = \<lambda>pid (w, l). os_wait os pid w,
      os_kill = \<lambda>pid (w, l). (case os_kill os pid w of (r, w') \<Rightarrow> (r, (w', l))),
      os_sched = \<lambda>(w, l). (case os_sched os w of (sched, w') \<Rightarrow> (sched, (w', l)))\<rparr>"

interpretation logged: recorded_os "log_os os" snd for os :: "'w os"
  by unfold_locales (simp_all add: log_os_def split: prod.splits)

lemma log_os_live: "os_live n os \<Longrightarrow> os_live n (log_os os)"
  by (auto simp: os_live_def log_os_def split: prod.splits) (metis fst_conv)+

lemma log_os_service:
  assumes "kv_service os view good accepts"
  shows "recorded_service (log_os os) (\<lambda>w. view (fst w)) (\<lambda>w. good (fst w)) accepts snd"
proof -
  have "kv_service (log_os os) (\<lambda>w. view (fst w)) (\<lambda>w. good (fst w)) accepts"
  proof (unfold_locales, goal_cases)
    case (1 w c pid)
    from kv_service.serve [OF assms 1(1-3), of pid] obtain resp fin w1 w2 where
      "os_write os pid (fmt_call c) (fst w) = (Ok (), w1)"
      "os_output os pid w1 = ((concat (fmt_response resp), fin), w2)"
      "kv_answers (view (fst w)) c resp" "view w2 = kv_apply c (view (fst w))" "good w2" by blast
    then show ?case
      by (intro exI [of _ resp] exI [of _ fin] exI [of _ "(w1, snd w @ [Wrote pid (fmt_call c)])"]
          exI [of _ "(w2, snd w @ [Wrote pid (fmt_call c), Printed pid (concat (fmt_response resp))])"])
         (auto simp: log_os_def split: prod.split)
  next
    case 2
    then show ?case by (rule kv_service.accepts_stop [OF assms])
  next
    case (3 w)
    with kv_service.sched_keeps [OF assms, of "fst w"] show ?case by (auto simp: log_os_def split: prod.splits)
  next
    case (4 w args)
    with kv_service.spawn_keeps [OF assms, of "fst w" args] show ?case by (auto simp: log_os_def split: prod.splits)
  next
    case (5 w pid)
    with kv_service.kill_keeps [OF assms, of "fst w" pid] show ?case by (auto simp: log_os_def split: prod.splits)
  qed
  then show ?thesis by (intro recorded_service.intro logged.recorded_os_axioms)
qed

section \<open>Processes behind a client\<close>

text \<open>
  A process that handles a line at a time, shared by \<open>n\<close> clients: the map it keeps and the text it has
  still to print. \<open>round\<close> is the body of its loop, the reference client's \<open>cli_round\<close> for one.
\<close>

record cli_world =
  cw_state :: cli_state
  cw_out :: string

definition cli_os ::
  "(KvCall \<Rightarrow> cli_state \<Rightarrow> string \<Rightarrow> (bool \<times> cli_state \<times> string, string) run) \<Rightarrow> nat \<Rightarrow> cli_world os" where
  "cli_os round n =
     \<lparr>os_spawn = \<lambda>_ w. (Ok 0, w),
      os_write = \<lambda>_ line w.
        (case cli_read_call \<lparr>rd_rest = line, rd_end = Blocks\<rparr> of
           Some (Ok (c, _)) \<Rightarrow>
             (case round c (cw_state w) (cw_out w) of
                Ok (_, st, out) \<Rightarrow> (Ok (), \<lparr>cw_state = st, cw_out = out\<rparr>)
              | _ \<Rightarrow> (Ok (), w))
         | _ \<Rightarrow> (Ok (), w)),
      os_output = \<lambda>_ w. ((cw_out w, Blocks), w\<lparr>cw_out := []\<rparr>),
      os_wait = \<lambda>_ _. None, os_kill = \<lambda>_ w. (Ok (), w), os_sched = \<lambda>w. ([0..<n], w)\<rparr>"

definition ref_round :: "KvCall \<Rightarrow> cli_state \<Rightarrow> string \<Rightarrow> (bool \<times> cli_state \<times> string, string) run" where
  "ref_round = cli_round sink"

text \<open>The same with a scan that includes its end key.\<close>

definition closed_round :: "KvCall \<Rightarrow> cli_state \<Rightarrow> string \<Rightarrow> (bool \<times> cli_state \<times> string, string) run" where
  "closed_round c st out =
     (case c of
        KvCall.Scan a b \<Rightarrow>
          Ok (False, st, out @ concat (fmt_response
            (KvResp.Scan a b (filter (\<lambda>(k, v). a \<le> k \<and> k \<le> b) st))))
      | _ \<Rightarrow> ref_round c st out)"

definition cw_view :: "cli_world \<Rightarrow> kv" where
  "cw_view w = cli_view (cw_state w)"

definition cw_good :: "cli_world \<Rightarrow> bool" where
  "cw_good w \<longleftrightarrow> bt_sorted (cw_state w) \<and> cw_out w = []"

definition no_scan :: "KvCall \<Rightarrow> bool" where
  "no_scan c \<longleftrightarrow> (\<nexists>a b. c = KvCall.Scan a b)"

definition empty_world :: cli_world where
  "empty_world = \<lparr>cw_state = [], cw_out = []\<rparr>"

lemma empty_world_good: "cw_good empty_world" and empty_world_view: "cw_view empty_world = Map.empty"
  by (auto simp: empty_world_def cw_good_def cw_view_def bt_sorted_def)

lemma cli_os_serve:
  assumes good: "cw_good w" and tok: "call_tokens c"
    and rnd: "round c (cw_state w) [] = Ok (b, st, concat (fmt_response resp))"
    and post: "bt_sorted st" "cli_view st = kv_apply c (cw_view w)" "kv_answers (cw_view w) c resp"
  shows "\<exists>resp fin w1 w2. os_write (cli_os round n) pid (fmt_call c) w = (Ok (), w1) \<and>
     os_output (cli_os round n) pid w1 = ((concat (fmt_response resp), fin), w2) \<and>
     kv_answers (cw_view w) c resp \<and> cw_view w2 = kv_apply c (cw_view w) \<and> cw_good w2"
proof -
  have "cli_read_call \<lparr>rd_rest = fmt_call c, rd_end = Blocks\<rparr> = Some (Ok (c, \<lparr>rd_rest = [], rd_end = Blocks\<rparr>))"
    using cli_read_call_fmt [OF tok, where r = "\<lparr>rd_rest = [], rd_end = Blocks\<rparr>" and rest = "[]"] by simp
  then have "os_write (cli_os round n) pid (fmt_call c) w
      = (Ok (), \<lparr>cw_state = st, cw_out = concat (fmt_response resp)\<rparr>)"
    using rnd good by (simp add: cli_os_def cw_good_def)
  with post show ?thesis
    by (intro exI [of _ resp] exI [of _ Blocks] exI [of _ "\<lparr>cw_state = st, cw_out = concat (fmt_response resp)\<rparr>"]
        exI [of _ "\<lparr>cw_state = st, cw_out = []\<rparr>"])
       (auto simp: cli_os_def cw_view_def cw_good_def)
qed

lemma ref_round_serves:
  assumes "cw_good w" and "no_scan c"
  shows "\<exists>b st resp. ref_round c (cw_state w) [] = Ok (b, st, concat (fmt_response resp)) \<and> bt_sorted st \<and>
     cli_view st = kv_apply c (cw_view w) \<and> kv_answers (cw_view w) c resp"
proof -
  have so: "bt_sorted (cw_state w)" using assms(1) by (simp add: cw_good_def)
  have "scan_ordered c" using assms(2) by (cases c) (auto simp: scan_ordered_def no_scan_def)
  from handle_total [OF so this] obtain resp st where h: "handle_kv_call c (cw_state w) = Ok (resp, st)" by blast
  have "\<nexists>a b. c = KvCall.Scan a b" using assms(2) by (simp add: no_scan_def)
  from handle_update [OF so h] handle_answers [OF so h this] h show ?thesis
    by (auto simp: ref_round_def cli_round_def write_response_def write_lines_sink cw_view_def)
qed

interpretation cli: kv_service "cli_os ref_round n" cw_view cw_good no_scan for n
proof (unfold_locales, goal_cases)
  case (1 w c pid)
  from ref_round_serves [OF 1(1,2)] cli_os_serve [OF 1(1,3)] show ?case by blast
qed (simp_all add: no_scan_def cli_os_def)

lemma closed_round_serves:
  assumes "cw_good w"
  shows "\<exists>b st resp. closed_round c (cw_state w) [] = Ok (b, st, concat (fmt_response resp)) \<and> bt_sorted st \<and>
     cli_view st = kv_apply c (cw_view w) \<and> kv_answers (cw_view w) c resp"
proof (cases "no_scan c")
  case True
  then have "closed_round c (cw_state w) [] = ref_round c (cw_state w) []"
    by (cases c) (auto simp: closed_round_def no_scan_def)
  with ref_round_serves [OF assms True] show ?thesis by simp
next
  case False
  then obtain a b where c: "c = KvCall.Scan a b" by (auto simp: no_scan_def)
  let ?es = "filter (\<lambda>(k, v). a \<le> k \<and> k \<le> b) (cw_state w)"
  have so: "bt_sorted (cw_state w)" using assms by (simp add: cw_good_def)
  then have d: "distinct (map fst (cw_state w))" by (auto simp: bt_sorted_def strict_sorted_iff)
  have "kv_answers (cw_view w) c (KvResp.Scan a b ?es)"
    using distinct_map_filter [OF d] d by (auto simp: c cw_view_def bt_get_eq_map_of)
  moreover have "closed_round c (cw_state w) []
      = Ok (False, cw_state w, concat (fmt_response (KvResp.Scan a b ?es)))" by (simp add: closed_round_def c)
  moreover have "kv_apply c (cw_view w) = cw_view w" by (simp add: c)
  ultimately show ?thesis using so unfolding cw_view_def
    by (intro exI [of _ False] exI [of _ "cw_state w"] exI [of _ "KvResp.Scan a b ?es"] conjI) simp_all
qed

interpretation closed: kv_service "cli_os closed_round n" cw_view cw_good "\<lambda>_. True" for n
proof (unfold_locales, goal_cases)
  case (1 w c pid)
  from closed_round_serves [OF 1(1), of c] cli_os_serve [OF 1(1,3)] show ?case by blast
qed (simp_all add: cli_os_def)

interpretation cli_logged: recorded_service
  "log_os (cli_os ref_round n)" "\<lambda>w. cw_view (fst w)" "\<lambda>w. cw_good (fst w)" no_scan snd for n
  by (rule log_os_service [OF cli.kv_service_axioms])

lemma cli_os_live: "os_live n (cli_os round n)"
  by (simp add: os_live_def cli_os_def)

end
