(* ===== verification/FuzzLin.thy ===== *)
theory FuzzLin
  imports FuzzInv Store
begin

text \<open>
  The fuzzer against a correct store. If every client process answers as one sequential key-value
  store would, the test never fails: the operations that have taken effect, in the order in which
  the driver threads carried them out, are a linearization of what the fuzzer has harvested, extended
  by the operations that are answered but not yet harvested. If moreover no wait times out, the test
  passes.
\<close>

section \<open>Generated calls are plain\<close>

text \<open>The calls the fuzzer generates.\<close>

lemma alphanumeric_token:
  assumes "list_all is_alphanumeric s" and "s \<noteq> []"
  shows "is_token s"
proof -
  have "\<not> is_whitespace c" if "is_alphanumeric c" for c
    using that by (auto simp: is_alphanumeric_def is_whitespace_def Let_def)
  with assms show ?thesis by (auto simp: is_token_def list_all_iff)
qed

lemma call_over_plain:
  assumes "list_all key_ok ks" and "call_over ks c"
  shows "call_plain c"
proof -
  have key: "is_token k \<and> length k = 8" if "k \<in> set ks" for k
    using assms(1) that alphanumeric_token [of k] by (fastforce simp: key_ok_def KEY_LEN_def list_all_iff)
  have val: "is_token v \<and> v \<noteq> ''null''" if "length v = VALUE_LEN" "list_all is_alphanumeric v" for v
    using alphanumeric_token [of v] that by (fastforce simp: VALUE_LEN_def)
  from assms(2) key val show ?thesis
    by (cases c) (auto simp: call_plain_def call_tokens_def plain_entry_def VALUE_LEN_def)
qed

section \<open>The linearization\<close>

text \<open>
  \<open>ans c\<close> is the response of client \<open>c\<close>'s operation on the fly once its driver has it. Such an
  operation is on the linearization with a response time beyond all time stamps of the test.
\<close>

definition pend_ack ::
  "nat \<Rightarrow> (u64 \<times> (string \<times> string option) option) list \<Rightarrow> (nat \<Rightarrow> KvCall) \<Rightarrow> nat \<Rightarrow> KvResp \<Rightarrow> ack" where
  "pend_ack base memo cur c resp =
     \<lparr>ak_cidx = c, ak_call = cur c, ak_ts_call = fst (memo ! c), ak_ts_resp = of_nat (base + c),
      ak_resp = resp\<rparr>"

definition pends ::
  "nat \<Rightarrow> nat \<Rightarrow> (u64 \<times> (string \<times> string option) option) list \<Rightarrow> (nat \<Rightarrow> KvCall)
     \<Rightarrow> (nat \<Rightarrow> KvResp option) \<Rightarrow> ack list" where
  "pends n base memo cur ans =
     map (\<lambda>c. pend_ack base memo cur c (the (ans c))) (filter (\<lambda>c. ans c \<noteq> None) [0..<n])"

definition lin_inv ::
  "nat \<Rightarrow> nat \<Rightarrow> ('w \<Rightarrow> kv) \<Rightarrow> ('w \<Rightarrow> bool) \<Rightarrow> ack list \<Rightarrow> (nat \<Rightarrow> KvCall) \<Rightarrow> (nat \<Rightarrow> KvResp option)
     \<Rightarrow> ack list \<Rightarrow> ('w, 'g) fuzz \<Rightarrow> bool" where
  "lin_inv n base view good as cur ans lin st \<longleftrightarrow>
     length (fst (fz_sys st)) = n \<and> good (snd (fz_sys st)) \<and>
     mset lin = mset (as @ pends n base (fz_memo st) cur ans) \<and>
     real_time lin \<and> legal Map.empty lin \<and>
     kv_run lin Map.empty = view (snd (fz_sys st)) \<and> plain_kv (view (snd (fz_sys st))) \<and>
     (\<forall>c < n. (ans c \<noteq> None \<longrightarrow> fz_flying st ! c) \<and> (fz_flying st ! c \<longrightarrow> call_plain (cur c)) \<and>
        client_at (fst (fz_sys st) ! c) (if fz_flying st ! c \<and> ans c = None then [cur c] else [])
          (case ans c of None \<Rightarrow> [] | Some r \<Rightarrow> [r]))"

lemma mset_pends:
  "mset (pends n base memo cur ans)
     = image_mset (\<lambda>c. pend_ack base memo cur c (the (ans c))) (mset_set {c. c < n \<and> ans c \<noteq> None})"
  by (auto simp: pends_def intro: arg_cong [where f = "image_mset _"] arg_cong [where f = mset_set])

lemma mset_pends_set:
  assumes "c < n" and "ans c = None"
  shows "mset (pends n base memo cur (ans(c := Some r)))
    = add_mset (pend_ack base memo cur c r) (mset (pends n base memo cur ans))"
proof -
  let ?S = "{d. d < n \<and> ans d \<noteq> None}"
  have "{d. d < n \<and> (ans(c := Some r)) d \<noteq> None} = insert c ?S" using assms(1) by auto
  moreover have "c \<notin> ?S" using assms(2) by simp
  moreover have "image_mset (\<lambda>d. pend_ack base memo cur d (the ((ans(c := Some r)) d))) (mset_set ?S)
      = image_mset (\<lambda>d. pend_ack base memo cur d (the (ans d))) (mset_set ?S)"
    using assms(2) by (intro image_mset_cong) auto
  ultimately show ?thesis by (simp add: mset_pends)
qed

lemma pends_cong:
  assumes "\<And>d. d < n \<Longrightarrow> ans d \<noteq> None \<Longrightarrow> memo ! d = memo' ! d \<and> cur d = cur' d"
  shows "pends n base memo cur ans = pends n base memo' cur' ans"
  using assms by (auto simp: pends_def pend_ack_def)

lemma pends_mem:
  "a \<in> set (pends n base memo cur ans) \<longleftrightarrow> (\<exists>c r. c < n \<and> ans c = Some r \<and> a = pend_ack base memo cur c r)"
  by (force simp: pends_def)

lemma pend_ack_sel [simp]:
  "ak_cidx (pend_ack base memo cur c r) = c" "ak_call (pend_ack base memo cur c r) = cur c"
  "ak_ts_call (pend_ack base memo cur c r) = fst (memo ! c)" "ak_resp (pend_ack base memo cur c r) = r"
  "ak_ts_resp (pend_ack base memo cur c r) = of_nat (base + c)"
  by (simp_all add: pend_ack_def)

lemma legal_snoc: "legal s (lin @ [a]) \<longleftrightarrow> legal s lin \<and> kv_answers (kv_run lin s) (ak_call a) (ak_resp a)"
  by (simp add: legal_append)

lemma kv_run_snoc: "kv_run (lin @ [a]) s = kv_apply (ak_call a) (kv_run lin s)"
  by (simp add: kv_run_def)

lemma real_time_snoc:
  "real_time (lin @ [a]) \<longleftrightarrow> real_time lin \<and> (\<forall>b \<in> set lin. \<not> ak_ts_resp a < ak_ts_call b)"
  by (auto simp: real_time_def sorted_wrt_append)

text \<open>Only calls and responses matter for legality.\<close>

lemma kv_run_replace:
  "ak_call a = ak_call b \<Longrightarrow> kv_run (xs @ a # ys) s = kv_run (xs @ b # ys) s"
  by (simp add: kv_run_def)

lemma legal_replace:
  "ak_call a = ak_call b \<Longrightarrow> ak_resp a = ak_resp b \<Longrightarrow> legal s (xs @ a # ys) = legal s (xs @ b # ys)"
  by (simp add: legal_append)

lemma unat_pend:
  assumes "base + n < 2 ^ 64" and "c \<le> n"
  shows "unat (of_nat (base + c) :: u64) = base + c"
  using assms by (simp add: unat_of_nat take_bit_nat_eq_self del: of_nat_add)

text \<open>All calls on the linearization were made by now.\<close>

lemma lin_calls_old:
  assumes inv: "fuzz_inv n keys tot as cur st" and lin: "lin_inv n base view good as cur ans lin st"
    and a: "a \<in> set lin"
  shows "ak_ts_call a \<le> fz_timestamp st"
proof -
  have "a \<in> set as \<or> a \<in> set (pends n base (fz_memo st) cur ans)"
    using lin a unfolding lin_inv_def by (metis Un_iff set_append set_mset_mset)
  then show ?thesis
  proof
    assume "a \<in> set as"
    then have "ak_ts_call a < ak_ts_resp a" "ak_ts_resp a \<le> fz_timestamp st"
      using inv by (auto simp: fuzz_inv_def acks_inv_def wf_acks_def ack_ok_def list_all_iff)
    then show ?thesis by simp
  next
    assume "a \<in> set (pends n base (fz_memo st) cur ans)"
    with inv lin show ?thesis
      by (auto simp: pends_mem fuzz_inv_def lin_inv_def flight_inv_def)
  qed
qed

section \<open>Steps\<close>

lemma fz_sys_self: "fz_sys st = s \<Longrightarrow> st\<lparr>fz_sys := s\<rparr> = st"
  by auto

lemma fuzz_inv_sys:
  "fuzz_inv n keys tot as cur st \<Longrightarrow> length (fst s) = n \<Longrightarrow> fuzz_inv n keys tot as cur (st\<lparr>fz_sys := s\<rparr>)"
  unfolding fuzz_inv_def by (elim conjE) simp

lemma lin_sched:
  assumes "kv_service os view good (\<lambda>_. True)" and "lin_inv n base view good as cur ans lin st"
    and "os_sched os (snd (fz_sys st)) = (sched, w)"
  shows "lin_inv n base view good as cur ans lin (st\<lparr>fz_sys := (fst (fz_sys st), w)\<rparr>)"
proof -
  have "good (snd (fz_sys st))" using assms(2) by (simp add: lin_inv_def)
  from kv_service.sched_keeps [OF assms(1) this] assms(2,3) show ?thesis by (simp add: lin_inv_def)
qed

lemma lin_drive:
  assumes sv: "kv_service os view good (\<lambda>_. True)" and lin: "lin_inv n base view good as cur ans lin st"
    and inv: "fuzz_inv n keys tot as cur st"
    and room: "2 * tot < base" "base + n < 2 ^ 64"
  shows "\<exists>ans' lin'. lin_inv n base view good as cur ans' lin' (st\<lparr>fz_sys := driver_step os j (fz_sys st)\<rparr>) \<and>
     (\<forall>c. ans c \<noteq> None \<longrightarrow> ans' c = ans c) \<and> (j < n \<and> fz_flying st ! j \<longrightarrow> ans' j \<noteq> None)"
proof -
  obtain cs w where s: "fz_sys st = (cs, w)" by (cases "fz_sys st")
  note L = lin [unfolded lin_inv_def s, simplified]
  show ?thesis
  proof (cases "j < n \<and> fz_flying st ! j \<and> ans j = None")
    case False
    have "driver_step os j (cs, w) = (cs, w)"
    proof (cases "j < n")
      case True
      with L have "client_at (cs ! j) (if fz_flying st ! j \<and> ans j = None then [cur j] else [])
          (case ans j of None \<Rightarrow> [] | Some r \<Rightarrow> [r])" by blast
      with False True obtain resps where "client_at (cs ! j) [] resps" by (auto split: if_splits)
      then show ?thesis by (rule driver_step_idle)
    qed (use L in \<open>simp add: driver_step_def\<close>)
    with s lin False show ?thesis by (intro exI [of _ ans] exI [of _ lin]) (auto simp: fz_sys_self)
  next
    case True
    then have j: "j < n" "fz_flying st ! j" "ans j = None" by auto
    with L have at: "client_at (cs ! j) [cur j] []" and pl: "call_plain (cur j)" "plain_kv (view w)" by auto
    from pl(1) have "call_tokens (cur j)" by (simp add: call_plain_def)
    from kv_service.driver_serves [OF sv _ _ this at kv_answers_plain [OF pl(2,1)]] L obtain resp cp' w' where
      dr: "driver_thread os (cs ! j) w = (cp', w')" "client_at cp' [] [resp]"
      and an: "kv_answers (view w) (cur j) resp" "view w' = kv_apply (cur j) (view w)" "good w'" by blast
    let ?p = "pend_ack base (fz_memo st) cur j resp"
    have step: "driver_step os j (cs, w) = (cs[j := cp'], w')" using dr(1) j L by (simp add: driver_step_def)
    have "\<not> of_nat (base + j) < ak_ts_call a" if "a \<in> set lin" for a
    proof -
      have "unat (ak_ts_call a) \<le> unat (fz_timestamp st)"
        using lin_calls_old [OF inv lin that] by (simp add: word_le_nat_alt)
      also have "\<dots> \<le> 2 * tot" using inv by (auto simp: fuzz_inv_def)
      finally show ?thesis using room unat_pend [OF room(2), of j] j(1) by (simp add: word_less_nat_alt)
    qed
    then have "real_time (lin @ [?p])" using L by (simp add: real_time_snoc)
    moreover have "legal Map.empty (lin @ [?p])" using L an(1) by (simp add: legal_snoc)
    moreover have "kv_run (lin @ [?p]) Map.empty = view w'" using L an(2) by (simp add: kv_run_snoc)
    moreover have "plain_kv (view w')" using an(2) plain_kv_apply [OF pl(2,1)] by simp
    moreover have "mset (lin @ [?p]) = mset (as @ pends n base (fz_memo st) cur (ans(j := Some resp)))"
      using L mset_pends_set [of j n ans base "fz_memo st" cur resp] j by simp
    ultimately have "lin_inv n base view good as cur (ans(j := Some resp)) (lin @ [?p])
        (st\<lparr>fz_sys := (cs[j := cp'], w')\<rparr>)"
      using L j dr(2) an(3) by (auto simp: lin_inv_def nth_list_update)
    with step s j show ?thesis by (intro exI [of _ "ans(j := Some resp)"] exI [of _ "lin @ [?p]"]) auto
  qed
qed

text \<open>Waiting for client \<open>c\<close>: up to the response, drivers go on; then it is taken from the channel.\<close>

lemma lin_client:
  assumes "lin_inv n base view good as cur ans lin st" and "c < n" and "fz_flying st ! c"
  shows "c < length (fst (fz_sys st))"
    and "client_at (fst (fz_sys st) ! c) (if ans c = None then [cur c] else [])
          (case ans c of None \<Rightarrow> [] | Some r \<Rightarrow> [r])"
  using assms by (auto simp: lin_inv_def)

lemma lin_wait_answered:
  assumes "lin_inv n base view good as cur ans lin st" and "c < n" and "fz_flying st ! c" and "ans c = Some r"
  shows "wait_resp os sched c (fz_sys st)
     = (Ok r, ((fst (fz_sys st))[c := (fst (fz_sys st) ! c)\<lparr>cp_resp := channel\<rparr>], snd (fz_sys st)))"
  using wait_at(1) [OF lin_client [OF assms(1-3)], of r os sched "snd (fz_sys st)"] assms(4) by simp

lemma lin_wait:
  assumes sv: "kv_service os view good (\<lambda>_. True)" and lin: "lin_inv n base view good as cur ans lin st"
    and inv: "fuzz_inv n keys tot as cur st" and c: "c < n" "fz_flying st ! c"
    and room: "2 * tot < base" "base + n < 2 ^ 64"
    and wr: "wait_resp os sched c (fz_sys st) = (res, s')"
  shows "(res = Err (from_std RecvTimeout) \<and> c \<notin> set sched) \<or>
     (\<exists>resp ans' lin' s1. res = Ok resp \<and> lin_inv n base view good as cur ans' lin' (st\<lparr>fz_sys := s1\<rparr>) \<and>
        ans' c = Some resp \<and> s' = ((fst s1)[c := (fst s1 ! c)\<lparr>cp_resp := channel\<rparr>], snd s1))"
  using lin inv c(2) wr
proof (induction sched arbitrary: ans lin st)
  case Nil
  note at = lin_client [OF Nil.prems(1) c(1) Nil.prems(3)]
  show ?case
  proof (cases "ans c")
    case None
    with wait_at(2) [OF at, of os "snd (fz_sys st)"] Nil.prems(4) show ?thesis by simp
  next
    case (Some r)
    with lin_wait_answered [OF Nil.prems(1) c(1) Nil.prems(3) Some] Nil.prems(1,4) show ?thesis
      by (intro disjI2 exI [of _ r] exI [of _ ans] exI [of _ lin] exI [of _ "fz_sys st"]) simp
  qed
next
  case (Cons j js)
  note at = lin_client [OF Cons.prems(1) c(1) Cons.prems(3)]
  show ?case
  proof (cases "ans c")
    case (Some r)
    with lin_wait_answered [OF Cons.prems(1) c(1) Cons.prems(3) Some] Cons.prems(1,4) show ?thesis
      by (intro disjI2 exI [of _ r] exI [of _ ans] exI [of _ lin] exI [of _ "fz_sys st"]) simp
  next
    case None
    let ?st = "st\<lparr>fz_sys := driver_step os j (fz_sys st)\<rparr>"
    from lin_drive [OF sv Cons.prems(1,2) room, of j] obtain ans' lin' where
      l': "lin_inv n base view good as cur ans' lin' ?st"
      and j: "j < n \<and> fz_flying st ! j \<longrightarrow> ans' j \<noteq> None" by blast
    have i': "fuzz_inv n keys tot as cur ?st"
      using Cons.prems(2) l' by (intro fuzz_inv_sys) (simp_all add: lin_inv_def)
    have f': "fz_flying ?st ! c" using Cons.prems(3) by simp
    have w': "wait_resp os js c (fz_sys ?st) = (res, s')"
      using wait_at(3) [OF at, of os j js "snd (fz_sys st)"] None Cons.prems(4) by simp
    have "j \<noteq> c" if "res = Err (from_std RecvTimeout)"
      using lin_wait_answered [OF l' c(1) f'] w' that j c(1) Cons.prems(3) by (cases "ans' c") auto
    with Cons.IH [OF l' i' f' w'] show ?thesis by (auto simp del: split_paired_Ex)
  qed
qed

lemma lin_send:
  assumes lin: "lin_inv n base view good as cur ans lin st" and c: "c < n" "\<not> fz_flying st ! c"
    and len: "length (fz_flying st) = n" "length (fz_memo st) = n" and pl: "call_plain call"
    and send: "send_call c call (fz_sys st) = Ok (fz_sys st')"
    and st': "fz_flying st' = (fz_flying st)[c := True]" "fz_memo st' = (fz_memo st)[c := m]"
  shows "lin_inv n base view good as (cur(c := call)) ans lin st'"
proof -
  obtain cs w where s: "fz_sys st = (cs, w)" by (cases "fz_sys st")
  note L = lin [unfolded lin_inv_def s, simplified]
  have no: "ans c = None" using L c by (cases "ans c") auto
  have at: "client_at (cs ! c) [] []" using L c no by auto
  then have s': "fz_sys st' = (cs[c := (cs ! c)\<lparr>cp_call := channel\<lparr>ch_items := [call]\<rparr>\<rparr>], w)"
    using send c(1) L s by (auto simp: send_call_def send_chan_def client_at_def channel_def)
  have "pends n base (fz_memo st') (cur(c := call)) ans = pends n base (fz_memo st) cur ans"
    using no st'(2) by (intro pends_cong) auto
  moreover have "(ans d \<noteq> None \<longrightarrow> fz_flying st' ! d) \<and> (fz_flying st' ! d \<longrightarrow> call_plain ((cur(c := call)) d)) \<and>
      client_at (fst (fz_sys st') ! d) (if fz_flying st' ! d \<and> ans d = None then [(cur(c := call)) d] else [])
        (case ans d of None \<Rightarrow> [] | Some r \<Rightarrow> [r])" if d: "d < n" for d
  proof (cases "d = c")
    case True
    with d c no at pl len L show ?thesis unfolding s' st'(1) by (simp add: client_at_def)
  next
    case False
    from L d have "(ans d \<noteq> None \<longrightarrow> fz_flying st ! d) \<and> (fz_flying st ! d \<longrightarrow> call_plain (cur d)) \<and>
        client_at (cs ! d) (if fz_flying st ! d \<and> ans d = None then [cur d] else [])
          (case ans d of None \<Rightarrow> [] | Some r \<Rightarrow> [r])" by simp
    with False show ?thesis unfolding s' st'(1) by (auto split: if_splits)
  qed
  ultimately show ?thesis using L unfolding lin_inv_def s' by simp
qed

text \<open>The send cannot fail: the driver holds the other end of the channel.\<close>

lemma lin_send_Ok:
  assumes "lin_inv n base view good as cur ans lin st" and "c < n"
  shows "\<exists>s. send_call c call (fz_sys st) = Ok s"
proof -
  obtain cs w where s: "fz_sys st = (cs, w)" by (cases "fz_sys st")
  from assms have "\<exists>calls resps. client_at (cs ! c) calls resps" "c < length cs"
    unfolding lin_inv_def s by auto
  then show ?thesis unfolding s by (auto simp: send_call_def send_chan_def client_at_def channel_def)
qed

text \<open>A harvested response: the operation gets its response time.\<close>

lemma lin_recv:
  assumes lin: "lin_inv n base view good as cur ans lin (st\<lparr>fz_sys := s1\<rparr>)"
    and inv: "fuzz_inv n keys tot as cur st" and room: "2 * tot + 2 < 2 ^ 64"
    and c: "c < n" "ans c = Some resp"
    and st': "fz_sys st' = ((fst s1)[c := (fst s1 ! c)\<lparr>cp_resp := channel\<rparr>], snd s1)"
      "fz_flying st' = (fz_flying st)[c := False]" "fz_memo st' = (fz_memo st)[c := m]"
  shows "\<exists>lin'. lin_inv n base view good (as @ [harvested st cur c resp]) cur (ans(c := None)) lin' st'"
proof -
  let ?a = "harvested st cur c resp" and ?p = "pend_ack base (fz_memo st) cur c resp"
  obtain cs w where s1: "s1 = (cs, w)" by (cases s1)
  note L = lin [unfolded lin_inv_def s1, simplified]
  have len: "length (fz_flying st) = n" using inv by (simp add: fuzz_inv_def)
  have i1: "fuzz_inv n keys tot as cur (st\<lparr>fz_sys := s1\<rparr>)"
    using inv L by (intro fuzz_inv_sys) (simp_all add: s1)
  have upd: "(ans(c := None))(c := Some resp) = ans" using c(2) by auto
  have ms: "mset (pends n base (fz_memo st) cur ans)
      = add_mset ?p (mset (pends n base (fz_memo st) cur (ans(c := None))))"
    using mset_pends_set [of c n "ans(c := None)" base "fz_memo st" cur resp] c(1) unfolding upd by simp
  have "?p \<in> set lin" using L ms by (metis UnCI set_append set_mset_mset union_single_eq_member mset_append)
  then obtain xs ys where xs: "lin = xs @ ?p # ys" by (meson split_list)
  let ?lin = "xs @ ?a # ys"
  have sel: "ak_call ?a = ak_call ?p" "ak_resp ?a = ak_resp ?p" "ak_ts_call ?a = ak_ts_call ?p"
    "ak_ts_resp ?a = fz_timestamp st + 1" by (simp_all add: harvested_def)
  have old: "\<not> ak_ts_resp ?a < ak_ts_call x" if "x \<in> set xs" for x
    using lin_calls_old [OF i1 lin, of x] that next_timestamp(1) [OF inv room]
    by (auto simp: xs sel(4))
  have "real_time ?lin"
    using L old sel(3) by (auto simp: xs real_time_def sorted_wrt_append)
  moreover have "legal Map.empty ?lin" "kv_run ?lin Map.empty = view w"
    using L legal_replace [OF sel(1,2)] kv_run_replace [OF sel(1)] by (simp_all add: xs)
  moreover have "pends n base (fz_memo st') cur (ans(c := None)) = pends n base (fz_memo st) cur (ans(c := None))"
    using st'(3) by (intro pends_cong) (auto split: if_splits)
  then have "mset ?lin = mset ((as @ [?a]) @ pends n base (fz_memo st') cur (ans(c := None)))"
    using L ms by (simp add: xs)
  moreover have "client_at ((cs ! c)\<lparr>cp_resp := channel\<rparr>) [] []"
    using L c by (auto simp: client_at_def channel_def)
  then have "((ans(c := None)) d \<noteq> None \<longrightarrow> fz_flying st' ! d) \<and> (fz_flying st' ! d \<longrightarrow> call_plain (cur d)) \<and>
      client_at (fst (fz_sys st') ! d) (if fz_flying st' ! d \<and> (ans(c := None)) d = None then [cur d] else [])
        (case (ans(c := None)) d of None \<Rightarrow> [] | Some r \<Rightarrow> [r])" if d: "d < n" for d
    using d L c len unfolding st'(1,2) s1 by (cases "d = c") simp_all
  ultimately have "lin_inv n base view good (as @ [?a]) cur (ans(c := None)) ?lin st'"
    using L unfolding lin_inv_def st'(1) s1 by simp
  then show ?thesis ..
qed

section \<open>No false alarm\<close>

lemma pends_sorted:
  assumes "base + n < 2 ^ 64"
  shows "sorted_wrt (\<lambda>a b. ak_cidx a < ak_cidx b \<and> ak_ts_resp a < ak_ts_resp b) (pends n base memo cur ans)"
proof -
  have lt: "(of_nat (base + c) :: u64) < of_nat (base + d)" if "c < d" "d < n" for c d
    using unat_pend [OF assms, of c] unat_pend [OF assms, of d] that by (simp add: word_less_nat_alt)
  have "sorted_wrt (<) (filter (\<lambda>c. ans c \<noteq> None) [0..<n])" by (simp add: sorted_wrt_filter)
  then have "sorted_wrt (\<lambda>c d. c < d \<and> (of_nat (base + c) :: u64) < of_nat (base + d))
      (filter (\<lambda>c. ans c \<noteq> None) [0..<n])"
    by (rule sorted_wrt_mono_rel [rotated]) (use lt in auto)
  then show ?thesis by (simp add: pends_def sorted_wrt_map)
qed

text \<open>An operation on the fly, seen as one that ends after the test.\<close>

lemma pend_ack_props:
  assumes fl: "flight_inv keys as t c (cur c) (memo ! c)" and c: "c < n" and t: "unat t < base"
    and room: "base + n < 2 ^ 64" and len: "length keys = n" and p: "p = pend_ack base memo cur c r"
  shows "t < ak_ts_resp p" and "ak_ts_call p \<le> t" and "ack_ok n (key_pool n keys) p"
    and "\<forall>a \<in> set as. ak_ts_resp a \<noteq> ak_ts_call p \<and> (ak_cidx a = ak_cidx p \<longrightarrow> ak_ts_resp a < ak_ts_call p)"
proof -
  show lt: "t < ak_ts_resp p"
    using t unat_pend [OF room, of c] c by (simp add: p word_less_nat_alt)
  show le: "ak_ts_call p \<le> t" using fl by (simp add: p flight_inv_def)
  show "ack_ok n (key_pool n keys) p"
    using le_less_trans [OF le lt] fl c len call_over_pool [of keys c "cur c" _ _ n]
    by (auto simp: p ack_ok_def flight_inv_def split: option.splits)
  show "\<forall>a \<in> set as. ak_ts_resp a \<noteq> ak_ts_call p \<and> (ak_cidx a = ak_cidx p \<longrightarrow> ak_ts_resp a < ak_ts_call p)"
    using fl by (auto simp: p flight_inv_def)
qed

text \<open>The harvested operations with those answered but not yet harvested are a well-formed run.\<close>

lemma pends_wf:
  assumes ai: "acks_inv n keys as t" and t: "unat t < base" and room: "base + n < 2 ^ 64"
    and len: "length keys = n"
    and fl: "\<And>c. c < n \<Longrightarrow> ans c \<noteq> None \<Longrightarrow> flight_inv keys as t c (cur c) (memo ! c)"
  shows "wf_acks n (key_pool n keys) (as @ pends n base memo cur ans)"
    and "ts_distinct (as @ pends n base memo cur ans)"
proof -
  let ?ps = "pends n base memo cur ans" and ?pool = "key_pool n keys"
  have pr: "t < ak_ts_resp p" "ak_ts_call p \<le> t" "ack_ok n ?pool p"
    "\<forall>a \<in> set as. ak_ts_resp a \<noteq> ak_ts_call p \<and> (ak_cidx a = ak_cidx p \<longrightarrow> ak_ts_resp a < ak_ts_call p)"
    if ps: "p \<in> set ?ps" for p
  proof -
    from ps obtain c r where c: "c < n" "ans c = Some r" "p = pend_ack base memo cur c r" by (auto simp: pends_mem)
    then have "flight_inv keys as t c (cur c) (memo ! c)" using fl by simp
    from pend_ack_props [OF this c(1) t room len c(3)]
    show "t < ak_ts_resp p" "ak_ts_call p \<le> t" "ack_ok n ?pool p"
      "\<forall>a \<in> set as. ak_ts_resp a \<noteq> ak_ts_call p \<and> (ak_cidx a = ak_cidx p \<longrightarrow> ak_ts_resp a < ak_ts_call p)" .
  qed
  have ar: "ak_ts_resp a \<le> t" "ack_ok n ?pool a" if "a \<in> set as" for a
    using ai that by (auto simp: acks_inv_def wf_acks_def list_all_iff)
  note so = pends_sorted [OF room]
  show "wf_acks n ?pool (as @ ?ps)"
    unfolding wf_acks_def sorted_wrt_append list_all_append
  proof (intro conjI ballI)
    show "list_all (ack_ok n ?pool) ?ps" using pr(3) by (auto simp: list_all_iff)
    show "sorted_wrt (\<lambda>a b. ak_ts_resp a < ak_ts_resp b) ?ps"
      using so by (rule sorted_wrt_mono_rel [rotated]) simp
    show "sorted_wrt (\<lambda>a b. ak_cidx a = ak_cidx b \<longrightarrow> ak_ts_resp a < ak_ts_call b) ?ps"
      using so by (rule sorted_wrt_mono_rel [rotated]) simp
    show "ak_ts_resp a < ak_ts_resp b" if "a \<in> set as" "b \<in> set ?ps" for a b
      using ar(1) [OF that(1)] pr(1) [OF that(2)] by (rule le_less_trans)
    show "ak_cidx a = ak_cidx b \<longrightarrow> ak_ts_resp a < ak_ts_call b" if "a \<in> set as" "b \<in> set ?ps" for a b
      using pr(4) [OF that(2)] that(1) by blast
  qed (use ai in \<open>auto simp: acks_inv_def wf_acks_def\<close>)
  have "ak_ts_call a < ak_ts_resp a" if "a \<in> set as" for a using ar(2) [OF that] by (simp add: ack_ok_def)
  then have "ak_ts_call a \<noteq> ak_ts_resp b" if "a \<in> set (as @ ?ps)" "b \<in> set ?ps" for a b
    using that ar(1) pr(1,2) by (metis Un_iff less_imp_neq less_le_trans less_le_not_le le_less_trans set_append)
  moreover have "ak_ts_call a \<noteq> ak_ts_resp b" if "a \<in> set (as @ ?ps)" "b \<in> set as" for a b
    using that pr(4) [of a] ai by (cases "a \<in> set as") (auto simp: acks_inv_def ts_distinct_def)
  ultimately show "ts_distinct (as @ ?ps)" by (auto simp: ts_distinct_def)
qed

lemma call_over_in_pool:
  assumes "call_over (keys ! c) call" and "c < length keys"
  shows "call_in_pool (key_pool n keys) call"
  using assms by (cases call) (auto simp: key_pool_props(3))

lemma lin_passes:
  assumes "acks_inv n keys as t" and "unat t < base" and "base + n < 2 ^ 64" and len: "length keys = n"
    and "\<And>c. c < n \<Longrightarrow> ans c \<noteq> None \<Longrightarrow> flight_inv keys as t c (cur c) (memo ! c)"
    and lin: "mset lin = mset (as @ pends n base memo cur ans)" "real_time lin" "legal Map.empty lin"
  shows "\<forall>a \<in> set as. ak_ts_resp a < frontier n as \<longrightarrow> offline_check n (key_pool n keys) as a"
proof -
  have wf: "wf_acks n (key_pool n keys) (as @ pends n base memo cur ans)"
    "ts_distinct (as @ pends n base memo cur ans)" by (rule pends_wf [OF assms(1-5)]; assumption)+
  have "linearizable (as @ pends n base memo cur ans)" using lin unfolding linearizable_def by blast
  moreover have "list_all (\<lambda>a. call_in_pool (key_pool n keys) (ak_call a)) as"
    using assms(1) len call_over_in_pool [of keys]
    by (auto simp: acks_inv_def list_all_iff wf_acks_def ack_ok_def)
  ultimately show ?thesis using lin_prefix_passes [OF wf] by blast
qed

section \<open>The loop\<close>

definition fuzz_L ::
  "nat \<Rightarrow> string list list \<Rightarrow> nat \<Rightarrow> 'g rng_ops \<Rightarrow> ('w \<Rightarrow> kv) \<Rightarrow> ('w \<Rightarrow> bool) \<Rightarrow> ('w, 'g) fuzz \<Rightarrow> bool" where
  "fuzz_L n keys tot rng view good st \<longleftrightarrow>
     fuzz_setup n keys tot \<and> rng_ok rng \<and> 2 * tot + n + 2 < 2 ^ 64 \<and>
     (\<forall>ks \<in> set keys. list_all key_ok ks) \<and>
     (\<exists>as cur ans lin. fuzz_inv n keys tot as cur st \<and>
        lin_inv n (2 * tot + 1) view good as cur ans lin st)"

lemma kv_answers_not_stop: "kv_answers s c resp \<Longrightarrow> c \<noteq> KvCall.Stop \<Longrightarrow> resp \<noteq> KvResp.Stop"
  by (cases c) auto

lemma lin_answer_not_stop:
  assumes lin: "lin_inv n base view good as cur ans lin st" and c: "c < n" "ans c = Some resp" "cur c \<noteq> KvCall.Stop"
  shows "resp \<noteq> KvResp.Stop"
proof -
  have "pend_ack base (fz_memo st) cur c resp \<in> set (as @ pends n base (fz_memo st) cur ans)"
    using c(1,2) by (auto simp: pends_mem)
  then have "pend_ack base (fz_memo st) cur c resp \<in> set lin"
    using lin unfolding lin_inv_def by (metis set_mset_mset)
  then obtain xs ys where "lin = xs @ pend_ack base (fz_memo st) cur c resp # ys" by (meson split_list)
  then have "kv_answers (kv_run xs Map.empty) (cur c) resp" using lin by (simp add: lin_inv_def legal_append)
  then show ?thesis using c(3) by (rule kv_answers_not_stop)
qed

lemma fuzz_L_harvest:
  assumes sv: "kv_service os view good (\<lambda>_. True)" and su: "fuzz_setup n keys tot" and room: "2 * tot + n + 2 < 2 ^ 64"
    and inv: "fuzz_inv n keys tot as cur st" and lin: "lin_inv n (2 * tot + 1) view good as cur ans lin st"
    and lt: "fz_waited st < tot" and c: "c < n" "fz_flying st ! c"
    and sc: "os_sched os (snd (fz_sys st)) = (sched, w)"
    and wr: "wait_resp os sched c (fst (fz_sys st), w) = (Ok resp, s)" and len: "length (fst s) = n"
  shows "\<exists>st' ans' lin'. fuzz_harvest dbg tot c resp
        (st\<lparr>fz_timestamp := fz_timestamp st + 1, fz_sys := s, fz_rng := g\<rparr>) = Ok (True, st') \<and>
     fuzz_inv n keys tot (as @ [harvested st cur c resp]) cur st' \<and>
     lin_inv n (2 * tot + 1) view good (as @ [harvested st cur c resp]) cur ans' lin' st' \<and>
     fz_called st' + fz_waited st' = Suc (fz_called st + fz_waited st)"
proof -
  let ?a = "harvested st cur c resp" and ?base = "2 * tot + 1" and ?st = "st\<lparr>fz_sys := (fst (fz_sys st), w)\<rparr>"
  have r1: "2 * tot < ?base" "?base + n < 2 ^ 64" and r2: "2 * tot + 2 < 2 ^ 64" using room by auto
  have i1: "fuzz_inv n keys tot as cur ?st"
    by (rule fuzz_inv_sys [OF inv]) (use lin in \<open>simp add: lin_inv_def\<close>)
  have w1: "wait_resp os sched c (fz_sys ?st) = (Ok resp, s)" using wr by simp
  have f1: "fz_flying ?st ! c" using c(2) by simp
  from lin_wait [OF sv lin_sched [OF sv lin sc] i1 c(1) f1 r1 w1] obtain ans' lin' s1 where
    l1: "lin_inv n ?base view good as cur ans' lin' (st\<lparr>fz_sys := s1\<rparr>)" and a1: "ans' c = Some resp"
    and s: "s = ((fst s1)[c := (fst s1 ! c)\<lparr>cp_resp := channel\<rparr>], snd s1)"
    by (auto simp del: split_paired_Ex)
  have fly: "flight_inv keys as (fz_timestamp st) c (cur c) (fz_memo st ! c)"
    using inv c by (auto simp: fuzz_inv_def)
  then have "cur c \<noteq> KvCall.Stop" by (auto simp: flight_inv_def)
  with lin_answer_not_stop [OF l1 c(1) a1] have ns: "resp \<noteq> KvResp.Stop" .
  note recv = lin_recv [OF l1 inv r2 c(1) a1, folded s]
  show ?thesis
  proof (rule disjE [OF fuzz_harvest_step [OF inv su lt c len ns refl refl, of dbg g]])
    assume "\<exists>st'. fuzz_harvest dbg tot c resp (st\<lparr>fz_timestamp := fz_timestamp st + 1, fz_sys := s, fz_rng := g\<rparr>)
        = Ok (True, st') \<and> fuzz_inv n keys tot (as @ [?a]) cur st' \<and>
        fz_sys st' = s \<and> fz_timestamp st' = fz_timestamp st + 1 \<and> fz_called st' = fz_called st \<and>
        fz_waited st' = Suc (fz_waited st) \<and> fz_flying st' = (fz_flying st)[c := False] \<and>
        fz_memo st' = (fz_memo st)[c := (0, None)]"
    with recv s show ?thesis by (metis add_Suc_right)
  next
    assume "\<exists>st' b. fuzz_harvest dbg tot c resp (st\<lparr>fz_timestamp := fz_timestamp st + 1, fz_sys := s, fz_rng := g\<rparr>)
        = Ok (False, st') \<and> \<not> fz_passed st' \<and> fz_stats st' = fz_stats st \<and> b \<in> set (as @ [?a]) \<and>
        ak_ts_resp b < frontier n (as @ [?a]) \<and> \<not> offline_check n (key_pool n keys) (as @ [?a]) b"
    then obtain b where b: "b \<in> set (as @ [?a])" "ak_ts_resp b < frontier n (as @ [?a])"
        "\<not> offline_check n (key_pool n keys) (as @ [?a]) b" by blast
    let ?st' = "st\<lparr>fz_sys := s, fz_flying := (fz_flying st)[c := False], fz_memo := (fz_memo st)[c := (0, None)]\<rparr>"
    obtain lin2 where l2: "lin_inv n ?base view good (as @ [?a]) cur (ans'(c := None)) lin2 ?st'"
      using recv [of ?st'] s by auto
    have t: "unat (fz_timestamp st + 1) < ?base"
      using next_timestamp(2) [OF inv r2] lt inv by (simp add: fuzz_inv_def)
    have fl: "flight_inv keys (as @ [?a]) (fz_timestamp st + 1) d (cur d) (fz_memo ?st' ! d)"
      if "d < n" "(ans'(c := None)) d \<noteq> None" for d
    proof -
      have "d \<noteq> c" using that(2) by (auto split: if_splits)
      moreover have "fz_flying st ! d" using that l1 by (auto simp: lin_inv_def split: if_splits)
      ultimately show ?thesis using flight_inv_harvest [OF inv su that(1), of c resp] by simp
    qed
    have keys: "length keys = n" using su by (simp add: fuzz_setup_def)
    from l2 have "mset lin2 = mset ((as @ [?a]) @ pends n ?base (fz_memo ?st') cur (ans'(c := None)))"
      "real_time lin2" "legal Map.empty lin2" unfolding lin_inv_def by blast+
    from lin_passes [OF acks_inv_harvest [OF inv su c ns] t r1(2) keys fl this] b show ?thesis by blast
  qed
qed

lemma fuzz_L_step:
  assumes sv: "kv_service os view good (\<lambda>_. True)" and L: "fuzz_L n keys tot rng view good st" and lt: "fz_waited st < tot"
    and ret: "fuzz_iter dbg rng os tot keys st = Some res"
  shows "(\<exists>e c. res = Err e \<and> c < n \<and> c \<notin> set (fst (os_sched os (snd (fz_sys st))))) \<or>
     (\<exists>st'. res = Ok (True, st') \<and> fuzz_L n keys tot rng view good st' \<and> fuzz_left tot st' < fuzz_left tot st)"
proof -
  from L obtain as cur ans lin where su: "fuzz_setup n keys tot" and ok: "rng_ok rng"
    and room: "2 * tot + n + 2 < 2 ^ 64" and kok: "\<forall>ks \<in> set keys. list_all key_ok ks"
    and inv: "fuzz_inv n keys tot as cur st" and lin: "lin_inv n (2 * tot + 1) view good as cur ans lin st"
    by (auto simp: fuzz_L_def)
  have len: "length (fz_flying st) = n" "length (fz_memo st) = n" "length keys = n"
    using inv su by (auto simp: fuzz_inv_def fuzz_setup_def)
  from fuzz_iter_cases [OF inv su ok lt ret] consider
      (err) e c sched w s where "res = Err e" "c < n" "fz_flying st ! c"
        "os_sched os (snd (fz_sys st)) = (sched, w)" "wait_resp os sched c (fst (fz_sys st), w) = (Err e, s)"
    | (call) g where "fz_called st < tot" "\<not> list_all (\<lambda>b. b) (fz_flying st)"
        "fuzz_call dbg rng keys (st\<lparr>fz_timestamp := fz_timestamp st + 1, fz_rng := g\<rparr>) = Some res"
    | (wait) c g sched w resp s where "c < n" "fz_flying st ! c" "os_sched os (snd (fz_sys st)) = (sched, w)"
        "wait_resp os sched c (fst (fz_sys st), w) = (Ok resp, s)" "length (fst s) = n"
        "res = fuzz_harvest dbg tot c resp (st\<lparr>fz_timestamp := fz_timestamp st + 1, fz_sys := s, fz_rng := g\<rparr>)"
    by blast
  then show ?thesis
  proof cases
    case err
    let ?st = "st\<lparr>fz_sys := (fst (fz_sys st), w)\<rparr>"
    have i1: "fuzz_inv n keys tot as cur ?st"
      by (rule fuzz_inv_sys [OF inv]) (use lin in \<open>simp add: lin_inv_def\<close>)
    have "c \<notin> set sched"
      using lin_wait [OF sv lin_sched [OF sv lin err(4)] i1 err(2), of sched "Err e" s] err(3,5) room by auto
    with err show ?thesis by auto
  next
    case call
    from fuzz_call_step [OF inv su ok call] show ?thesis
    proof (elim disjE exE conjE)
      fix e c cl assume "c < n" "send_call c cl (fz_sys st) = Err e"
      with lin_send_Ok [OF lin, of c cl] show ?thesis by auto
    next
      fix c cl st'
      assume st': "res = Ok (True, st')" "c < n" "\<not> fz_flying st ! c" "call_over (keys ! c) cl"
        "send_call c cl (fz_sys st) = Ok (fz_sys st')" "fz_flying st' = (fz_flying st)[c := True]"
        "fz_memo st' = (fz_memo st)[c := (fz_timestamp st + 1, update_info cl)]"
        "fz_called st' = Suc (fz_called st)" "fz_waited st' = fz_waited st"
        "fuzz_inv n keys tot as (cur(c := cl)) st'"
      have "call_plain cl" using call_over_plain [OF _ st'(4)] kok st'(2) len(3) by simp
      from lin_send [OF lin st'(2,3) len(1,2) this st'(5-7)] st' su ok room kok fuzz_left_less [OF inv lt, of st']
      show ?thesis by (auto simp: fuzz_L_def)
    qed
  next
    case wait
    from fuzz_L_harvest [OF sv su room inv lin lt wait(1-5), of dbg g] obtain st' ans' lin' where
      "res = Ok (True, st')" "fuzz_inv n keys tot (as @ [harvested st cur c resp]) cur st'"
      "lin_inv n (2 * tot + 1) view good (as @ [harvested st cur c resp]) cur ans' lin' st'"
      "fz_called st' + fz_waited st' = Suc (fz_called st + fz_waited st)" unfolding wait(6) [symmetric] by blast
    with su ok room kok fuzz_left_less [OF inv lt, of st'] show ?thesis
      unfolding fuzz_L_def by blast
  qed
qed

interpretation ll: break_loop
  "fuzz_iter dbg rng os tot keys" "\<lambda>st. fz_waited st < tot" "fuzz_loop dbg rng os tot keys"
  "\<lambda>st. kv_service os view good (\<lambda>_. True) \<and> fuzz_L n keys tot rng view good st" "\<lambda>st. False" "fuzz_left tot"
  for dbg and rng :: "'g rng_ops" and os :: "'w os" and tot keys n view good
proof
  show "fuzz_loop dbg rng os tot keys st =
      (if fz_waited st < tot then
         (case fuzz_iter dbg rng os tot keys st of
            None \<Rightarrow> None
          | Some (Err e) \<Rightarrow> Some (Err e)
          | Some Panic \<Rightarrow> Some Panic
          | Some (Ok (continue, st')) \<Rightarrow>
              if continue then fuzz_loop dbg rng os tot keys st' else Some (Ok st'))
       else Some (Ok st))" for st
    by (rule fuzz_loop.simps)
qed (use fuzz_L_step in blast)

lemma fuzz_L_init:
  assumes su: "fuzz_setup n keys tot" and ok: "rng_ok rng" and room: "2 * tot + n + 2 < 2 ^ 64"
    and kok: "\<forall>ks \<in> set keys. list_all key_ok ks"
    and s: "length (fst s) = n" "\<forall>cp \<in> set (fst s). client_at cp [] []"
      "view (snd s) = Map.empty" "good (snd s)"
  shows "fuzz_L n keys tot rng view good (fuzz_init keys (stats_new keys) s g)"
proof -
  let ?st = "fuzz_init keys (stats_new keys) s g"
  have sel: "fz_sys ?st = s" "fz_flying ?st = replicate n False"
    using s(1) by (simp_all add: fuzz_init_def Let_def)
  have p: "pends n base memo cur (\<lambda>_. None) = []" for base memo cur by (simp add: pends_def)
  have "lin_inv n (2 * tot + 1) view good [] (\<lambda>_. KvCall.Stop) (\<lambda>_. None) [] ?st"
    using s by (simp add: lin_inv_def sel p real_time_def kv_run_def plain_kv_def)
  with fuzz_inv_init [OF s(1), of keys tot "\<lambda>_. KvCall.Stop" g] assms show ?thesis
    unfolding fuzz_L_def by blast
qed

lemma fuzz_L_end:
  assumes "fuzz_L n keys tot rng view good st" and "\<not> fz_waited st < tot"
  shows "fz_passed st" and "stats_acct keys tot (fz_stats st)" and "length (fst (fz_sys st)) = n"
    and "good (snd (fz_sys st))"
    and "\<forall>c < n. client_at (fst (fz_sys st) ! c) [] []"
proof -
  from assms(1) obtain as cur ans lin where inv: "fuzz_inv n keys tot as cur st"
    and lin: "lin_inv n (2 * tot + 1) view good as cur ans lin st" by (auto simp: fuzz_L_def)
  note I = inv [unfolded fuzz_inv_def]
  have "fz_called st = tot" "length (filter (\<lambda>b. b) (fz_flying st)) = 0" using I assms(2) by linarith+
  with I show "fz_passed st" "stats_acct keys tot (fz_stats st)" "length (fst (fz_sys st)) = n" by auto
  from \<open>length (filter (\<lambda>b. b) (fz_flying st)) = 0\<close> have "list_all (\<lambda>b. \<not> b) (fz_flying st)"
    by (simp only: none_flying_iff)
  then have "\<not> fz_flying st ! c" if "c < n" for c
    using that I by (simp add: list_all_length)
  note nf = this
  show "good (snd (fz_sys st))" using lin by (simp add: lin_inv_def)
  show "\<forall>c < n. client_at (fst (fz_sys st) ! c) [] []"
  proof (intro allI impI)
    fix c assume c: "c < n"
    with lin have "ans c \<noteq> None \<longrightarrow> fz_flying st ! c"
      "client_at (fst (fz_sys st) ! c) (if fz_flying st ! c \<and> ans c = None then [cur c] else [])
        (case ans c of None \<Rightarrow> [] | Some r \<Rightarrow> [r])" unfolding lin_inv_def by blast+
    with nf [OF c] show "client_at (fst (fz_sys st) ! c) [] []" by (auto split: if_splits)
  qed
qed

section \<open>Stopping the clients of a store\<close>

lemma stop_clients_serves:
  assumes sv: "kv_service os view good (\<lambda>_. True)" and kill: "\<And>pid w. fst (os_kill os pid w) = Ok ()"
    and sched: "\<And>w i. i < n \<Longrightarrow> i \<in> set (fst (os_sched os w))"
    and "length cs = n" and "\<forall>j < n. ch_items (cp_call (cs ! j)) = []"
    and "distinct is" and "\<forall>i \<in> set is. i < n \<and> client_at (cs ! i) [] []" and "good w"
  shows "fst (stop_clients os is (cs, w)) = Ok ()"
  using assms(4-)
proof (induction "is" arbitrary: cs w)
  case (Cons i "is")
  obtain sch w1 where sc: "os_sched os w = (sch, w1)" by (cases "os_sched os w")
  have i: "i < length cs" "client_at (cs ! i) [] []" "i \<in> set sch"
    using Cons.prems sched [of i w] sc by auto
  have g: "good w1" using kv_service.sched_keeps [OF sv Cons.prems(5)] sc by simp
  obtain cs' w' where st: "client_stop os sch i (cs, w1) = (Ok (), (cs', w'))" "length cs' = length cs"
    "\<forall>j < length cs. ch_items (cp_call (cs' ! j)) = [] \<and>
       (j \<noteq> i \<and> client_at (cs ! j) [] [] \<longrightarrow> cs' ! j = cs ! j)"
    "good w'"
    using kv_service.client_stop_serves [OF sv g i _ kill] Cons.prems(1,2) by blast
  have "fst (stop_clients os is (cs', w')) = Ok ()"
    by (rule Cons.IH) (use Cons.prems st in auto)
  with sc st(1) show ?case by simp
qed simp

section \<open>The test and the main function\<close>

lemma verdict_FAILED [simp]: "verdict_of r = FAILED \<longleftrightarrow> r = None"
  by (cases r) (simp_all add: verdict_of_def)

lemma fuzz_test_serves:
  assumes sv: "kv_service os view good (\<lambda>_. True)" and ok: "rng_ok rng"
    and su: "fuzz_setup n keys (num_ops args * num_clis args)"
    and room: "2 * (num_ops args * num_clis args) + n + 2 < 2 ^ 64"
    and kok: "\<forall>ks \<in> set keys. list_all key_ok ks"
    and s: "length (fst s) = n" "\<forall>cp \<in> set (fst s). client_at cp [] []"
      "view (snd s) = Map.empty" "good (snd s)"
    and ret: "fuzz_test dbg rng os args keys (stats_new keys) s g = Some res"
  shows "res \<noteq> Ok (None, stats)"
    and "os_live n os \<Longrightarrow> \<exists>q st. res = Ok (Some q, st) \<and> stats_acct keys (num_ops args * num_clis args) st"
proof -
  let ?tot = "num_ops args * num_clis args" and ?st = "fuzz_init keys (stats_new keys) s g"
  note m = total_ops_exact [OF su, of dbg]
  from ret m obtain r where r: "fuzz_loop dbg rng os ?tot keys ?st = Some r"
    by (auto simp: fuzz_test_def split: option.splits)
  have L: "kv_service os view good (\<lambda>_. True) \<and> fuzz_L n keys ?tot rng view good ?st" 
    using sv fuzz_L_init [OF su ok room kok s(1,2), of view good g] s(3,4) by blast
  have res: "res = run_bind r (\<lambda>st. if fz_passed st then
        run_bind (fst (stop_clients os [0..<length (fst (fz_sys st))] (fz_sys st))) (\<lambda>_.
          Ok (Some (queue_len (fz_history st)), fz_stats st)) else Ok (None, fz_stats st))"
    using ret m r by (simp add: fuzz_test_def)
  have oc: "(\<exists>e. r = Err e) \<or> (\<exists>st. r = Ok st \<and> fuzz_L n keys ?tot rng view good st \<and> \<not> fz_waited st < ?tot)"
    using ll.outcome [OF L r] by blast
  show "res \<noteq> Ok (None, stats)"
    using oc fuzz_L_end(1) unfolding res by (fastforce simp: run_bind_Ok_iff)
  assume live: "os_live n os"
  from oc show "\<exists>q st. res = Ok (Some q, st) \<and> stats_acct keys ?tot st"
  proof (elim disjE exE conjE)
    fix e assume "r = Err e"
    with ll.error_origin [OF L] r obtain st where "fuzz_L n keys ?tot rng view good st" "fz_waited st < ?tot"
      "fuzz_iter dbg rng os ?tot keys st = Some (Err e)" by blast
    from fuzz_L_step [OF sv this] live show ?thesis by (auto simp: os_live_def)
  next
    fix st assume st: "r = Ok st" "fuzz_L n keys ?tot rng view good st" "\<not> fz_waited st < ?tot"
    note e = fuzz_L_end [OF st(2,3)]
    obtain cs w where sys: "fz_sys st = (cs, w)" by (cases "fz_sys st")
    have at: "client_at (cs ! j) [] []" if "j < n" for j using e(5) that by (simp add: sys)
    then have no: "\<forall>j < n. ch_items (cp_call (cs ! j)) = []" by (simp add: client_at_def)
    have "fst (stop_clients os [0..<n] (cs, w)) = Ok ()"
      using e(3,4) live at no by (intro stop_clients_serves [OF sv, where n = n]) (auto simp: os_live_def sys)
    with st(1) e(1-3) show ?thesis unfolding res by (simp add: sys)
  qed
qed

lemma new_clients_serves:
  assumes sv: "kv_service os view good (\<lambda>_. True)"
  shows "good w \<Longrightarrow> new_clients os args n (cs, w) = Ok s \<Longrightarrow>
     length (fst s) = length cs + n \<and> view (snd s) = view w \<and> good (snd s) \<and>
     ((\<forall>cp \<in> set cs. client_at cp [] []) \<longrightarrow> (\<forall>cp \<in> set (fst s). client_at cp [] []))"
    and "(\<forall>args w. \<exists>pid. fst (os_spawn os args w) = Ok pid) \<Longrightarrow> \<exists>s. new_clients os args n (cs, w) = Ok s"
proof -
  note vw = kv_service.spawn_keeps [OF sv]
  have fresh: "client_at \<lparr>cp_handle = pid, cp_call = channel, cp_resp = channel,
      cp_stdout = \<lparr>rd_rest = [], rd_end = Blocks\<rparr>, cp_stopped = False, cp_driver = Running, cp_log = []\<rparr> [] []" for pid
    by (simp add: client_at_def channel_def)
  show "good w \<Longrightarrow> new_clients os args n (cs, w) = Ok s \<Longrightarrow>
     length (fst s) = length cs + n \<and> view (snd s) = view w \<and> good (snd s) \<and>
     ((\<forall>cp \<in> set cs. client_at cp [] []) \<longrightarrow> (\<forall>cp \<in> set (fst s). client_at cp [] []))"
  proof (induction n arbitrary: cs w)
    case (Suc n)
    obtain r w' where sp: "os_spawn os (''just'' # args) w = (r, w')" by (cases "os_spawn os (''just'' # args) w")
    with Suc.prems(2) obtain pid where r: "r = Ok pid" by (cases r) (auto simp: client_new_def)
    let ?cp = "\<lparr>cp_handle = pid, cp_call = channel, cp_resp = channel,
      cp_stdout = \<lparr>rd_rest = [], rd_end = Blocks\<rparr>, cp_stopped = False, cp_driver = Running, cp_log = []\<rparr>"
    have "new_clients os args n (cs @ [?cp], w') = Ok s" using Suc.prems(2) sp r by (simp add: client_new_def)
    from Suc.IH [OF _ this] fresh [of pid] vw [OF Suc.prems(1), of "''just'' # args"] sp show ?case by simp
  qed auto
  show "(\<forall>args w. \<exists>pid. fst (os_spawn os args w) = Ok pid) \<Longrightarrow> \<exists>s. new_clients os args n (cs, w) = Ok s"
  proof (induction n arbitrary: cs w)
    case (Suc n)
    then obtain pid w' where "os_spawn os (''just'' # args) w = (Ok pid, w')" by (metis prod.collapse)
    with Suc show ?case by (simp add: client_new_def)
  qed simp
qed

section \<open>Properties\<close>

text \<open>
  C3. No false alarm: run against clients that answer as one key-value store, initially empty, whose
  operations take effect one at a time, the fuzzer's main function never reports \<open>FAILED\<close>. This
  holds for every generator, every interleaving of the fuzzer and its driver threads, every choice
  of arguments for which time stamps do not overflow, and with and without debug assertions.
\<close>

theorem fuzzer_no_false_alarm:
  assumes "kv_service os view good (\<lambda>_. True)" and "good w" and "view w = Map.empty" and "rng_ok rng"
    and "2 * (num_ops args * num_clis args) + num_clis args + 2 < 2 ^ 64"
  shows "fuzzer_main dbg rng os args w g \<noteq> Some (Ok (FAILED, stats))"
proof
  assume fail: "fuzzer_main dbg rng os args w g = Some (Ok (FAILED, stats))"
  then have args: "0 < num_clis args" "0 < num_keys args" "num_keys args < 100000" "1000 \<le> num_ops args"
    by (auto simp: fuzzer_main_def split: if_splits)
  obtain keys g1 where keys: "gen_keys dbg rng args (num_clis args) g = Ok (keys, g1)"
    "length keys = num_clis args" "\<forall>ks \<in> set keys. length ks = num_keys args \<and> list_all key_ok ks"
    using gen_keys_ok [OF assms(4) args(3), of dbg "num_clis args" g] by auto
  from fail args keys(1) obtain s res where s: "new_clients os (client_just_args args) (num_clis args) ([], w) = Ok s"
    and res: "fuzz_test dbg rng os args keys (stats_new keys) s g1 = Some res"
    and v: "run_bind res (\<lambda>(result, stats). Ok (verdict_of result, stats)) = Ok (FAILED, stats)"
    by (auto simp: fuzzer_main_def split: run.splits option.splits)
  have su: "fuzz_setup (num_clis args) keys (num_ops args * num_clis args)"
    by (rule fuzz_setup_args [OF args(1,4) keys(2)]) (use keys(3) args(2) assms(5) in \<open>fastforce, linarith\<close>)
  have sys: "length (fst s) = num_clis args" "\<forall>cp \<in> set (fst s). client_at cp [] []"
      "view (snd s) = Map.empty" "good (snd s)"
    using new_clients_serves(1) [OF assms(1,2) s] assms(3) by auto
  from v obtain stats' where "res = Ok (None, stats')"
    by (auto simp: run_bind_Ok_iff verdict_FAILED)
  moreover have "res \<noteq> Ok (None, stats')" for stats'
    by (rule fuzz_test_serves(1) [OF assms(1,4) su assms(5) _ sys(1,2) _ sys(4) res]) (use keys(3) sys(3) in auto)
  ultimately show False by blast
qed

definition demo_args :: Args where
  "demo_args = \<lparr>num_clis = 2, num_keys = 3, num_ops = 1000, conflict = True, client_just_args = [''kv'']\<rparr>"

theorem fuzzer_no_false_alarm_witness:
  "\<forall>stats. fuzzer_main True counter_rng (cli_os closed_round 2) demo_args empty_world 0 \<noteq> Some (Ok (FAILED, stats))"
  using fuzzer_no_false_alarm [OF closed.kv_service_axioms empty_world_good empty_world_view counter_rng_ok,
      of demo_args True 2 0]
  by (auto simp: demo_args_def)

text \<open>
  C4. A correct store passes. If moreover the generator is fair, every wait is long enough for each
  driver thread to finish an iteration, and processes can be started and killed, then the main
  function returns with a verdict, which is not \<open>FAILED\<close>, after exactly the requested number of
  operations: every call is answered, every response is read, and every client is stopped.
\<close>

theorem fuzzer_passes_store:
  assumes "kv_service os view good (\<lambda>_. True)" and "good w" and "view w = Map.empty" and "rng_ok rng" and "rng_fair rng"
    and "os_live (num_clis args) os"
    and "0 < num_clis args" and "0 < num_keys args" and "num_keys args < 100000" and "1000 \<le> num_ops args"
    and "2 * (num_ops args * num_clis args) + num_clis args + 2 < 2 ^ 64"
  shows "\<exists>verdict st. fuzzer_main dbg rng os args w g = Some (Ok (verdict, st)) \<and> verdict \<noteq> FAILED \<and>
     cnt_put st + cnt_swap st + cnt_get st + cnt_scan st + cnt_delete st = num_ops args * num_clis args"
proof -
  obtain keys g1 where keys: "gen_keys dbg rng args (num_clis args) g = Ok (keys, g1)"
    "length keys = num_clis args" "\<forall>ks \<in> set keys. length ks = num_keys args \<and> list_all key_ok ks"
    using gen_keys_ok [OF assms(4,9), of dbg "num_clis args" g] by auto
  obtain s where s: "new_clients os (client_just_args args) (num_clis args) ([], w) = Ok s"
    using new_clients_serves(2) [OF assms(1), of "client_just_args args" "num_clis args" "[]" w] assms(6)
    unfolding os_live_def by blast
  have sys: "length (fst s) = num_clis args" "\<forall>cp \<in> set (fst s). client_at cp [] []"
      "view (snd s) = Map.empty" "good (snd s)"
    using new_clients_serves(1) [OF assms(1,2) s] assms(3) by auto
  have su: "fuzz_setup (num_clis args) keys (num_ops args * num_clis args)"
    by (rule fuzz_setup_args [OF assms(7,10) keys(2)]) (use keys(3) assms(8,11) in \<open>fastforce, linarith\<close>)
  have "fresh_sys (num_clis args) s" using sys(1,2) by (auto simp: fresh_sys_def client_at_def)
  from fuzz_test_returns [OF assms(4,5) su this, of dbg os g1] obtain res where
    res: "fuzz_test dbg rng os args keys (stats_new keys) s g1 = Some res" by blast
  have "\<exists>q st. res = Ok (Some q, st) \<and> stats_acct keys (num_ops args * num_clis args) st"
    by (rule fuzz_test_serves(2) [OF assms(1,4) su assms(11) _ sys(1,2) _ sys(4) res assms(6)])
       (use keys(3) sys(3) in auto)
  then show ?thesis using assms(7-10) keys(1) s res
    by (auto simp: fuzzer_main_def stats_acct_def)
qed

theorem fuzzer_passes_store_witness:
  "\<exists>verdict st. fuzzer_main True counter_rng (cli_os closed_round 2) demo_args empty_world 0 = Some (Ok (verdict, st)) \<and>
     verdict \<noteq> FAILED \<and> cnt_put st + cnt_swap st + cnt_get st + cnt_scan st + cnt_delete st = 2000"
  using fuzzer_passes_store [OF closed.kv_service_axioms empty_world_good empty_world_view counter_rng_ok
      counter_rng_fair, of demo_args 2 True 0]
  by (simp add: demo_args_def cli_os_live)

text \<open>
  C6. What a passed test has established, whatever the clients did: a run of exactly the requested
  number of operations, each over the keys of its client and paired with the answer its process gave
  to it, in which every operation below the frontier passes its check against the complete history;
  the reported number of remaining operations counts exactly those that were left unchecked, and the
  totals of the statistics are those of all operations: one count each, and one key use each, two
  for a scan.
\<close>

theorem fuzz_test_meaning:
  assumes "rng_ok rng" and "fuzz_setup n keys (num_ops args * num_clis args)" and "fresh_sys n s"
    and "fuzz_test dbg rng os args keys (stats_new keys) s g = Some (Ok (Some remaining, stats))"
  shows "\<exists>as t. length as = num_ops args * num_clis args \<and> acks_inv n keys as t \<and> acks_true os s n as \<and>
     (\<forall>a \<in> set as. ak_ts_resp a < frontier n as \<longrightarrow> offline_check n (key_pool n keys) as a) \<and>
     remaining = length (filter (\<lambda>a. frontier n as \<le> ak_ts_resp a) as) \<and>
     stats_acct keys (num_ops args * num_clis args) stats"
proof -
  let ?tot = "num_ops args * num_clis args" and ?st = "fuzz_init keys (stats_new keys) s g"
  from assms(4) total_ops_exact [OF assms(2), of dbg] obtain st where
    r: "fuzz_loop dbg rng os ?tot keys ?st = Some (Ok st)" and p: "fz_passed st"
    and q: "remaining = queue_len (fz_history st)" "stats = fz_stats st"
    by (auto simp: fuzz_test_def run_bind_Ok_iff split: option.splits if_splits)
  from fl.outcome [OF fuzz_J_init [OF assms(2,1,3)] r] p
  have "fuzz_J n keys ?tot rng os s st" "\<not> fz_waited st < ?tot" by auto
  from fuzz_J_end [OF this] show ?thesis unfolding q by blast
qed

definition demo_keys :: "string list list" where
  "demo_keys = [[conflict_key 0, conflict_key 1], [conflict_key 0, conflict_key 1]]"

theorem fuzz_test_meaning_witness:
  "\<exists>remaining stats as. fuzz_test True counter_rng (cli_os closed_round 2) demo_args demo_keys (stats_new demo_keys)
       ([fresh_client, fresh_client], empty_world) 0 = Some (Ok (Some remaining, stats)) \<and>
     length as = 2000 \<and> remaining = length (filter (\<lambda>a. frontier 2 as \<le> ak_ts_resp a) as)"
proof -
  let ?s = "([fresh_client, fresh_client], empty_world) :: cli_world sys"
  have su: "fuzz_setup 2 demo_keys (num_ops demo_args * num_clis demo_args)"
    by (simp add: fuzz_setup_def demo_keys_def demo_args_def)
  have empty_good: "cw_good (snd ?s)" by (simp add: empty_world_good)
  have fresh: "fresh_sys 2 ?s" by (simp add: fresh_sys_def fresh_client_def channel_def)
  from fuzz_test_returns [OF counter_rng_ok counter_rng_fair su fresh] obtain res where
    res: "fuzz_test True counter_rng (cli_os closed_round 2) demo_args demo_keys (stats_new demo_keys) ?s 0 = Some res" by blast
  have "\<exists>q st. res = Ok (Some q, st) \<and> stats_acct demo_keys (num_ops demo_args * num_clis demo_args) st"
    by (rule fuzz_test_serves(2) [OF closed.kv_service_axioms counter_rng_ok su _ _ _ _ _ empty_good res cli_os_live])
       (simp_all add: demo_args_def demo_keys_def conflict_key_ok fresh_client_def client_at_def channel_def
          empty_world_view)
  then obtain q st where q: "res = Ok (Some q, st)" by blast
  from fuzz_test_meaning [OF counter_rng_ok su fresh res [unfolded q]] res q show ?thesis
    by (auto simp: demo_args_def)
qed

end
