(* ===== verification/Report.thy ===== *)
theory Report
  imports Fuzzer
begin

text \<open>
  The fuzzer's report (\<open>Stats::print\<close> and the end of \<open>main\<close> in \<open>runner/src/bin/fuzzer/main.rs\<close>): the
  text it prints after the test. What \<open>cprintln!\<close> makes of a template with colour tags is the
  parameter \<open>col\<close>.
\<close>

section \<open>The text\<close>

text \<open>\<open>Debug\<close> of a vector of unsigned integers.\<close>

fun usizes_text :: "nat list \<Rightarrow> string" where
  "usizes_text [] = ''''"
| "usizes_text [n] = show_nat n"
| "usizes_text (n # ns) = show_nat n @ '', '' @ usizes_text ns"

definition debug_usizes :: "nat list \<Rightarrow> string" where
  "debug_usizes ns = ''['' @ usizes_text ns @ '']''"

definition freq_lines :: "nat list list \<Rightarrow> string list" where
  "freq_lines freqs =
     map (\<lambda>(i, ns). (if i = 0 then ''  Keys freq:  '' else ''              '') @ debug_usizes ns @ [newline])
       (List.enumerate 0 freqs)"

definition stats_report :: "Stats \<Rightarrow> string" where
  "stats_report st =
     ''  Ops stats:  Put '' @ show_nat (cnt_put st) @ ''  Swap '' @ show_nat (cnt_swap st) @
     ''  Get '' @ show_nat (cnt_get st) @ ''  Scan '' @ show_nat (cnt_scan st) @
     ''  Delete '' @ show_nat (cnt_delete st) @ [newline] @ concat (freq_lines (keys_freq st))"


section \<open>Reading numbers off a text\<close>

definition is_digit :: "char \<Rightarrow> bool" where
  "is_digit c \<longleftrightarrow> (\<exists>d < 10. c = digit_char d)"

lemma is_digit_show: "list_all is_digit (show_nat n)"
  using show_nat_digits [of n] by (simp add: is_digit_def [abs_def])

lemma not_digit [simp]:
  "\<not> is_digit CHR '' ''" "\<not> is_digit CHR '',''" "\<not> is_digit CHR '']''" "\<not> is_digit newline"
  by (auto simp: is_digit_def digit_char_def newline_def dest!: arg_cong [where f = "of_char :: char \<Rightarrow> nat"])

lemma show_nat_nonempty [simp]: "show_nat n \<noteq> []"
  by (simp add: show_nat.simps [of n])

lemma show_nat_inj: "show_nat m = show_nat n \<longleftrightarrow> m = n"
  by (metis digits_val_show)

lemma show_nat_sep:
  assumes "\<not> is_digit c" and "\<not> is_digit d"
  shows "show_nat m @ c # x = show_nat n @ d # y \<longleftrightarrow> m = n \<and> c = d \<and> x = y"
proof
  assume eq: "show_nat m @ c # x = show_nat n @ d # y"
  have tw: "takeWhile is_digit (show_nat k @ e # z) = show_nat k" if "\<not> is_digit e" for k e z
    using is_digit_show [of k] that by (simp add: takeWhile_append2 list_all_iff)
  from arg_cong [OF eq, of "takeWhile is_digit"] have "show_nat m = show_nat n"
    using tw assms by simp
  moreover from this have "m = n" by (simp add: show_nat_inj)
  ultimately show "m = n \<and> c = d \<and> x = y" using eq by simp
qed simp

lemma show_nat_Cons: "show_nat n = c # xs \<Longrightarrow> is_digit c"
  using is_digit_show [of n] by simp

lemma usizes_sep:
  "usizes_text ms @ CHR '']'' # x = usizes_text ns @ CHR '']'' # y \<longleftrightarrow> ms = ns \<and> x = y"
proof (induction ms arbitrary: ns rule: usizes_text.induct)
  case 1
  then show ?case
    by (cases ns rule: usizes_text.cases) (auto simp: Cons_eq_append_conv dest: show_nat_Cons [OF sym])
next
  case (2 m)
  then show ?case
    by (cases ns rule: usizes_text.cases) (auto simp: show_nat_sep append_eq_Cons_conv dest: show_nat_Cons)
next
  case (3 m m' ms)
  show ?case
  proof (cases ns rule: usizes_text.cases)
    case 1
    then show ?thesis by (auto simp: append_eq_Cons_conv dest: show_nat_Cons)
  next
    case (2 n)
    then show ?thesis by (simp add: show_nat_sep)
  next
    case (3 n n' ns')
    with "3.IH" [of "n' # ns'"] show ?thesis by (simp add: show_nat_sep)
  qed
qed

lemma freq_lines_from:
  fixes pre :: "nat \<Rightarrow> string"
  shows "concat (map (\<lambda>(i, ns). pre i @ debug_usizes ns @ [newline]) (List.enumerate k xs))
       = concat (map (\<lambda>(i, ns). pre i @ debug_usizes ns @ [newline]) (List.enumerate k ys)) \<longleftrightarrow> xs = ys"
proof (induction xs arbitrary: k ys)
  case Nil
  then show ?case by (cases ys) (auto simp: debug_usizes_def)
next
  case (Cons x xs)
  then show ?case by (cases ys) (auto simp: debug_usizes_def usizes_sep)
qed


section \<open>Properties\<close>

text \<open>
  C37. The report of the statistics loses nothing: two tests print the same text exactly if all counts
  of operations and all counts of key uses agree.
\<close>

theorem stats_report_inj:
  fixes st st' :: Stats
  shows "stats_report st = stats_report st' \<longleftrightarrow> st = st'"
proof
  assume "stats_report st = stats_report st'"
  then have "cnt_put st = cnt_put st'" "cnt_swap st = cnt_swap st'" "cnt_get st = cnt_get st'"
    "cnt_scan st = cnt_scan st'" "cnt_delete st = cnt_delete st'"
    "concat (freq_lines (keys_freq st)) = concat (freq_lines (keys_freq st'))"
    by (simp_all add: stats_report_def show_nat_sep)
  moreover have "keys_freq st = keys_freq st'"
    using calculation(6) unfolding freq_lines_def by (subst (asm) freq_lines_from)
  ultimately show "st = st'" by (simp add: Stats.equality)
qed simp



end
