(* ===== verification/F64.thy ===== *)
theory F64
  imports Complex_Main Prelude
begin

text \<open>
  Rust's \<open>f64\<close> as far as the bencher uses it: IEEE 754 binary64 values, correctly rounded (to
  nearest, ties to even) addition, multiplication, division and conversion, \<open>f64::max\<close> and
  \<open>f64::min\<close>, the saturating cast to \<open>usize\<close>, and \<open>str::parse\<close> for \<open>f64\<close> and \<open>usize\<close>.
\<close>

section \<open>Values\<close>

text \<open>
  \<open>Fin s m e\<close> is \<open>m * 2 ^ e\<close>, negated if \<open>s\<close>; in canonical form \<open>m < 2 ^ 53\<close>, \<open>- 1074 \<le> e \<le> 971\<close>, and
  \<open>2 ^ 52 \<le> m\<close> unless \<open>e = - 1074\<close>.
\<close>

datatype f64 = NaN | Infty bool | Fin bool nat int

definition canonical :: "f64 \<Rightarrow> bool" where
  "canonical x =
     (case x of
        Fin s m e \<Rightarrow> m < 2 ^ 53 \<and> - 1074 \<le> e \<and> e \<le> 971 \<and> (2 ^ 52 \<le> m \<or> e = - 1074)
      | _ \<Rightarrow> True)"

definition f64_zero :: f64 where
  "f64_zero = Fin False 0 (- 1074)"

section \<open>Rounding\<close>

fun bit_len :: "nat \<Rightarrow> nat" where
  "bit_len n = (if n = 0 then 0 else Suc (bit_len (n div 2)))"

declare bit_len.simps [simp del]

text \<open>The quotient of two natural numbers, rounded to nearest, ties to even.\<close>

definition div_round :: "nat \<Rightarrow> nat \<Rightarrow> nat" where
  "div_round n d =
     (let q = n div d; r = n mod d
      in if 2 * r < d then q else if d < 2 * r then q + 1 else if even q then q else q + 1)"

text \<open>\<open>n * 2 ^ k / d\<close> with a binary exponent of either sign, rounded.\<close>

definition scale_round :: "nat \<Rightarrow> nat \<Rightarrow> int \<Rightarrow> nat" where
  "scale_round n d k =
     (if 0 \<le> k then div_round (n * 2 ^ nat k) d else div_round n (d * 2 ^ nat (- k)))"

text \<open>The exponent \<open>e\<close> with \<open>2 ^ e \<le> n / d < 2 ^ (e + 1)\<close>, for positive \<open>n\<close> and \<open>d\<close>.\<close>

definition ilog2 :: "nat \<Rightarrow> nat \<Rightarrow> int" where
  "ilog2 n d =
     (let e = int (bit_len n) - int (bit_len d)
      in if (if 0 \<le> e then d * 2 ^ nat e \<le> n else d \<le> n * 2 ^ nat (- e)) then e else e - 1)"

text \<open>The value \<open>n * 2 ^ k / d\<close>, negated if \<open>s\<close>, as a binary64 value.\<close>

definition round_f64 :: "bool \<Rightarrow> nat \<Rightarrow> nat \<Rightarrow> int \<Rightarrow> f64" where
  "round_f64 s n d k =
     (if n = 0 then Fin s 0 (- 1074)
      else
        (let e = max (ilog2 n d + k - 52) (- 1074);
             m = scale_round n d (k - e);
             (m, e) = (if m = 2 ^ 53 then (2 ^ 52, e + 1) else (m, e))
         in if 971 < e then Infty s else Fin s m e))"

section \<open>Operations\<close>

definition f64_of_usize :: "nat \<Rightarrow> f64" where
  "f64_of_usize n = round_f64 False n 1 0"

fun f64_mul :: "f64 \<Rightarrow> f64 \<Rightarrow> f64" where
  "f64_mul NaN y = NaN"
| "f64_mul x NaN = NaN"
| "f64_mul (Infty s) (Infty t) = Infty (s \<noteq> t)"
| "f64_mul (Infty s) (Fin t m e) = (if m = 0 then NaN else Infty (s \<noteq> t))"
| "f64_mul (Fin s m e) (Infty t) = (if m = 0 then NaN else Infty (s \<noteq> t))"
| "f64_mul (Fin s m e) (Fin t n f) = round_f64 (s \<noteq> t) (m * n) 1 (e + f)"

fun f64_div :: "f64 \<Rightarrow> f64 \<Rightarrow> f64" where
  "f64_div NaN y = NaN"
| "f64_div x NaN = NaN"
| "f64_div (Infty s) (Infty t) = NaN"
| "f64_div (Infty s) (Fin t m e) = Infty (s \<noteq> t)"
| "f64_div (Fin s m e) (Infty t) = Fin (s \<noteq> t) 0 (- 1074)"
| "f64_div (Fin s m e) (Fin t n f) =
     (if n = 0 then (if m = 0 then NaN else Infty (s \<noteq> t)) else round_f64 (s \<noteq> t) m n (e - f))"

definition signed :: "bool \<Rightarrow> nat \<Rightarrow> int" where
  "signed s m = (if s then - int m else int m)"

fun f64_add :: "f64 \<Rightarrow> f64 \<Rightarrow> f64" where
  "f64_add NaN y = NaN"
| "f64_add x NaN = NaN"
| "f64_add (Infty s) (Infty t) = (if s = t then Infty s else NaN)"
| "f64_add (Infty s) (Fin t m e) = Infty s"
| "f64_add (Fin s m e) (Infty t) = Infty t"
| "f64_add (Fin s m e) (Fin t n f) =
     (let g = min e f;
          k = signed s m * 2 ^ nat (e - g) + signed t n * 2 ^ nat (f - g)
      in if k = 0 then Fin (s \<and> t) 0 (- 1074) else round_f64 (k < 0) (nat \<bar>k\<bar>) 1 g)"

text \<open>The order of the values that are not NaN; the two zeros are equal.\<close>

fun f64_less :: "f64 \<Rightarrow> f64 \<Rightarrow> bool" where
  "f64_less NaN y = False"
| "f64_less x NaN = False"
| "f64_less (Infty s) (Infty t) = (s \<and> \<not> t)"
| "f64_less (Infty s) (Fin t m e) = s"
| "f64_less (Fin s m e) (Infty t) = (\<not> t)"
| "f64_less (Fin s m e) (Fin t n f) =
     (let g = min e f
      in signed s m * 2 ^ nat (e - g) < signed t n * 2 ^ nat (f - g))"

text \<open>\<open>f64::max\<close> and \<open>f64::min\<close>: a NaN argument is ignored.\<close>

definition f64_max :: "f64 \<Rightarrow> f64 \<Rightarrow> f64" where
  "f64_max x y = (if x = NaN then y else if y = NaN then x else if f64_less x y then y else x)"

definition f64_min :: "f64 \<Rightarrow> f64 \<Rightarrow> f64" where
  "f64_min x y = (if x = NaN then y else if y = NaN then x else if f64_less y x then y else x)"

text \<open>\<open>as usize\<close>: truncates towards zero and saturates.\<close>

fun usize_of_f64 :: "f64 \<Rightarrow> nat" where
  "usize_of_f64 NaN = 0"
| "usize_of_f64 (Infty s) = (if s then 0 else 2 ^ 64 - 1)"
| "usize_of_f64 (Fin s m e) =
     (if s then 0
      else min (2 ^ 64 - 1) (if 0 \<le> e then m * 2 ^ nat e else m div 2 ^ nat (- e)))"

section \<open>Parsing\<close>

fun take_digits :: "string \<Rightarrow> string \<times> string" where
  "take_digits [] = ([], [])"
| "take_digits (c # cs) =
     (if digit_val c \<noteq> None then (case take_digits cs of (ds, r) \<Rightarrow> (c # ds, r)) else ([], c # cs))"

text \<open>The optional exponent at the end of a decimal number; \<^term>\<open>None\<close> if something else is there.\<close>

definition parse_exponent :: "string \<Rightarrow> int option" where
  "parse_exponent s =
     (case s of
        [] \<Rightarrow> Some 0
      | c # cs \<Rightarrow>
          if c \<noteq> CHR ''e'' \<and> c \<noteq> CHR ''E'' then None
          else
            (let neg = starts_with cs (CHR ''-'');
                 cs' = (if neg \<or> starts_with cs (CHR ''+'') then tl cs else cs)
             in case take_digits cs' of (ds, r) \<Rightarrow>
                  if ds = [] \<or> r \<noteq> [] then None else Some (signed neg (digits_val ds))))"

text \<open>An unsigned decimal number: its digits, as an integer, and its power of ten.\<close>

definition parse_decimal :: "string \<Rightarrow> (nat \<times> int) option" where
  "parse_decimal s =
     (case take_digits s of (ip, r) \<Rightarrow>
      (case (if starts_with r (CHR ''.'') then take_digits (tl r) else ([], r)) of (fp, r) \<Rightarrow>
         if ip = [] \<and> fp = [] then None
         else map_option (\<lambda>e. (digits_val (ip @ fp), e - int (length fp))) (parse_exponent r)))"

definition lower_ascii :: "char \<Rightarrow> char" where
  "lower_ascii c =
     (let n = (of_char c :: nat) in if 65 \<le> n \<and> n \<le> 90 then char_of (n + 32) else c)"

definition parse_f64 :: "string \<Rightarrow> f64 option" where
  "parse_f64 s =
     (let neg = starts_with s (CHR ''-'');
          body = (if neg \<or> starts_with s (CHR ''+'') then tl s else s);
          word = map lower_ascii body
      in case parse_decimal body of
           Some (n, e) \<Rightarrow>
             Some (if 0 \<le> e then round_f64 neg (n * 10 ^ nat e) 1 0 else round_f64 neg n (10 ^ nat (- e)) 0)
         | None \<Rightarrow>
             if word = ''inf'' \<or> word = ''infinity'' then Some (Infty neg)
             else if word = ''nan'' then Some NaN
             else None)"

text \<open>\<open>str::parse::<usize>\<close>, digit by digit; the error is the text of the \<open>ParseIntError\<close>.\<close>

fun parse_digits :: "nat \<Rightarrow> string \<Rightarrow> (nat, string) run" where
  "parse_digits n [] = Ok n"
| "parse_digits n (c # cs) =
     (case digit_val c of
        None \<Rightarrow> Err ''invalid digit found in string''
      | Some d \<Rightarrow>
          if 2 ^ 64 \<le> 10 * n + d then Err ''number too large to fit in target type''
          else parse_digits (10 * n + d) cs)"

definition parse_usize :: "string \<Rightarrow> (nat, string) run" where
  "parse_usize s =
     (case s of
        [] \<Rightarrow> Err ''cannot parse integer from empty string''
      | c # cs \<Rightarrow>
          if (c = CHR ''+'' \<or> c = CHR ''-'') \<and> cs = [] then Err ''invalid digit found in string''
          else parse_digits 0 (if c = CHR ''+'' then cs else s))"

section \<open>Rounded results are canonical\<close>

lemma bit_len_bounds: "0 < n \<Longrightarrow> 2 ^ (bit_len n - 1) \<le> n \<and> n < 2 ^ bit_len n \<and> 0 < bit_len n"
proof (induction n rule: bit_len.induct)
  case (1 n)
  show ?case
  proof (cases "n = 1")
    case True
    then show ?thesis by (simp add: bit_len.simps [of "Suc 0"] bit_len.simps [of 0])
  next
    case False
    with "1.prems" have h: "0 < n div 2" by (simp add: div_greater_zero_iff)
    from "1.IH" [OF _ h] "1.prems" have IH: "2 ^ (bit_len (n div 2) - 1) \<le> n div 2"
        "n div 2 < 2 ^ bit_len (n div 2)" "0 < bit_len (n div 2)" by auto
    from IH(3) have "(2 :: nat) ^ bit_len (n div 2) = 2 * 2 ^ (bit_len (n div 2) - 1)"
      by (metis Suc_pred' power_Suc)
    moreover have "n = 2 * (n div 2) + n mod 2" "n mod 2 < 2" by simp_all
    ultimately have "2 ^ bit_len (n div 2) \<le> n \<and> n < 2 * 2 ^ bit_len (n div 2)"
      using IH(1,2) by linarith
    with "1.prems" show ?thesis by (simp add: bit_len.simps [of n])
  qed
qed

lemma power_int_nat: "0 \<le> k \<Longrightarrow> (2 :: real) powi k = 2 ^ nat k"
  by (simp add: power_int_def)

lemma power_int_neg_nat: "k \<le> 0 \<Longrightarrow> (2 :: real) powi k = 1 / 2 ^ nat (- k)"
  unfolding power_int_def by (cases "k = 0") (simp_all add: power_inverse inverse_eq_divide power_one_over)

lemma ilog2_bounds:
  assumes "0 < n" and "0 < d"
  shows "2 powi (ilog2 n d) \<le> real n / real d \<and> real n / real d < 2 powi (ilog2 n d + 1)"
proof -
  define e where "e = int (bit_len n) - int (bit_len d)"
  have test: "(if 0 \<le> e then d * 2 ^ nat e \<le> n else d \<le> n * 2 ^ nat (- e)) \<longleftrightarrow>
      2 powi e \<le> real n / real d"
  proof (cases "0 \<le> e")
    case True
    have "d * 2 ^ nat e \<le> n \<longleftrightarrow> real (d * 2 ^ nat e) \<le> real n" by (rule of_nat_le_iff [symmetric])
    also have "\<dots> \<longleftrightarrow> 2 powi e \<le> real n / real d"
      using assms True by (simp add: power_int_nat le_divide_eq mult.commute)
    finally show ?thesis using True by simp
  next
    case False
    have "d \<le> n * 2 ^ nat (- e) \<longleftrightarrow> real d \<le> real (n * 2 ^ nat (- e))" by (rule of_nat_le_iff [symmetric])
    also have "\<dots> \<longleftrightarrow> 2 powi e \<le> real n / real d"
      using assms False by (simp add: power_int_neg_nat divide_le_eq le_divide_eq mult.commute)
    finally show ?thesis using False by simp
  qed
  have up: "real n / real d < 2 powi (e + 1)"
  proof -
    from bit_len_bounds [OF assms(1)] have "real n < 2 powi int (bit_len n)"
      by (metis of_nat_less_iff of_nat_numeral of_nat_power power_int_of_nat)
    moreover from bit_len_bounds [OF assms(2)] have "2 ^ (bit_len d - 1) \<le> real d"
      by (metis of_nat_le_iff of_nat_numeral of_nat_power)
    then have "2 powi (int (bit_len d) - 1) \<le> real d"
      using bit_len_bounds [OF assms(2)] by (simp add: power_int_def nat_diff_distrib)
    moreover have "(2 :: real) powi (e + 1) * 2 powi (int (bit_len d) - 1) = 2 powi int (bit_len n)"
      by (subst power_int_add [symmetric]) (simp_all add: e_def)
    ultimately have "real n < 2 powi (e + 1) * real d"
      by (smt (verit) mult_left_mono zero_le_power_int)
    then show ?thesis using assms(2) by (simp add: divide_less_eq)
  qed
  have low: "2 powi (e - 1) \<le> real n / real d"
  proof -
    from bit_len_bounds [OF assms(1)] have "2 ^ (bit_len n - 1) \<le> real n"
      by (metis of_nat_le_iff of_nat_numeral of_nat_power)
    then have "2 powi (int (bit_len n) - 1) \<le> real n"
      using bit_len_bounds [OF assms(1)] by (simp add: power_int_def nat_diff_distrib)
    moreover from bit_len_bounds [OF assms(2)] have "real d < 2 powi int (bit_len d)"
      by (metis of_nat_less_iff of_nat_numeral of_nat_power power_int_of_nat)
    moreover have "(2 :: real) powi (e - 1) * 2 powi int (bit_len d) = 2 powi (int (bit_len n) - 1)"
      by (subst power_int_add [symmetric]) (simp_all add: e_def)
    ultimately have "2 powi (e - 1) * real d \<le> real n"
      by (smt (verit) mult_left_mono zero_le_power_int)
    then show ?thesis using assms(2) by (simp add: le_divide_eq)
  qed
  show ?thesis
    using test up low unfolding ilog2_def e_def [symmetric] Let_def by auto
qed

lemma div_round_bounds:
  assumes "0 < d"
  shows "a * d \<le> n \<Longrightarrow> a \<le> div_round n d" and "n < b * d \<Longrightarrow> div_round n d \<le> b"
proof -
  have q: "n div d \<le> div_round n d" "div_round n d \<le> n div d + 1"
    by (simp_all add: div_round_def Let_def)
  show "a * d \<le> n \<Longrightarrow> a \<le> div_round n d"
    using q(1) assms by (meson le_trans less_eq_div_iff_mult_less_eq)
  show "n < b * d \<Longrightarrow> div_round n d \<le> b"
    using q(2) assms by (metis Suc_eq_plus1 Suc_leI div_less_iff_less_mult le_trans)
qed

lemma ratio_bounds:
  assumes "0 < (y :: nat)"
  shows "real a \<le> real x / real y \<longleftrightarrow> a * y \<le> x" and "real x / real y < real b \<longleftrightarrow> x < b * y"
  using assms by (simp_all add: le_divide_eq divide_less_eq flip: of_nat_mult)

lemma scale_round_bounds:
  assumes "0 < d"
  shows "real a \<le> real n / real d * 2 powi k \<Longrightarrow> a \<le> scale_round n d k"
    and "real n / real d * 2 powi k < real b \<Longrightarrow> scale_round n d k \<le> b"
proof -
  obtain x y where s: "scale_round n d k = div_round x y" and y: "0 < y"
    and eq: "real n / real d * 2 powi k = real x / real y"
  proof (cases "0 \<le> k")
    case True
    show thesis
      by (rule that [of "n * 2 ^ nat k" d])
         (use True assms in \<open>simp_all add: scale_round_def power_int_nat\<close>)
  next
    case False
    show thesis
      by (rule that [of n "d * 2 ^ nat (- k)"])
         (use False assms in \<open>simp_all add: scale_round_def power_int_neg_nat\<close>)
  qed
  show "real a \<le> real n / real d * 2 powi k \<Longrightarrow> a \<le> scale_round n d k"
    unfolding eq s ratio_bounds [OF y] by (rule div_round_bounds(1) [OF y])
  show "real n / real d * 2 powi k < real b \<Longrightarrow> scale_round n d k \<le> b"
    unfolding eq s ratio_bounds [OF y] by (rule div_round_bounds(2) [OF y])
qed

lemma round_f64_canonical:
  assumes d: "0 < d"
  shows "canonical (round_f64 s n d k)"
proof (cases "n = 0")
  case True
  then show ?thesis by (simp add: round_f64_def canonical_def)
next
  case False
  define L where "L = ilog2 n d"
  define e where "e = max (L + k - 52) (- 1074)"
  define m where "m = scale_round n d (k - e)"
  from ilog2_bounds [of n d] False d have L: "2 powi L \<le> real n / real d" "real n / real d < 2 powi (L + 1)"
    by (simp_all add: L_def)
  have up: "m \<le> 2 ^ 53"
  proof -
    have "real n / real d * 2 powi (k - e) < 2 powi (L + 1) * 2 powi (k - e)"
      using L(2) by (intro mult_strict_right_mono) simp_all
    also have "\<dots> = 2 powi (L + 1 + (k - e))" by (simp add: power_int_add)
    also have "\<dots> \<le> 2 powi 53" by (intro power_int_increasing) (simp_all add: e_def)
    finally have "real n / real d * 2 powi (k - e) < real (2 ^ 53)" by simp
    from scale_round_bounds(2) [OF d this] show ?thesis by (simp add: m_def)
  qed
  have low: "2 ^ 52 \<le> m \<or> e = - 1074"
  proof (cases "e = L + k - 52")
    case True
    have "real (2 ^ 52) = 2 powi L * 2 powi (k - e)" using True by (simp flip: power_int_add)
    also have "\<dots> \<le> real n / real d * 2 powi (k - e)" using L(1) by (intro mult_right_mono) simp_all
    finally show ?thesis using scale_round_bounds(1) [OF d] by (simp add: m_def)
  qed (simp add: e_def)
  have ge: "- 1074 \<le> e" by (simp add: e_def)
  have "round_f64 s n d k = (let (m, e) = (if m = 2 ^ 53 then (2 ^ 52, e + 1) else (m, e))
      in if 971 < e then Infty s else Fin s m e)"
    using False by (simp add: round_f64_def L_def e_def m_def Let_def)
  with up low ge show ?thesis by (auto simp: canonical_def)
qed

section \<open>Exact results\<close>

lemma bit_len_unique:
  assumes "2 ^ k \<le> n" and "n < 2 ^ Suc k"
  shows "bit_len n = Suc k"
proof -
  have n: "0 < n" using assms(1) by (metis less_le_trans zero_less_numeral zero_less_power)
  note b = bit_len_bounds [OF n]
  have "k < bit_len n" using assms(1) b by (meson le_less_trans nat_power_less_imp_less zero_less_numeral)
  moreover have "bit_len n - 1 < Suc k"
    using assms(2) b by (meson le_less_trans nat_power_less_imp_less zero_less_numeral)
  ultimately show ?thesis by linarith
qed

lemma bit_len_1 [simp]: "bit_len (Suc 0) = Suc 0"
  by (rule bit_len_unique) simp_all

lemma div_round_1 [simp]: "div_round n (Suc 0) = n"
  by (simp add: div_round_def)

text \<open>A canonical value is its own rounding.\<close>

lemma round_f64_exact:
  assumes c: "canonical (Fin s m e)"
  shows "round_f64 s m 1 e = (if m = 0 then Fin s 0 (- 1074) else Fin s m e)"
proof (cases "m = 0")
  case True
  then show ?thesis by (simp add: round_f64_def)
next
  case False
  then have L: "ilog2 m 1 = int (bit_len m) - 1"
    using bit_len_bounds [of m] by (auto simp: ilog2_def Let_def nat_diff_distrib)
  have le: "bit_len m \<le> 53"
  proof -
    have "2 ^ (bit_len m - 1) < (2 :: nat) ^ 53"
      using c False bit_len_bounds [of m] by (auto simp: canonical_def intro: le_less_trans)
    then have "bit_len m - 1 < 53" by (rule nat_power_less_imp_less [rotated]) simp
    then show ?thesis by simp
  qed
  have "max (ilog2 m 1 + e - 52) (- 1074) = e"
  proof (cases "2 ^ 52 \<le> m")
    case True
    with c have "bit_len m = Suc 52" by (intro bit_len_unique) (auto simp: canonical_def)
    with L c show ?thesis by (simp add: canonical_def)
  next
    case no: False
    with c have "e = - 1074" by (simp add: canonical_def)
    with L le show ?thesis by simp
  qed
  with False c show ?thesis
    by (simp add: round_f64_def Let_def scale_round_def canonical_def)
qed

lemma f64_of_usize_1: "f64_of_usize 1 = Fin False (2 ^ 52) (- 52)"
  by (simp add: f64_of_usize_def round_f64_def ilog2_def scale_round_def Let_def)

section \<open>Evaluation\<close>

lemma bit_len_numeral [simp]: "bit_len (numeral w) = Suc (bit_len (numeral w div 2))"
  by (simp add: bit_len.simps [of "numeral w"])

lemmas f64_eval = round_f64_def ilog2_def scale_round_def div_round_def Let_def signed_def
  f64_of_usize_def

end
