(* ===== verification/BenchStats.thy ===== *)
theory BenchStats
  imports F64 Errors
begin

text \<open>
  The bencher's statistics (\<open>Stats\<close> of \<open>runner/src/bin/bencher/main.rs\<close>): what one client's driver
  reports, how the reports of several clients are merged, and the lookups of the final report. A
  \<open>HashMap\<close> is an association list with distinct keys.
\<close>

section \<open>Statistics and their merge\<close>

record BStats =
  sb_merged :: nat
  sb_total_ms :: f64
  sb_tput_all :: f64
  sb_num_ops :: "(string \<times> nat) list"
  sb_lat_avg :: "(string \<times> f64) list"
  sb_lat_min :: "(string \<times> f64) list"
  sb_lat_max :: "(string \<times> f64) list"
  sb_lat_p99 :: "(string \<times> f64) list"

definition bstats_new :: BStats where
  "bstats_new =
     \<lparr>sb_merged = 0, sb_total_ms = f64_zero, sb_tput_all = f64_zero, sb_num_ops = [],
      sb_lat_avg = [], sb_lat_min = [], sb_lat_max = [], sb_lat_p99 = []\<rparr>"

text \<open>The two loops of \<open>merge_map\<close>: over the own entries, then over the other's.\<close>

fun merge_own ::
  "('v \<Rightarrow> 'v \<Rightarrow> ('v, RunnerError) run) \<Rightarrow> (string \<times> 'v) list \<Rightarrow> (string \<times> 'v) list
     \<Rightarrow> ((string \<times> 'v) list, RunnerError) run" where
  "merge_own merge_fn other [] = Ok []"
| "merge_own merge_fn other ((op, own) # rest) =
     run_bind (case map_of other op of Some x \<Rightarrow> merge_fn own x | None \<Rightarrow> Ok own) (\<lambda>own'.
     run_bind (merge_own merge_fn other rest) (\<lambda>rest'. Ok ((op, own') # rest')))"

definition or_insert :: "string \<times> 'v \<Rightarrow> (string \<times> 'v) list \<Rightarrow> (string \<times> 'v) list" where
  "or_insert e m = (if map_of m (fst e) = None then m @ [e] else m)"

definition merge_map ::
  "('v \<Rightarrow> 'v \<Rightarrow> ('v, RunnerError) run) \<Rightarrow> (string \<times> 'v) list \<Rightarrow> (string \<times> 'v) list
     \<Rightarrow> ((string \<times> 'v) list, RunnerError) run" where
  "merge_map merge_fn own other =
     run_bind (merge_own merge_fn other own) (\<lambda>own'. Ok (fold or_insert other own'))"

definition merge_avg :: "bool \<Rightarrow> nat \<Rightarrow> nat \<Rightarrow> f64 \<Rightarrow> f64 \<Rightarrow> (f64, RunnerError) run" where
  "merge_avg dbg own_merged other_merged sl ol =
     run_bind (usize_add dbg own_merged other_merged) (\<lambda>n.
       Ok (f64_div (f64_add (f64_mul sl (f64_of_usize own_merged))
                            (f64_mul ol (f64_of_usize other_merged)))
                   (f64_of_usize n)))"

definition stats_merge :: "bool \<Rightarrow> BStats \<Rightarrow> BStats \<Rightarrow> (BStats, RunnerError) run" where
  "stats_merge dbg self other =
     run_bind (debug_assert dbg (sb_merged other \<noteq> 0)) (\<lambda>_.
       if sb_merged self = 0 then Ok other
       else
         run_bind (merge_map (usize_add dbg) (sb_num_ops self) (sb_num_ops other)) (\<lambda>num_ops.
         run_bind (merge_map (merge_avg dbg (sb_merged self) (sb_merged other))
                     (sb_lat_avg self) (sb_lat_avg other)) (\<lambda>lat_avg.
         run_bind (merge_map (\<lambda>a b. Ok (f64_min a b)) (sb_lat_min self) (sb_lat_min other)) (\<lambda>lat_min.
         run_bind (merge_map (\<lambda>a b. Ok (f64_max a b)) (sb_lat_max self) (sb_lat_max other)) (\<lambda>lat_max.
         run_bind (merge_map (\<lambda>a b. Ok (f64_max a b)) (sb_lat_p99 self) (sb_lat_p99 other)) (\<lambda>lat_p99.
         Ok (self\<lparr>sb_total_ms := f64_max (sb_total_ms self) (sb_total_ms other),
                  sb_tput_all := f64_add (sb_tput_all self) (sb_tput_all other),
                  sb_num_ops := num_ops, sb_lat_avg := lat_avg, sb_lat_min := lat_min,
                  sb_lat_max := lat_max, sb_lat_p99 := lat_p99\<rparr>)))))))"

text \<open>The lookups of \<open>print\<close>; the printed text itself is not modelled.\<close>

fun print_ops :: "bool \<Rightarrow> BStats \<Rightarrow> string list \<Rightarrow> (unit, RunnerError) run" where
  "print_ops dbg st [] = Ok ()"
| "print_ops dbg st (op # ops) =
     run_bind (debug_assert dbg (map_of (sb_lat_min st) op \<noteq> None)) (\<lambda>_.
     run_bind (debug_assert dbg (map_of (sb_lat_max st) op \<noteq> None)) (\<lambda>_.
     run_bind (debug_assert dbg (map_of (sb_lat_p99 st) op \<noteq> None)) (\<lambda>_.
       if map_of (sb_num_ops st) op = None \<or> map_of (sb_lat_avg st) op = None \<or>
          map_of (sb_lat_min st) op = None \<or> map_of (sb_lat_max st) op = None \<or>
          map_of (sb_lat_p99 st) op = None then Panic
       else print_ops dbg st ops)))"

definition stats_print :: "bool \<Rightarrow> BStats \<Rightarrow> (unit, RunnerError) run" where
  "stats_print dbg st = print_ops dbg st (map fst (sb_lat_avg st))"

section \<open>Merging maps\<close>

text \<open>The map that \<open>merge_map\<close> computes, as a function of the key.\<close>

definition merged_at :: "('v \<Rightarrow> 'v \<Rightarrow> 'v) \<Rightarrow> 'v option \<Rightarrow> 'v option \<Rightarrow> 'v option" where
  "merged_at f a b =
     (case a of None \<Rightarrow> b | Some x \<Rightarrow> Some (case b of None \<Rightarrow> x | Some y \<Rightarrow> f x y))"

lemma merge_own_pure:
  "\<exists>m. merge_own (\<lambda>a b. Ok (f a b)) other own = Ok m \<and> map fst m = map fst own \<and>
     (\<forall>op. map_of m op = map_option (\<lambda>x. case map_of other op of None \<Rightarrow> x | Some y \<Rightarrow> f x y) (map_of own op))"
proof (induction own)
  case (Cons e own)
  obtain op v where e: "e = (op, v)" by (cases e)
  from Cons obtain m where "merge_own (\<lambda>a b. Ok (f a b)) other own = Ok m" "map fst m = map fst own"
    "\<forall>op. map_of m op = map_option (\<lambda>x. case map_of other op of None \<Rightarrow> x | Some y \<Rightarrow> f x y) (map_of own op)"
    by blast
  with e show ?case by (cases "map_of other op") auto
qed simp

lemma map_of_or_insert:
  "map_of (or_insert e m) op = (if map_of m op = None \<and> op = fst e then Some (snd e) else map_of m op)"
  by (cases e) (auto simp: or_insert_def map_add_def split: option.splits)

lemma map_of_fold_or_insert:
  "map_of (fold or_insert other m) op = (case map_of m op of None \<Rightarrow> map_of other op | Some x \<Rightarrow> Some x)"
  by (induction other arbitrary: m) (auto simp: map_of_or_insert split: option.splits)

lemma merge_map_pure:
  "\<exists>m. merge_map (\<lambda>a b. Ok (f a b)) own other = Ok m \<and>
     (\<forall>op. map_of m op = merged_at f (map_of own op) (map_of other op))"
proof -
  from merge_own_pure [of f other own] obtain m where
    m: "merge_own (\<lambda>a b. Ok (f a b)) other own = Ok m"
    "\<And>op. map_of m op = map_option (\<lambda>x. case map_of other op of None \<Rightarrow> x | Some y \<Rightarrow> f x y) (map_of own op)"
    by blast
  then show ?thesis
    by (auto simp: merge_map_def map_of_fold_or_insert merged_at_def split: option.splits)
qed

lemma usize_add_release: "(usize_add False a b :: (nat, RunnerError) run) = Ok ((a + b) mod 2 ^ 64)"
  by (auto simp: usize_add_def)

lemma merge_avg_release:
  "merge_avg False a b sl ol =
     Ok (f64_div (f64_add (f64_mul sl (f64_of_usize a)) (f64_mul ol (f64_of_usize b)))
           (f64_of_usize ((a + b) mod 2 ^ 64)))"
  by (simp add: merge_avg_def usize_add_release)

text \<open>The weighted average of \<open>merge_avg\<close> in a release build.\<close>

definition weighted :: "nat \<Rightarrow> nat \<Rightarrow> f64 \<Rightarrow> f64 \<Rightarrow> f64" where
  "weighted a b sl ol =
     f64_div (f64_add (f64_mul sl (f64_of_usize a)) (f64_mul ol (f64_of_usize b)))
       (f64_of_usize ((a + b) mod 2 ^ 64))"

lemma stats_merge_release:
  assumes "sb_merged self \<noteq> 0"
  shows "\<exists>st. stats_merge False self other = Ok st \<and> sb_merged st = sb_merged self \<and>
     sb_total_ms st = f64_max (sb_total_ms self) (sb_total_ms other) \<and>
     sb_tput_all st = f64_add (sb_tput_all self) (sb_tput_all other) \<and>
     (\<forall>op. map_of (sb_num_ops st) op =
        merged_at (\<lambda>a b. (a + b) mod 2 ^ 64) (map_of (sb_num_ops self) op) (map_of (sb_num_ops other) op)) \<and>
     (\<forall>op. map_of (sb_lat_avg st) op = merged_at (weighted (sb_merged self) (sb_merged other))
        (map_of (sb_lat_avg self) op) (map_of (sb_lat_avg other) op)) \<and>
     (\<forall>op. map_of (sb_lat_min st) op =
        merged_at f64_min (map_of (sb_lat_min self) op) (map_of (sb_lat_min other) op)) \<and>
     (\<forall>op. map_of (sb_lat_max st) op =
        merged_at f64_max (map_of (sb_lat_max self) op) (map_of (sb_lat_max other) op)) \<and>
     (\<forall>op. map_of (sb_lat_p99 st) op =
        merged_at f64_max (map_of (sb_lat_p99 self) op) (map_of (sb_lat_p99 other) op))"
proof -
  have n: "usize_add False = (\<lambda>a b. (Ok ((a + b) mod 2 ^ 64) :: (nat, RunnerError) run))"
    by (intro ext) (rule usize_add_release)
  have a: "merge_avg False (sb_merged self) (sb_merged other)
      = (\<lambda>sl ol. Ok (weighted (sb_merged self) (sb_merged other) sl ol))"
    by (intro ext) (simp add: merge_avg_release weighted_def)
  obtain m1 where 1: "merge_map (usize_add False) (sb_num_ops self) (sb_num_ops other) = Ok m1"
    "\<forall>op. map_of m1 op = merged_at (\<lambda>a b. (a + b) mod 2 ^ 64) (map_of (sb_num_ops self) op) (map_of (sb_num_ops other) op)"
    using merge_map_pure [of "\<lambda>a b. (a + b) mod 2 ^ 64" "sb_num_ops self" "sb_num_ops other"]
    unfolding n by blast
  obtain m2 where 2: "merge_map (merge_avg False (sb_merged self) (sb_merged other)) (sb_lat_avg self) (sb_lat_avg other) = Ok m2"
    "\<forall>op. map_of m2 op = merged_at (weighted (sb_merged self) (sb_merged other))
        (map_of (sb_lat_avg self) op) (map_of (sb_lat_avg other) op)"
    unfolding a using merge_map_pure by blast
  obtain m3 where 3: "merge_map (\<lambda>a b. Ok (f64_min a b)) (sb_lat_min self) (sb_lat_min other) = Ok m3"
    "\<forall>op. map_of m3 op = merged_at f64_min (map_of (sb_lat_min self) op) (map_of (sb_lat_min other) op)"
    using merge_map_pure by blast
  obtain m4 where 4: "merge_map (\<lambda>a b. Ok (f64_max a b)) (sb_lat_max self) (sb_lat_max other) = Ok m4"
    "\<forall>op. map_of m4 op = merged_at f64_max (map_of (sb_lat_max self) op) (map_of (sb_lat_max other) op)"
    using merge_map_pure by blast
  obtain m5 where 5: "merge_map (\<lambda>a b. Ok (f64_max a b)) (sb_lat_p99 self) (sb_lat_p99 other) = Ok m5"
    "\<forall>op. map_of m5 op = merged_at f64_max (map_of (sb_lat_p99 self) op) (map_of (sb_lat_p99 other) op)"
    using merge_map_pure by blast
  show ?thesis
    using 1(2) 2(2) 3(2) 4(2) 5(2) by (simp add: stats_merge_def assms 1(1) 2(1) 3(1) 4(1) 5(1))
qed

text \<open>Merging the reports of several clients, in turn, as the bencher does.\<close>

fun merge_all :: "bool \<Rightarrow> BStats \<Rightarrow> BStats list \<Rightarrow> (BStats, RunnerError) run" where
  "merge_all dbg st [] = Ok st"
| "merge_all dbg st (s # ss) = run_bind (stats_merge dbg st s) (\<lambda>st'. merge_all dbg st' ss)"

lemma merge_all_avg:
  assumes "sb_merged st = 1" and "\<forall>s \<in> set ss. sb_merged s = 1 \<and> map_of (sb_lat_avg s) op = Some (avg s)"
    and "map_of (sb_lat_avg st) op = Some a"
  shows "\<exists>st'. merge_all False st ss = Ok st' \<and> sb_merged st' = 1 \<and>
     map_of (sb_lat_avg st') op = Some (foldl (weighted 1 1) a (map avg ss))"
  using assms
proof (induction ss arbitrary: st a)
  case (Cons s ss)
  from stats_merge_release [of st s] Cons.prems obtain st1 where
    st1: "stats_merge False st s = Ok st1" "sb_merged st1 = 1"
      "map_of (sb_lat_avg st1) op = Some (weighted 1 1 a (avg s))"
    by (auto simp: merged_at_def)
  from Cons.IH [OF st1(2) _ st1(3)] Cons.prems(2) st1(1) show ?case by auto
qed simp

section \<open>Properties\<close>

text \<open>
  C30. The merge of two reports, in a release build: the longer run time, the sum of the throughputs,
  and for every operation that either report mentions the sum of the counts (modulo \<open>2 ^ 64\<close>), the
  weighted average of the average latencies, the least minimum, the greatest maximum and the
  greatest 99th percentile; an operation only one report mentions is taken over unchanged. The
  number of merged reports is left as it was.
\<close>

theorem stats_merge_pointwise:
  assumes "sb_merged self \<noteq> 0"
  shows "\<exists>st. stats_merge False self other = Ok st \<and> sb_merged st = sb_merged self \<and>
     sb_total_ms st = f64_max (sb_total_ms self) (sb_total_ms other) \<and>
     sb_tput_all st = f64_add (sb_tput_all self) (sb_tput_all other) \<and>
     (\<forall>op. map_of (sb_num_ops st) op =
        merged_at (\<lambda>a b. (a + b) mod 2 ^ 64) (map_of (sb_num_ops self) op) (map_of (sb_num_ops other) op)) \<and>
     (\<forall>op. map_of (sb_lat_avg st) op = merged_at (weighted (sb_merged self) (sb_merged other))
        (map_of (sb_lat_avg self) op) (map_of (sb_lat_avg other) op)) \<and>
     (\<forall>op. map_of (sb_lat_min st) op =
        merged_at f64_min (map_of (sb_lat_min self) op) (map_of (sb_lat_min other) op)) \<and>
     (\<forall>op. map_of (sb_lat_max st) op =
        merged_at f64_max (map_of (sb_lat_max self) op) (map_of (sb_lat_max other) op)) \<and>
     (\<forall>op. map_of (sb_lat_p99 st) op =
        merged_at f64_max (map_of (sb_lat_p99 self) op) (map_of (sb_lat_p99 other) op))"
  by (rule stats_merge_release [OF assms])

definition sample_report :: "f64 \<Rightarrow> BStats" where
  "sample_report avg =
     bstats_new\<lparr>sb_merged := 1, sb_num_ops := [(''READ'', 10)], sb_lat_avg := [(''READ'', avg)]\<rparr>"

theorem stats_merge_pointwise_witness:
  "\<exists>st. stats_merge False (sample_report NaN) (sample_report NaN) = Ok st \<and>
     map_of (sb_num_ops st) ''READ'' = Some 20"
  using stats_merge_pointwise [of "sample_report NaN" "sample_report NaN"]
  by (auto simp: sample_report_def bstats_new_def merged_at_def)

text \<open>
  C35. The average over several clients is not the overall average. Because \<open>merge\<close> never raises the
  number of merged reports, every further report is weighted like all the earlier ones together:
  merging the reports of clients with the averages \<open>a\<close>, \<open>b1\<close>, \<open>b2\<close>, ... of an operation yields
  \<open>(((a + b1) / 2 + b2) / 2 + ...) / 2\<close>. For \<open>1\<close>, \<open>1\<close>, \<open>4\<close> this is \<open>2.5\<close> instead of \<open>2\<close>.
\<close>

theorem merged_average_skewed:
  assumes "sb_merged s1 = 1" and "map_of (sb_lat_avg s1) op = Some a"
    and "\<forall>s \<in> set ss. sb_merged s = 1 \<and> map_of (sb_lat_avg s) op = Some (avg s)"
  shows "\<exists>st. merge_all False bstats_new (s1 # ss) = Ok st \<and> sb_merged st = 1 \<and>
     map_of (sb_lat_avg st) op = Some (foldl (weighted 1 1) a (map avg ss))"
  using merge_all_avg [OF assms(1,3,2)] assms(1)
  by (simp add: stats_merge_def bstats_new_def)

definition f64_1 :: f64 where
  "f64_1 = Fin False 4503599627370496 (- 52)"

definition f64_2_5 :: f64 where
  "f64_2_5 = Fin False 5629499534213120 (- 51)"

definition f64_4 :: f64 where
  "f64_4 = Fin False 4503599627370496 (- 50)"

theorem merged_average_skewed_witness:
  "(\<exists>st. merge_all False bstats_new [sample_report f64_1, sample_report f64_1, sample_report f64_4]
      = Ok st \<and> map_of (sb_lat_avg st) ''READ'' = Some f64_2_5) \<and>
   parse_f64 ''2.5'' = Some f64_2_5"
proof -
  define avg where "avg s = the (map_of (sb_lat_avg s) ''READ'')" for s :: BStats
  have "\<exists>st. merge_all False bstats_new (sample_report f64_1 # [sample_report f64_1, sample_report f64_4])
      = Ok st \<and> sb_merged st = 1 \<and> map_of (sb_lat_avg st) ''READ''
        = Some (foldl (weighted 1 1) f64_1 (map avg [sample_report f64_1, sample_report f64_4]))"
    by (rule merged_average_skewed) (auto simp: sample_report_def bstats_new_def avg_def)
  moreover have "weighted 1 1 f64_1 f64_1 = f64_1" "weighted 1 1 f64_1 f64_4 = f64_2_5"
    unfolding weighted_def f64_of_usize_1 one_add_one f64_1_def f64_4_def f64_2_5_def
    by (simp_all add: f64_eval)
  then have "foldl (weighted 1 1) f64_1 [f64_1, f64_4] = f64_2_5" by simp
  moreover have "avg (sample_report x) = x" for x by (simp add: avg_def sample_report_def)
  moreover have "parse_f64 ''2.5'' = Some f64_2_5" by code_simp
  ultimately show ?thesis by auto
qed

end
