(* ===== verification/Ycsb.thy ===== *)
theory Ycsb
  imports RefCli Proc BenchStats
begin

text \<open>
  The YCSB driver of the bencher (\<open>runner/src/bin/bencher/ycsb.rs\<close>): the interpretation of the lines
  the YCSB process prints, the feeder thread that translates them into calls on a key-value client,
  and the handle of the driver. Every feeder has its own view \<open>'w\<close> of the rest of the system, its
  client at index 0.
\<close>

section \<open>Lines of the YCSB process\<close>

definition YCSB_BIN :: string where
  "YCSB_BIN = ''ycsb/bin/ycsb.sh''"

text \<open>\<^term>\<open>None\<close> is the \<open>unreachable!()\<close> of the last arm.\<close>

definition ycsb_profile :: "char \<Rightarrow> string option" where
  "ycsb_profile workload =
     (if workload = CHR ''a'' then Some ''ycsb/workloads/workloada''
      else if workload = CHR ''b'' then Some ''ycsb/workloads/workloadb''
      else if workload = CHR ''c'' then Some ''ycsb/workloads/workloadc''
      else if workload = CHR ''d'' then Some ''ycsb/workloads/workloadd''
      else if workload = CHR ''e'' then Some ''ycsb/workloads/workloade''
      else if workload = CHR ''f'' then Some ''ycsb/workloads/workloadf''
      else None)"

definition next_or :: "string \<Rightarrow> string list \<Rightarrow> (string \<times> string list, RunnerError) run" where
  "next_or msg segs = (case segs of s # segs' \<Rightarrow> Ok (s, segs') | [] \<Rightarrow> Err (Parse msg))"

definition parse_ycsb_key :: "string list \<Rightarrow> (string \<times> string list, RunnerError) run" where
  "parse_ycsb_key segs =
     run_bind (next_or ''missing key segment'' segs) (\<lambda>(a, segs).
     run_bind (next_or ''missing key segment'' segs) (\<lambda>(b, segs).
     Ok (a @ ''_'' @ b, segs)))"

definition parse_ycsb_value :: "string list \<Rightarrow> (string, RunnerError) run" where
  "parse_ycsb_value segs =
     (case segs of
        s # segs' \<Rightarrow>
          if s \<noteq> ''['' then Err (Parse ''no value start bracket'')
          else Ok (fold (\<lambda>seg v. v @ ''_'' @ seg) segs' [])
      | [] \<Rightarrow> Err (Parse ''no value start bracket''))"

definition parse_ycsb_scnt :: "string list \<Rightarrow> (nat, RunnerError) run" where
  "parse_ycsb_scnt segs =
     run_bind (next_or ''missing scan count'' segs) (\<lambda>(s, _).
       case parse_usize s of
         Ok n \<Rightarrow> Ok n | Err msg \<Rightarrow> Err (from_std (ParseIntError msg)) | Panic \<Rightarrow> Panic)"

definition parse_ycsb_float :: "string list \<Rightarrow> (f64, RunnerError) run" where
  "parse_ycsb_float segs =
     run_bind (next_or ''missing float number'' segs) (\<lambda>(s, _).
       case parse_f64 s of
         Some x \<Rightarrow> Ok x
       | None \<Rightarrow> Err (from_std (ParseFloatError ''invalid float literal'')))"

text \<open>The end key of a scan: the key \<open>scnt - 1\<close> places after the start key, or the last one.\<close>

definition scan_end ::
  "bool \<Rightarrow> string \<Rightarrow> string list \<Rightarrow> string btree_set \<Rightarrow> (string, RunnerError) run" where
  "scan_end dbg key_start segs ikeys =
     (if ikeys = [] then Ok ''zzzzzzzz''
      else
        run_bind (parse_ycsb_scnt segs) (\<lambda>scnt.
        run_bind (usize_sub dbg scnt 1) (\<lambda>i.
          case bs_last ikeys of
            None \<Rightarrow> Panic
          | Some l \<Rightarrow>
              Ok (case iter_nth (bs_range_from key_start ikeys) i of Some k \<Rightarrow> k | None \<Rightarrow> l))))"

definition interpret_ycsb_call ::
  "bool \<Rightarrow> string \<Rightarrow> string btree_set \<Rightarrow> (KvCall option \<times> string btree_set, RunnerError) run" where
  "interpret_ycsb_call dbg line ikeys =
     (case split_whitespace line of
        [] \<Rightarrow> Ok (None, ikeys)
      | tag # segs \<Rightarrow>
          if tag = ''INSERT'' then
            run_bind (parse_ycsb_key segs) (\<lambda>(key, segs).
            run_bind (parse_ycsb_value segs) (\<lambda>v.
            Ok (Some (KvCall.Put key v), bs_insert key ikeys)))
          else if tag = ''UPDATE'' then
            run_bind (parse_ycsb_key segs) (\<lambda>(key, segs).
            run_bind (parse_ycsb_value segs) (\<lambda>v.
            Ok (Some (KvCall.Swap key v), ikeys)))
          else if tag = ''READ'' then
            run_bind (parse_ycsb_key segs) (\<lambda>(key, segs).
            Ok (Some (KvCall.Get key), ikeys))
          else if tag = ''SCAN'' then
            run_bind (parse_ycsb_key segs) (\<lambda>(key_start, segs).
            run_bind (scan_end dbg key_start segs ikeys) (\<lambda>key_end.
            Ok (Some (KvCall.Scan key_start key_end), ikeys)))
          else Ok (None, ikeys))"

definition map_insert :: "string \<Rightarrow> 'v \<Rightarrow> (string \<times> 'v) list \<Rightarrow> (string \<times> 'v) list" where
  "map_insert k v m =
     (if map_of m k = None then m @ [(k, v)] else map (\<lambda>(k', v'). (k', if k' = k then v else v')) m)"

definition record_ycsb_perf :: "string \<Rightarrow> BStats \<Rightarrow> (BStats, RunnerError) run" where
  "record_ycsb_perf line stats =
     (case split_whitespace line of
        [] \<Rightarrow> Ok stats
      | header # segs \<Rightarrow>
          if header = ''[OVERALL],'' then
            (case segs of
               [] \<Rightarrow> Ok stats
             | name # segs \<Rightarrow>
                 if str_contains name ''RunTime(ms)'' then
                   run_bind (parse_ycsb_float segs) (\<lambda>x. Ok (stats\<lparr>sb_total_ms := x\<rparr>))
                 else if str_contains name ''Throughput'' then
                   run_bind (parse_ycsb_float segs) (\<lambda>x. Ok (stats\<lparr>sb_tput_all := x\<rparr>))
                 else Ok stats)
          else if header \<in> {''[INSERT],'', ''[UPDATE],'', ''[READ],'', ''[SCAN],''} then
            (let op = take (length header - 3) (drop 1 header)
             in case segs of
                  [] \<Rightarrow> Ok stats
                | name # segs \<Rightarrow>
                    if str_contains name ''Operations'' then
                      run_bind (parse_ycsb_float segs) (\<lambda>x.
                        Ok (stats\<lparr>sb_num_ops := map_insert op (usize_of_f64 x) (sb_num_ops stats)\<rparr>))
                    else if str_contains name ''AverageLatency'' then
                      run_bind (parse_ycsb_float segs) (\<lambda>x.
                        Ok (stats\<lparr>sb_lat_avg := map_insert op x (sb_lat_avg stats)\<rparr>))
                    else if str_contains name ''MinLatency'' then
                      run_bind (parse_ycsb_float segs) (\<lambda>x.
                        Ok (stats\<lparr>sb_lat_min := map_insert op x (sb_lat_min stats)\<rparr>))
                    else if str_contains name ''MaxLatency'' then
                      run_bind (parse_ycsb_float segs) (\<lambda>x.
                        Ok (stats\<lparr>sb_lat_max := map_insert op x (sb_lat_max stats)\<rparr>))
                    else if str_contains name ''99thPercentileLatency'' then
                      run_bind (parse_ycsb_float segs) (\<lambda>x.
                        Ok (stats\<lparr>sb_lat_p99 := map_insert op x (sb_lat_p99 stats)\<rparr>))
                    else Ok stats)
          else Ok stats)"

section \<open>The feeder thread\<close>

record 'w feeder =
  fd_stdout :: reader
  fd_sys :: "'w sys"
  fd_ikeys :: "string btree_set"
  fd_stats :: BStats
  fd_ended :: bool

text \<open>The synchronous call on the client; the response is dropped.\<close>

definition feed_call :: "'w os \<Rightarrow> KvCall \<Rightarrow> 'w sys \<Rightarrow> (unit, RunnerError) run \<times> 'w sys" where
  "feed_call os call s =
     (case send_call 0 call s of
        Err e \<Rightarrow> (Err e, s)
      | Panic \<Rightarrow> (Panic, s)
      | Ok (cs, w) \<Rightarrow>
          (case os_sched os w of (sched, w') \<Rightarrow>
           (case wait_resp os sched 0 (cs, w') of
              (res, s') \<Rightarrow> (run_bind res (\<lambda>_. Ok ()), s'))))"

text \<open>\<^term>\<open>None\<close> is blocking on the output of the YCSB process.\<close>

definition feed_a_line ::
  "bool \<Rightarrow> 'w os \<Rightarrow> 'w feeder \<Rightarrow> ((unit, RunnerError) run \<times> 'w feeder) option" where
  "feed_a_line dbg os fd =
     (case read_line (fd_stdout fd) [] of
        None \<Rightarrow> None
      | Some (Err msg) \<Rightarrow> Some (Err (from_std (IoError msg)), fd)
      | Some Panic \<Rightarrow> Some (Panic, fd)
      | Some (Ok (nread, line, rd)) \<Rightarrow>
          (let fd = fd\<lparr>fd_stdout := rd\<rparr>
           in if nread = 0 then Some (Ok (), fd\<lparr>fd_ended := True\<rparr>)
              else if trim line = [] then Some (Ok (), fd)
              else
                case interpret_ycsb_call dbg line (fd_ikeys fd) of
                  Err e \<Rightarrow> Some (Err e, fd)
                | Panic \<Rightarrow> Some (Panic, fd)
                | Ok (Some call, ikeys) \<Rightarrow>
                    (case feed_call os call (fd_sys fd) of
                       (res, s) \<Rightarrow> Some (res, fd\<lparr>fd_ikeys := ikeys, fd_sys := s\<rparr>))
                | Ok (None, ikeys) \<Rightarrow>
                    if starts_with line (CHR ''['') then
                      (case record_ycsb_perf line (fd_stats fd) of
                         Ok stats \<Rightarrow> Some (Ok (), fd\<lparr>fd_ikeys := ikeys, fd_stats := stats\<rparr>)
                       | Err e \<Rightarrow> Some (Err e, fd\<lparr>fd_ikeys := ikeys\<rparr>)
                       | Panic \<Rightarrow> Some (Panic, fd\<lparr>fd_ikeys := ikeys\<rparr>))
                    else if str_contains line ''No such file'' then
                      Some (Err (Io line), fd\<lparr>fd_ikeys := ikeys\<rparr>)
                    else Some (Ok (), fd\<lparr>fd_ikeys := ikeys\<rparr>)))"

text \<open>
  The loop of the feeder thread, to the state it is left with; a panic ends the thread. What it
  prints to the standard error is not modelled.
\<close>

partial_function (option) feed_loop ::
  "bool \<Rightarrow> 'w os \<Rightarrow> 'w feeder \<Rightarrow> ('w feeder, RunnerError) run option" where
  "feed_loop dbg os fd =
     (case feed_a_line dbg os fd of
        None \<Rightarrow> None
      | Some (res, fd') \<Rightarrow>
          (case res of
             Panic \<Rightarrow> Some Panic
           | Err e \<Rightarrow> Some (Ok fd')
           | Ok u \<Rightarrow> if fd_ended fd' then Some (Ok fd') else feed_loop dbg os fd'))"

declare feed_loop.simps [code]

text \<open>The result of the thread: \<^term>\<open>None\<close> is a failed workload.\<close>

definition feeder_thread ::
  "bool \<Rightarrow> 'w os \<Rightarrow> reader \<Rightarrow> 'w sys \<Rightarrow> string btree_set
     \<Rightarrow> ((BStats \<times> string btree_set) option \<times> 'w sys, RunnerError) run option" where
  "feeder_thread dbg os stdout client ikeys =
     (case feed_loop dbg os \<lparr>fd_stdout = stdout, fd_sys = client, fd_ikeys = ikeys,
                            fd_stats = bstats_new, fd_ended = False\<rparr> of
        None \<Rightarrow> None
      | Some res \<Rightarrow> Some (run_bind res (\<lambda>fd.
          case fd_sys fd of (cs, w) \<Rightarrow>
          (case os_sched os w of (sched, w') \<Rightarrow>
           (case client_stop os sched 0 (cs, w') of
              (Panic, s) \<Rightarrow> Panic
            | (_, s) \<Rightarrow>
                Ok (if \<not> fd_ended fd then None
                    else Some ((fd_stats fd)\<lparr>sb_merged := 1\<rparr>, fd_ikeys fd), s))))))"

section \<open>The driver handle\<close>

record YcsbDriver =
  yd_handle :: nat
  yd_feeder :: "((BStats \<times> string btree_set) option, RunnerError) run option"

text \<open>
  \<open>exec\<close>: the handle holds the process and what the feeder thread will come to, \<^term>\<open>None\<close> if it
  does not end.
\<close>

definition exec_args :: "string \<Rightarrow> nat \<Rightarrow> bool \<Rightarrow> string list" where
  "exec_args profile ops load =
     [YCSB_BIN, if load then ''load'' else ''run'', ''basic'', ''-P'', profile, ''-p'',
      ''operationcount='' @ show_nat ops]"

definition driver_exec ::
  "bool \<Rightarrow> 'w os \<Rightarrow> char \<Rightarrow> nat \<Rightarrow> bool \<Rightarrow> 'w sys \<Rightarrow> string btree_set
     \<Rightarrow> (YcsbDriver, RunnerError) run \<times> 'w sys" where
  "driver_exec dbg os workload ops load client ikeys =
     (case ycsb_profile workload of
        None \<Rightarrow> (Panic, client)
      | Some profile \<Rightarrow>
          (case client of (cs, w) \<Rightarrow>
           (case os_spawn os (exec_args profile ops load) w of
              (Err msg, w1) \<Rightarrow> (Err (from_std (IoError msg)), (cs, w1))
            | (Panic, w1) \<Rightarrow> (Panic, (cs, w1))
            | (Ok handle, w1) \<Rightarrow>
                (case os_output os handle w1 of
                   ((out, fin), w2) \<Rightarrow>
                     (case feeder_thread dbg os \<lparr>rd_rest = out, rd_end = fin\<rparr> (cs, w2) ikeys of
                        None \<Rightarrow> (Ok \<lparr>yd_handle = handle, yd_feeder = None\<rparr>, (cs, w2))
                      | Some (Ok (ret, s)) \<Rightarrow>
                          (Ok \<lparr>yd_handle = handle, yd_feeder = Some (Ok ret)\<rparr>, s)
                      | Some (Err e) \<Rightarrow>
                          (Ok \<lparr>yd_handle = handle, yd_feeder = Some (Err e)\<rparr>, (cs, w2))
                      | Some Panic \<Rightarrow>
                          (Ok \<lparr>yd_handle = handle, yd_feeder = Some Panic\<rparr>, (cs, w2)))))))"

text \<open>
  \<open>wait\<close>: the feeder signals its end, unless it panics, which drops the sender. \<open>in_time\<close> tells
  whether it ends before the timeout.
\<close>

definition driver_wait ::
  "'w os \<Rightarrow> bool \<Rightarrow> YcsbDriver \<Rightarrow> 'w
     \<Rightarrow> ((BStats \<times> string btree_set) option, RunnerError) run" where
  "driver_wait os in_time yd w =
     (if \<not> in_time then Err (from_std RecvTimeout)
      else case yd_feeder yd of
          None \<Rightarrow> Err (from_std RecvTimeout)
        | Some (Ok ret) \<Rightarrow>
            run_bind (io_question (fst (os_kill os (yd_handle yd) w))) (\<lambda>_. Ok ret)
        | Some _ \<Rightarrow> Err (from_std RecvDisconnected))"

section \<open>Calls\<close>

lemma next_or_Ok: "next_or msg segs = Ok (s, segs') \<longleftrightarrow> segs = s # segs'"
  by (auto simp: next_or_def split: list.splits)

lemma token_join: "is_token a \<Longrightarrow> is_token b \<Longrightarrow> is_token (a @ CHR ''_'' # b)"
  by (auto simp: is_token_def is_whitespace_def)

lemma parse_ycsb_key_Ok:
  "parse_ycsb_key segs = Ok (key, rest) \<longleftrightarrow> (\<exists>a b. segs = a # b # rest \<and> key = a @ CHR ''_'' # b)"
  by (auto simp: parse_ycsb_key_def run_bind_Ok_iff next_or_Ok)

lemma token_extend: "v = [] \<or> is_token v \<Longrightarrow> is_token s \<Longrightarrow> is_token (v @ ''_'' @ s)"
  by (auto simp: is_token_def is_whitespace_def)

lemma fold_join_token:
  "list_all is_token segs \<Longrightarrow> v = [] \<or> is_token v \<Longrightarrow>
     (fold (\<lambda>seg v. v @ ''_'' @ seg) segs v = [] \<and> segs = []) \<or>
     is_token (fold (\<lambda>seg v. v @ ''_'' @ seg) segs v)"
proof (induction segs arbitrary: v)
  case (Cons s segs)
  from Cons.prems have tok: "is_token (v @ ''_'' @ s)" by (intro token_extend) simp_all
  from Cons.prems have "list_all is_token segs" by simp
  from Cons.IH [OF this disjI2 [OF tok]] tok show ?case by (auto simp del: append_assoc)
qed simp

lemma parse_ycsb_value_Ok:
  assumes "parse_ycsb_value segs = Ok v" and "list_all is_token segs"
  shows "is_token v \<or> segs = [''['']"
  using assms fold_join_token [of "tl segs" "[]"]
  by (cases segs) (auto simp: parse_ycsb_value_def split: if_splits)

lemma scan_end_member:
  assumes "scan_end dbg key_start segs ikeys = Ok key_end"
  shows "key_end \<in> Set.insert ''zzzzzzzz'' (set ikeys)"
  using assms
  by (auto simp: scan_end_def run_bind_Ok_iff bs_last_def iter_nth_def bs_range_from_def
      split: if_splits option.splits dest: nth_mem)

lemma key_parts_token:
  assumes "list_all is_token segs" and "parse_ycsb_key segs = Ok (key, rest)"
  shows "is_token key" and "list_all is_token rest"
  using assms by (auto simp: parse_ycsb_key_Ok intro: token_join)

lemma if_chain4:
  "(if a then w else if b then x else if c then y else if d then z else u) = r \<Longrightarrow> u \<noteq> r \<Longrightarrow>
     w = r \<or> x = r \<or> y = r \<or> z = r"
  by (auto split: if_splits)

section \<open>Scans\<close>

lemma card_upto_nth:
  assumes "sorted_wrt (<) (r :: 'a :: linorder list)" and "i < length r"
  shows "{k \<in> set r. k \<le> r ! i} = set (take (Suc i) r)" and "card {k \<in> set r. k \<le> r ! i} = Suc i"
proof -
  show eq: "{k \<in> set r. k \<le> r ! i} = set (take (Suc i) r)"
  proof
    show "{k \<in> set r. k \<le> r ! i} \<subseteq> set (take (Suc i) r)"
    proof
      fix k assume "k \<in> {k \<in> set r. k \<le> r ! i}"
      then obtain j where j: "j < length r" "k = r ! j" "r ! j \<le> r ! i" by (auto simp: in_set_conv_nth)
      have "\<not> i < j" using sorted_wrt_nth_less [OF assms(1), of i j] j by auto
      with j show "k \<in> set (take (Suc i) r)" by (auto simp: in_set_conv_nth intro!: exI [of _ j])
    qed
    show "set (take (Suc i) r) \<subseteq> {k \<in> set r. k \<le> r ! i}"
    proof
      fix k assume "k \<in> set (take (Suc i) r)"
      then obtain j where j: "j < Suc i" "j < length r" "k = r ! j" by (auto simp: in_set_conv_nth)
      then show "k \<in> {k \<in> set r. k \<le> r ! i}"
        using sorted_wrt_nth_less [OF assms(1), of j i] assms(2) by (cases "j = i") auto
    qed
  qed
  have "distinct r" using assms(1) strict_sorted_iff by blast
  with assms(2) show "card {k \<in> set r. k \<le> r ! i} = Suc i" unfolding eq
    by (simp add: distinct_card)
qed

lemma scan_end_covers:
  assumes s: "sorted_wrt (<) ikeys" and ne: "ikeys \<noteq> []" and cnt: "parse_ycsb_scnt segs = Ok scnt" and pos: "0 < scnt"
  shows "\<exists>key_end. scan_end dbg key_start segs ikeys = Ok key_end \<and> key_end \<in> set ikeys \<and>
     card {k \<in> set ikeys. key_start \<le> k \<and> k \<le> key_end} = min scnt (card {k \<in> set ikeys. key_start \<le> k})"
proof -
  let ?r = "bs_range_from key_start ikeys"
  have sr: "sorted_wrt (<) ?r" using s by (simp add: bs_range_from_def sorted_wrt_filter)
  have setr: "set ?r = {k \<in> set ikeys. key_start \<le> k}" by (auto simp: bs_range_from_def)
  have len: "card {k \<in> set ikeys. key_start \<le> k} = length ?r"
    unfolding setr [symmetric] using sr by (intro distinct_card) (simp add: strict_sorted_iff)
  have sub: "(usize_sub dbg scnt 1 :: (nat, RunnerError) run) = Ok (scnt - 1)" using pos by simp
  show ?thesis
  proof (cases "scnt - 1 < length ?r")
    case True
    have "{k \<in> set ikeys. key_start \<le> k \<and> k \<le> ?r ! (scnt - 1)} = {k \<in> set ?r. k \<le> ?r ! (scnt - 1)}"
      by (auto simp: setr)
    with card_upto_nth(2) [OF sr True] pos True len nth_mem [OF True] setr show ?thesis
      using ne cnt sub by (auto simp: scan_end_def bs_last_def iter_nth_def)
  next
    case False
    have "k \<le> last ikeys" if "k \<in> set ikeys" for k
      using s that ne by (metis sorted_wrt_append append_butlast_last_id in_set_butlastD less_imp_le
          list.set_intros(1) order_refl set_append UnE set_ConsD empty_iff list.set(1))
    then have "{k \<in> set ikeys. key_start \<le> k \<and> k \<le> last ikeys} = {k \<in> set ikeys. key_start \<le> k}" by auto
    with False len ne cnt sub show ?thesis by (auto simp: scan_end_def bs_last_def iter_nth_def)
  qed
qed

section \<open>The feeder's loop ends\<close>

lemma read_line_eof:
  assumes "rd_end r = Eof"
  shows "\<exists>n line r'. read_line r [] = Some (Ok (n, line, r')) \<and> rd_end r' = Eof \<and>
     (n = 0 \<or> length (rd_rest r') < length (rd_rest r))"
proof (cases "take_line (rd_rest r)")
  case None
  with assms show ?thesis by (cases "rd_rest r") (auto simp: read_line_def)
next
  case (Some p)
  with take_line_split [of "rd_rest r"] assms show ?thesis by (cases p) (auto simp: read_line_def)
qed

lemma feed_a_line_eof:
  assumes "rd_end (fd_stdout fd) = Eof"
  shows "\<exists>res fd'. feed_a_line dbg os fd = Some (res, fd') \<and> rd_end (fd_stdout fd') = Eof \<and>
     (fd_ended fd' \<or> length (rd_rest (fd_stdout fd')) < length (rd_rest (fd_stdout fd)))"
proof -
  from read_line_eof [OF assms] obtain n line r where
    r: "read_line (fd_stdout fd) [] = Some (Ok (n, line, r))" "rd_end r = Eof"
    and l: "n = 0 \<or> length (rd_rest r) < length (rd_rest (fd_stdout fd))" by blast
  show ?thesis
  proof (cases "n = 0 \<or> trim line = []")
    case True
    with r l show ?thesis by (cases "n = 0") (auto simp: feed_a_line_def Let_def)
  next
    case False
    show ?thesis
    proof (cases "interpret_ycsb_call dbg line (fd_ikeys fd)")
      case (Ok p)
      obtain c ik where p: "p = (c, ik)" by (cases p)
      show ?thesis
      proof (cases c)
        case None
        with r l False Ok p show ?thesis
          by (cases "record_ycsb_perf line (fd_stats fd)") (auto simp: feed_a_line_def Let_def)
      next
        case (Some call)
        with r l False Ok p show ?thesis
          by (cases "feed_call os call (fd_sys fd)") (auto simp: feed_a_line_def Let_def)
      qed
    qed (use r l False in \<open>auto simp: feed_a_line_def Let_def\<close>)
  qed
qed

lemma feed_loop_eof:
  assumes "rd_end (fd_stdout fd) = Eof"
  shows "\<exists>res. feed_loop dbg os fd = Some res"
  using assms
proof (induction "length (rd_rest (fd_stdout fd))" arbitrary: fd rule: less_induct)
  case less
  from feed_a_line_eof [OF less.prems, of dbg os] obtain res fd' where
    f: "feed_a_line dbg os fd = Some (res, fd')" "rd_end (fd_stdout fd') = Eof"
    and d: "fd_ended fd' \<or> length (rd_rest (fd_stdout fd')) < length (rd_rest (fd_stdout fd))" by blast
  show ?case
  proof (cases res)
    case (Ok u)
    with f d less.hyps [of fd'] show ?thesis by (subst feed_loop.simps) auto
  qed (use f in \<open>subst feed_loop.simps, simp\<close>)+
qed

section \<open>Properties\<close>

text \<open>
  C31. A scan of the workload covers the requested number of keys. If keys were inserted and the
  requested count is positive, the end key is an inserted key, and the inserted keys between the
  two bounds, both included, are as many as were requested, or all that follow the start key if they
  are fewer.
\<close>

theorem ycsb_scan_covers:
  assumes "sorted_wrt (<) ikeys" and "ikeys \<noteq> []"
    and "split_whitespace line = ''SCAN'' # a # b # cnt # rest" and "parse_usize cnt = Ok scnt" and "0 < scnt"
  shows "\<exists>key_end. interpret_ycsb_call dbg line ikeys
       = Ok (Some (KvCall.Scan (a @ ''_'' @ b) key_end), ikeys) \<and> key_end \<in> set ikeys \<and>
     card {k \<in> set ikeys. a @ ''_'' @ b \<le> k \<and> k \<le> key_end}
       = min scnt (card {k \<in> set ikeys. a @ ''_'' @ b \<le> k})"
proof -
  have "parse_ycsb_scnt (cnt # rest) = Ok scnt" using assms(4) by (simp add: parse_ycsb_scnt_def next_or_def)
  from scan_end_covers [OF assms(1,2) this assms(5), of dbg "a @ ''_'' @ b"] assms(3) show ?thesis
    by (auto simp: interpret_ycsb_call_def parse_ycsb_key_def next_or_def)
qed

theorem ycsb_scan_covers_witness:
  "\<exists>key_end. interpret_ycsb_call True ''SCAN t user1 2 [ ]'' [''t_user1'', ''t_user2'', ''t_user3'']
       = Ok (Some (KvCall.Scan (''t'' @ ''_'' @ ''user1'') key_end), [''t_user1'', ''t_user2'', ''t_user3''])"
proof -
  have "split_whitespace ''SCAN t user1 2 [ ]'' = ''SCAN'' # ''t'' # ''user1'' # ''2'' # [''['', '']'']"
    by code_simp
  moreover have "parse_usize ''2'' = Ok 2" by (simp add: parse_usize_def digit_val_def)
  moreover have "sorted_wrt (<) [''t_user1'', ''t_user2'', ''t_user3'']" by code_simp
  ultimately show ?thesis
    using ycsb_scan_covers [of "[''t_user1'', ''t_user2'', ''t_user3'']" "''SCAN t user1 2 [ ]''" "''t''"
        "''user1''" "''2''" "[''['', '']'']" 2 True]
    by auto
qed

text \<open>
  C36. A scan of zero keys: the count minus one overflows. A debug build panics; a release build wraps
  around and scans up to the last inserted key.
\<close>

theorem ycsb_scan_zero:
  assumes "ikeys \<noteq> []" and "length ikeys < 2 ^ 64 - 1"
    and "split_whitespace line = ''SCAN'' # a # b # cnt # rest" and "parse_usize cnt = Ok 0"
  shows "interpret_ycsb_call True line ikeys = Panic \<and>
     interpret_ycsb_call False line ikeys = Ok (Some (KvCall.Scan (a @ ''_'' @ b) (last ikeys)), ikeys)"
proof -
  let ?r = "bs_range_from (a @ ''_'' @ b) ikeys"
  have "length ?r \<le> length ikeys" by (simp add: bs_range_from_def)
  then have "iter_nth ?r (2 ^ 64 - 1) = None" using assms(2) by (simp add: iter_nth_def)
  then show ?thesis
    using assms(1,3,4)
    by (simp add: interpret_ycsb_call_def parse_ycsb_key_def next_or_def scan_end_def parse_ycsb_scnt_def
        usize_sub_def bs_last_def)
qed

theorem ycsb_scan_zero_witness:
  "interpret_ycsb_call True ''SCAN t user1 0 [ ]'' [''t_user1'', ''t_user2''] = Panic \<and>
   interpret_ycsb_call False ''SCAN t user1 0 [ ]'' [''t_user1'', ''t_user2'']
     = Ok (Some (KvCall.Scan (''t'' @ ''_'' @ ''user1'') (last [''t_user1'', ''t_user2''])),
           [''t_user1'', ''t_user2''])"
proof -
  have "split_whitespace ''SCAN t user1 0 [ ]'' = ''SCAN'' # ''t'' # ''user1'' # ''0'' # [''['', '']'']"
    by code_simp
  moreover have "parse_usize ''0'' = Ok 0" by (simp add: parse_usize_def digit_val_def)
  ultimately show ?thesis
    using ycsb_scan_zero [of "[''t_user1'', ''t_user2'']" "''SCAN t user1 0 [ ]''" "''t''" "''user1''"
        "''0''" "[''['', '']'']"] by simp
qed

text \<open>
  C32. Every call the translation produces can be written as a line of words and read back, but for an
  \<open>INSERT\<close> or \<open>UPDATE\<close> whose value bracket is opened and followed by nothing; the set of inserted
  keys stays sorted, and an inserted key is in it.
\<close>

theorem ycsb_call_wellformed:
  assumes "interpret_ycsb_call dbg line ikeys = Ok (Some call, ikeys')"
    and "list_all is_token ikeys" and "sorted_wrt (<) ikeys"
  shows "list_all is_token ikeys' \<and> sorted_wrt (<) ikeys' \<and>
     (\<forall>k v. call = KvCall.Put k v \<longrightarrow> k \<in> set ikeys') \<and>
     (call_tokens call \<or> (\<exists>op a b. split_whitespace line = [op, a, b, ''['']))"
proof -
  obtain tag segs where sw: "split_whitespace line = tag # segs"
    using assms(1) by (cases "split_whitespace line") (auto simp: interpret_ycsb_call_def)
  have toks: "list_all is_token segs" using split_whitespace_tokens [of line] sw by simp
  obtain key rest where key: "parse_ycsb_key segs = Ok (key, rest)"
    using assms(1) sw by (auto simp: interpret_ycsb_call_def run_bind_Ok_iff split: if_splits)
  note kt = key_parts_token [OF toks key]
  have four: "\<exists>a b. segs = [a, b, ''['']" if "rest = [''['']" using key that by (auto simp: parse_ycsb_key_Ok)
  have ex: "interpret_ycsb_call dbg line ikeys =
     (if tag = ''INSERT'' then run_bind (parse_ycsb_value rest) (\<lambda>v. Ok (Some (KvCall.Put key v), bs_insert key ikeys))
      else if tag = ''UPDATE'' then run_bind (parse_ycsb_value rest) (\<lambda>v. Ok (Some (KvCall.Swap key v), ikeys))
      else if tag = ''READ'' then Ok (Some (KvCall.Get key), ikeys)
      else if tag = ''SCAN'' then run_bind (scan_end dbg key rest ikeys) (\<lambda>e. Ok (Some (KvCall.Scan key e), ikeys))
      else Ok (None, ikeys))"
    using sw key by (simp add: interpret_ycsb_call_def)
  have z: "is_token ''zzzzzzzz''" by (simp add: is_token_def is_whitespace_def)
  from if_chain4 [OF assms(1) [unfolded ex]] consider
      (ins) "run_bind (parse_ycsb_value rest) (\<lambda>v. Ok (Some (KvCall.Put key v), bs_insert key ikeys))
        = Ok (Some call, ikeys')"
    | (upd) "run_bind (parse_ycsb_value rest) (\<lambda>v. Ok (Some (KvCall.Swap key v), ikeys)) = Ok (Some call, ikeys')"
    | (read) "call = KvCall.Get key" "ikeys' = ikeys"
    | (scan) "run_bind (scan_end dbg key rest ikeys) (\<lambda>e. Ok (Some (KvCall.Scan key e), ikeys)) = Ok (Some call, ikeys')"
    by auto
  then show ?thesis
  proof cases
    case ins
    then obtain v where v: "parse_ycsb_value rest = Ok v" "call = KvCall.Put key v" "ikeys' = bs_insert key ikeys"
      by (auto simp: run_bind_Ok_iff)
    with parse_ycsb_value_Ok [OF v(1) kt(2)] four kt(1) assms(2,3) sorted_bs_insert [of ikeys key] show ?thesis
      by (auto simp: sw call_tokens_def list_all_iff)
  next
    case upd
    then obtain v where v: "parse_ycsb_value rest = Ok v" "call = KvCall.Swap key v" "ikeys' = ikeys"
      by (auto simp: run_bind_Ok_iff)
    with parse_ycsb_value_Ok [OF v(1) kt(2)] four kt(1) assms(2,3) show ?thesis
      by (auto simp: sw call_tokens_def)
  next
    case read
    with kt(1) assms(2,3) show ?thesis by (simp add: call_tokens_def)
  next
    case scan
    then obtain e where e: "scan_end dbg key rest ikeys = Ok e" "call = KvCall.Scan key e" "ikeys' = ikeys"
      by (auto simp: run_bind_Ok_iff)
    have "is_token e" using scan_end_member [OF e(1)] z assms(2) by (auto simp: list_all_iff)
    with e kt(1) assms(2,3) show ?thesis by (simp add: call_tokens_def)
  qed
qed

theorem ycsb_call_wellformed_witness:
  "interpret_ycsb_call True ''INSERT t user1 [ f=x ]'' [''t_user0''] =
     Ok (Some (KvCall.Put ''t_user1'' ''_f=x_]''), [''t_user0'', ''t_user1'']) \<and>
   call_tokens (KvCall.Put ''t_user1'' ''_f=x_]'')"
proof -
  have "interpret_ycsb_call True ''INSERT t user1 [ f=x ]'' [''t_user0''] =
     Ok (Some (KvCall.Put ''t_user1'' ''_f=x_]''), [''t_user0'', ''t_user1''])" by code_simp
  moreover from ycsb_call_wellformed [OF this] have "call_tokens (KvCall.Put ''t_user1'' ''_f=x_]'') \<or>
      (\<exists>op a b. split_whitespace ''INSERT t user1 [ f=x ]'' = [op, a, b, ''[''])"
    by (simp add: is_token_def is_whitespace_def)
  moreover have "split_whitespace ''INSERT t user1 [ f=x ]'' = [''INSERT'', ''t'', ''user1'', ''['', ''f=x'', '']'']"
    by code_simp
  ultimately show ?thesis by simp
qed

text \<open>
  C33. The feeder thread ends whenever the YCSB process closes its output: whatever the lines say and
  however the key-value client behaves.
\<close>

theorem feeder_thread_ends:
  assumes "rd_end stdout = Eof"
  shows "\<exists>res. feeder_thread dbg os stdout client ikeys = Some res"
  using feed_loop_eof [of "\<lparr>fd_stdout = stdout, fd_sys = client, fd_ikeys = ikeys,
      fd_stats = bstats_new, fd_ended = False\<rparr>" dbg os] assms
  by (auto simp: feeder_thread_def)

theorem feeder_thread_ends_witness:
  "\<exists>res. feeder_thread True script_os \<lparr>rd_rest = ''READ t k'', rd_end = Eof\<rparr> ([fresh_client], []) [] = Some res"
  by (rule feeder_thread_ends) simp

end
