(* ===== verification/YcsbRun.thy ===== *)
theory YcsbRun
  imports Ycsb Store
begin

text \<open>
  The YCSB feeder against a store: what a workload means, as a fold over its lines, and that the
  feeder thread carries it out.
\<close>

section \<open>The meaning of a workload\<close>

text \<open>
  The calls the lines of a workload ask for, the inserted keys and the statistics they leave behind;
  no client is involved.
\<close>

fun ycsb_calls ::
  "bool \<Rightarrow> string list \<Rightarrow> string btree_set \<Rightarrow> BStats
     \<Rightarrow> (KvCall list \<times> string btree_set \<times> BStats, RunnerError) run" where
  "ycsb_calls dbg [] ikeys stats = Ok ([], ikeys, stats)"
| "ycsb_calls dbg (line # lines) ikeys stats =
     (if trim line = [] then ycsb_calls dbg lines ikeys stats
      else
        run_bind (interpret_ycsb_call dbg line ikeys) (\<lambda>(call, ikeys).
          case call of
            Some call \<Rightarrow>
              run_bind (ycsb_calls dbg lines ikeys stats) (\<lambda>(calls, ikeys, stats).
                Ok (call # calls, ikeys, stats))
          | None \<Rightarrow>
              if starts_with line (CHR ''['') then
                run_bind (record_ycsb_perf line stats) (ycsb_calls dbg lines ikeys)
              else if str_contains line ''No such file'' then Err (Io line)
              else ycsb_calls dbg lines ikeys stats))"

definition as_line :: "string \<Rightarrow> string" where
  "as_line l = l @ [newline]"

section \<open>A synchronous call\<close>

context recorded_service
begin

lemma wait_single:
  assumes "good w" and "accepts c" and "call_plain c" and "plain_kv (view w)"
    and "client_at cp [c] []" and "0 \<in> set sched"
  shows "\<exists>resp cp' w'. wait_resp os sched 0 ([cp], w) = (Ok resp, ([cp'], w')) \<and> client_at cp' [] [] \<and>
     cp_handle cp' = cp_handle cp \<and> view w' = kv_apply c (view w) \<and> good w' \<and>
     kv_answers (view w) c resp \<and> traffic w' = traffic w @ exchanges (cp_handle cp) [c] [resp]"
  using assms(6)
proof (induction sched)
  case (Cons j js)
  note wt = wait_at(3) [of 0 "[cp]" "[c]" "[]" os j js w]
  show ?case
  proof (cases "j = 0")
    case True
    have "call_tokens c" using assms(3) by (simp add: call_plain_def)
    from driver_serves [OF assms(1,2) this assms(5) kv_answers_plain [OF assms(4,3)]] obtain resp cp' w' where
      dr: "driver_thread os cp w = (cp', w')" "client_at cp' [] [resp]" "cp_handle cp' = cp_handle cp"
      and v: "view w' = kv_apply c (view w)" "good w'" "kv_answers (view w) c resp"
      and ex: "exchange os (cp_handle cp) c resp w w'" by blast
    then have "wait_resp os (j # js) 0 ([cp], w) = wait_resp os js 0 ([cp'], w')"
      using wt assms(5) True by (simp add: driver_step_def)
    with wait_at(1) [of 0 "[cp']" "[]" "[resp]" resp os js w'] dr(2,3) v log_exchange [OF ex] show ?thesis
      by (auto simp: client_at_def channel_def)
  next
    case False
    with wt assms(5) Cons show ?thesis by (auto simp: driver_step_def)
  qed
qed simp

text \<open>A call sent to an idle client and awaited under the next schedule.\<close>

lemma call_single:
  assumes live: "os_live 1 os" and g: "good w" and c: "accepts c" "call_plain c" and "plain_kv (view w)"
    and cp: "client_at cp [] []" and sc: "os_sched os w = (sched, w1)"
  shows "\<exists>cp1 resp cp' w'. send_call 0 c ([cp], w) = Ok ([cp1], w) \<and> send_call 0 c ([cp], w1) = Ok ([cp1], w1) \<and>
     wait_resp os sched 0 ([cp1], w1) = (Ok resp, ([cp'], w')) \<and> client_at cp' [] [] \<and>
     cp_handle cp' = cp_handle cp \<and> view w' = kv_apply c (view w) \<and> good w' \<and>
     kv_answers (view w) c resp \<and> traffic w' = traffic w @ exchanges (cp_handle cp) [c] [resp]"
proof -
  let ?cp = "cp\<lparr>cp_call := channel\<lparr>ch_items := [c]\<rparr>\<rparr>"
  have send: "send_call 0 c ([cp], w') = Ok ([?cp], w')" for w' :: 'w
    using cp by (simp add: send_call_def send_chan_def client_at_def channel_def)
  have w1: "good w1" "view w1 = view w" "traffic w1 = traffic w" using sched_keeps [OF g] log_sched [of w] sc by auto
  have "client_at ?cp [c] []" using cp by (simp add: client_at_def)
  moreover have "0 \<in> set sched" using live sc by (auto simp: os_live_def dest!: spec [of _ w])
  ultimately show ?thesis
    using wait_single [OF w1(1) c, of ?cp sched] assms(5) w1(2,3) send by (intro exI [of _ ?cp]) simp
qed

lemma feed_call_serves:
  assumes "os_live 1 os" and "good w" and "accepts c" and "call_plain c" and "plain_kv (view w)"
    and "client_at cp [] []"
  shows "\<exists>resp cp' w'. feed_call os c ([cp], w) = (Ok (), ([cp'], w')) \<and> client_at cp' [] [] \<and>
     cp_handle cp' = cp_handle cp \<and> view w' = kv_apply c (view w) \<and> good w' \<and>
     kv_answers (view w) c resp \<and> traffic w' = traffic w @ exchanges (cp_handle cp) [c] [resp]"
proof -
  obtain sched w1 where sc: "os_sched os w = (sched, w1)" by (cases "os_sched os w")
  from call_single [OF assms sc] sc show ?thesis by (auto simp: feed_call_def)
qed

lemma stop_single:
  assumes "os_live 1 os" and "good w" and "plain_kv (view w)" and "client_at cp [] []"
    and sc: "os_sched os w = (sched, w1)"
  shows "\<exists>s. client_stop os sched 0 ([cp], w1) = (Ok (), s) \<and> view (snd s) = view w \<and>
     traffic (snd s) = traffic w @ exchanges (cp_handle cp) [KvCall.Stop] [KvResp.Stop]"
proof -
  have "call_plain KvCall.Stop" by (simp add: call_plain_def call_tokens_def)
  from call_single [OF assms(1,2) accepts_stop this assms(3,4) sc] obtain cp1 cp' w2 where
    w: "send_call 0 KvCall.Stop ([cp], w1) = Ok ([cp1], w1)"
      "wait_resp os sched 0 ([cp1], w1) = (Ok KvResp.Stop, ([cp'], w2))"
    and v: "view w2 = view w" "good w2" "traffic w2 = traffic w @ exchanges (cp_handle cp) [KvCall.Stop] [KvResp.Stop]"
    by auto
  obtain w3 where k: "os_kill os (cp_handle cp') w2 = (Ok (), w3)"
    using assms(1) by (metis os_live_def prod.collapse)
  have "client_stop os sched 0 ([cp], w1) = (Ok (), client_drop 0 ([cp'], w3))"
    by (simp add: client_stop_def w k)
  with k v kill_keeps [OF v(2), of "cp_handle cp'"] log_kill [of "cp_handle cp'" w2] show ?thesis
    by (auto simp: client_drop_def)
qed

lemma feed_loop_runs:
  assumes live: "os_live 1 os" and "list_all (\<lambda>l. newline \<notin> set l) ls"
    and "ycsb_calls dbg (map as_line ls) ikeys stats = Ok (calls, ikeys', stats')"
    and "list_all (\<lambda>c. accepts c \<and> call_plain c) calls"
    and "good w" and "plain_kv (view w)" and "client_at cp [] []"
  shows "\<exists>fd cp' w'. feed_loop dbg os \<lparr>fd_stdout = \<lparr>rd_rest = concat (map as_line ls), rd_end = Eof\<rparr>,
        fd_sys = ([cp], w), fd_ikeys = ikeys, fd_stats = stats, fd_ended = False\<rparr> = Some (Ok fd) \<and>
     fd_ended fd \<and> fd_ikeys fd = ikeys' \<and> fd_stats fd = stats' \<and> fd_sys fd = ([cp'], w') \<and>
     client_at cp' [] [] \<and> cp_handle cp' = cp_handle cp \<and> good w' \<and> plain_kv (view w') \<and>
     view w' = fold kv_apply calls (view w) \<and>
     (\<exists>resps. kv_serial (view w) calls resps \<and> traffic w' = traffic w @ exchanges (cp_handle cp) calls resps)"
  using assms(2-)
proof (induction ls arbitrary: ikeys stats calls w cp)
  case Nil
  then show ?case
    by (subst feed_loop.simps) (auto simp: feed_a_line_def read_line_def intro!: exI [of _ "[]"])
next
  case (Cons l ls)
  let ?line = "as_line l" and ?rd = "\<lparr>rd_rest = concat (map as_line ls), rd_end = Eof\<rparr>"
  let ?next = "\<lambda>s ik st. \<lparr>fd_stdout = ?rd, fd_sys = s, fd_ikeys = ik, fd_stats = st, fd_ended = False\<rparr>"
  let ?start = "\<lparr>fd_stdout = \<lparr>rd_rest = concat (map as_line (l # ls)), rd_end = Eof\<rparr>,
        fd_sys = ([cp], w), fd_ikeys = ikeys, fd_stats = stats, fd_ended = False\<rparr>"
  have "utf8_len ?line \<noteq> 0" by (cases l) (simp_all add: as_line_def)
  then have rl: "\<exists>k. read_line (fd_stdout ?start) [] = Some (Ok (k, ?line, ?rd)) \<and> k \<noteq> 0"
    using Cons.prems(1) by (simp add: as_line_def read_line_complete take_line_append)
  have step: "feed_loop dbg os ?start = feed_loop dbg os fd'"
    if "feed_a_line dbg os ?start = Some (Ok (), fd')" "\<not> fd_ended fd'" for fd'
    using that by (subst feed_loop.simps) simp
  show ?case
  proof (cases "trim ?line = []")
    case True
    with rl have "feed_a_line dbg os ?start = Some (Ok (), ?next ([cp], w) ikeys stats)"
      by (auto simp: feed_a_line_def)
    from step [OF this] True Cons.prems Cons.IH [of ikeys stats calls w cp] show ?thesis by simp
  next
    case False
    from Cons.prems(2) False obtain c ik where i: "interpret_ycsb_call dbg ?line ikeys = Ok (c, ik)"
      by (auto simp: run_bind_Ok_iff)
    show ?thesis
    proof (cases c)
      case (Some call)
      with Cons.prems(2) False i obtain calls' where calls: "calls = call # calls'"
        and rest: "ycsb_calls dbg (map as_line ls) ik stats = Ok (calls', ikeys', stats')"
        by (auto simp: run_bind_Ok_iff)
      have ok: "accepts call" "call_plain call" using Cons.prems(3) by (simp_all add: calls)
      from feed_call_serves [OF live Cons.prems(4) ok Cons.prems(5,6)] obtain r cp1 w1 where
        f: "feed_call os call ([cp], w) = (Ok (), ([cp1], w1))" "client_at cp1 [] []" "cp_handle cp1 = cp_handle cp"
        and v: "view w1 = kv_apply call (view w)" "good w1" "kv_answers (view w) call r"
        and lg: "traffic w1 = traffic w @ exchanges (cp_handle cp) [call] [r]" by blast
      have fa: "feed_a_line dbg os ?start = Some (Ok (), ?next ([cp1], w1) ik stats)"
        using rl False i Some f by (auto simp: feed_a_line_def)
      have p1: "plain_kv (view w1)" using plain_kv_apply [OF Cons.prems(5) ok(2)] v(1) by simp
      from Cons.IH [OF _ rest _ v(2) p1 f(2)] Cons.prems(1,3) obtain fd cp' w' resps where
        ih: "feed_loop dbg os (?next ([cp1], w1) ik stats) = Some (Ok fd)" "fd_ended fd" "fd_ikeys fd = ikeys'"
          "fd_stats fd = stats'" "fd_sys fd = ([cp'], w')" "client_at cp' [] []" "cp_handle cp' = cp_handle cp1"
          "good w'" "plain_kv (view w')" "view w' = fold kv_apply calls' (view w1)"
          "kv_serial (view w1) calls' resps" "traffic w' = traffic w1 @ exchanges (cp_handle cp1) calls' resps"
        by (auto simp: calls)
      have "kv_serial (view w) calls (r # resps)" "traffic w' = traffic w @ exchanges (cp_handle cp) calls (r # resps)"
        using ih v lg f(3) by (simp_all add: calls)
      with step [OF fa] ih f(3) v(1) show ?thesis by (auto simp: calls intro!: exI [of _ "r # resps"])
    next
      case None
      have "\<exists>st. feed_a_line dbg os ?start = Some (Ok (), ?next ([cp], w) ik st) \<and>
          ycsb_calls dbg (map as_line ls) ik st = Ok (calls, ikeys', stats')"
        using rl False i None Cons.prems(2)
        by (auto simp: feed_a_line_def run_bind_Ok_iff split: if_splits)
      then obtain st where fa: "feed_a_line dbg os ?start = Some (Ok (), ?next ([cp], w) ik st)"
        and rest: "ycsb_calls dbg (map as_line ls) ik st = Ok (calls, ikeys', stats')" by blast
      from step [OF fa] Cons.IH [OF _ rest Cons.prems(3-6)] Cons.prems(1) show ?thesis by simp
    qed
  qed
qed

end

section \<open>Properties\<close>

text \<open>
  C7. The feeder carries out the workload. If the lines the YCSB process prints are well-formed calls
  and reports (those that the plain reading of the workload accepts), the client's process answers
  as a store, and no wait times out, then the feeder thread ends successfully: it returns the inserted
  keys and the statistics that the lines describe. The traffic with the client's process is exactly
  the calls of the workload, of every kind, in their order, each answered before the next is written,
  and then \<open>STOP\<close>; each answer is the one the specification gives at that point, and the content of
  the store at the end is the one the calls lead to.
\<close>

theorem feeder_runs_workload:
  assumes "recorded_service os view good accepts traffic" and "os_live 1 os"
    and "good w" and "plain_kv (view w)" and "client_at cp [] []"
    and "list_all (\<lambda>l. newline \<notin> set l) ls"
    and "ycsb_calls dbg (map as_line ls) ikeys bstats_new = Ok (calls, ikeys', stats)"
    and "list_all (\<lambda>c. accepts c \<and> call_plain c) calls"
  shows "\<exists>s resps. feeder_thread dbg os \<lparr>rd_rest = concat (map as_line ls), rd_end = Eof\<rparr> ([cp], w) ikeys
       = Some (Ok (Some (stats\<lparr>sb_merged := 1\<rparr>, ikeys'), s)) \<and>
     traffic (snd s) = traffic w @ exchanges (cp_handle cp) (calls @ [KvCall.Stop]) (resps @ [KvResp.Stop]) \<and>
     kv_serial (view w) calls resps \<and> view (snd s) = fold kv_apply calls (view w)"
proof -
  from recorded_service.feed_loop_runs [OF assms(1,2,6,7,8,3,4,5)] obtain fd cp' w' resps where
    f: "feed_loop dbg os \<lparr>fd_stdout = \<lparr>rd_rest = concat (map as_line ls), rd_end = Eof\<rparr>,
        fd_sys = ([cp], w), fd_ikeys = ikeys, fd_stats = bstats_new, fd_ended = False\<rparr> = Some (Ok fd)"
    and fd: "fd_ended fd" "fd_ikeys fd = ikeys'" "fd_stats fd = stats" "fd_sys fd = ([cp'], w')"
    and cp: "client_at cp' [] []" "cp_handle cp' = cp_handle cp" and g: "good w'" "plain_kv (view w')"
    and v: "view w' = fold kv_apply calls (view w)" "kv_serial (view w) calls resps"
      "traffic w' = traffic w @ exchanges (cp_handle cp) calls resps" by blast
  obtain sched w1 where sc: "os_sched os w' = (sched, w1)" by (cases "os_sched os w'")
  from recorded_service.stop_single [OF assms(1,2) g cp(1) sc] f fd sc cp(2) v kv_serial_length [OF v(2)]
  show ?thesis by (auto simp: feeder_thread_def exchanges_append intro!: exI [of _ resps])
qed

text \<open>A small workload on the reference client.\<close>

definition demo_workload :: "string list" where
  "demo_workload = [''INSERT t k [ v ]'', [], ''READ t k'', ''[OVERALL], RunTime(ms), 7'']"

theorem feeder_runs_workload_witness:
  "\<exists>s calls resps. feeder_thread True (log_os (cli_os ref_round 1))
       \<lparr>rd_rest = concat (map as_line demo_workload), rd_end = Eof\<rparr> ([fresh_client], (empty_world, [])) []
     = Some (Ok (Some (bstats_new\<lparr>sb_total_ms := f64_of_usize 7, sb_merged := 1\<rparr>, [''t_k'']), s)) \<and>
     calls = [KvCall.Put ''t_k'' ''_v_]'', KvCall.Get ''t_k''] \<and>
     snd (snd s) = exchanges (cp_handle fresh_client) (calls @ [KvCall.Stop]) (resps @ [KvResp.Stop]) \<and>
     kv_serial Map.empty calls resps \<and> cw_view (fst (snd s)) = fold kv_apply calls Map.empty"
proof -
  have c: "ycsb_calls True (map as_line demo_workload) [] bstats_new
      = Ok ([KvCall.Put ''t_k'' ''_v_]'', KvCall.Get ''t_k''], [''t_k''],
            bstats_new\<lparr>sb_total_ms := f64_of_usize 7\<rparr>)" by code_simp
  have p: "list_all (\<lambda>c. no_scan c \<and> call_plain c) [KvCall.Put ''t_k'' ''_v_]'', KvCall.Get ''t_k'']"
    by (simp add: no_scan_def call_plain_def call_tokens_def plain_entry_def is_token_def is_whitespace_def)
  have l: "list_all (\<lambda>l. newline \<notin> set l) demo_workload" by (simp add: demo_workload_def newline_def)
  have w: "cw_good (fst (empty_world, []))" "plain_kv (cw_view (fst (empty_world, [])))"
    by (simp_all add: empty_world_good empty_world_view plain_kv_def)
  have a: "client_at fresh_client [] []" by (simp add: client_at_def fresh_client_def channel_def)
  from feeder_runs_workload [OF cli_logged.recorded_service_axioms log_os_live [OF cli_os_live] w a l c p]
  show ?thesis by (auto simp: empty_world_view)
qed

end
