(* ===== verification/Service.thy ===== *)
theory Service
  imports Proc
begin

text \<open>
  The service launcher (\<open>runner/src/bin/service/main.rs\<close>): it starts the manager or the server the
  node id asks for, unless the arguments say \<open>none\<close>, and waits for it to exit.
\<close>

section \<open>The launcher\<close>

record ServiceArgs =
  node_id :: string
  server_just_args :: "string list"
  manager_just_args :: "string list"

text \<open>\<open>str::to_lowercase\<close> on U+0000 to U+00FF.\<close>

definition lower_char :: "char \<Rightarrow> char" where
  "lower_char c =
     (let n = (of_char c :: nat)
      in if (65 \<le> n \<and> n \<le> 90) \<or> (192 \<le> n \<and> n \<le> 222 \<and> n \<noteq> 215) then char_of (n + 32) else c)"

definition to_lowercase :: "string \<Rightarrow> string" where
  "to_lowercase s = map lower_char s"

definition launch :: "'w os \<Rightarrow> string list \<Rightarrow> 'w \<Rightarrow> (unit, RunnerError) run option" where
  "launch os just_args w =
     (case server_new os just_args w of
        (Ok sp, w') \<Rightarrow> server_wait os sp w'
      | (Err e, w') \<Rightarrow> Some (Err e)
      | (Panic, w') \<Rightarrow> Some Panic)"

text \<open>The two \<open>if\<close> conditions index the first argument, which panics on an empty list.\<close>

definition wanted :: "string list \<Rightarrow> (bool, RunnerError) run" where
  "wanted just_args =
     (case just_args of [] \<Rightarrow> Panic | a # _ \<Rightarrow> Ok (to_lowercase a \<noteq> ''none''))"

definition service_main :: "'w os \<Rightarrow> ServiceArgs \<Rightarrow> 'w \<Rightarrow> (unit, RunnerError) run option" where
  "service_main os args w =
     (let id = node_id args
      in if id = [] \<or> (\<not> starts_with id (CHR ''s'') \<and> \<not> starts_with id (CHR ''m'')) then
           Some (Err (Parse (''invalid 'node_id' argument: '' @ id)))
         else
           case (if starts_with id (CHR ''m'') then wanted (manager_just_args args) else Ok False) of
             Err e \<Rightarrow> Some (Err e)
           | Panic \<Rightarrow> Some Panic
           | Ok True \<Rightarrow> launch os (manager_just_args args) w
           | Ok False \<Rightarrow>
               (case (if starts_with id (CHR ''s'') then wanted (server_just_args args) else Ok False) of
                  Err e \<Rightarrow> Some (Err e)
                | Panic \<Rightarrow> Some Panic
                | Ok True \<Rightarrow> launch os (server_just_args args) w
                | Ok False \<Rightarrow> Some (Ok ())))"

section \<open>Properties\<close>

text \<open>The arguments of the role that the node id names.\<close>

definition role_args :: "ServiceArgs \<Rightarrow> string list option" where
  "role_args args =
     (case node_id args of
        [] \<Rightarrow> None
      | c # _ \<Rightarrow> if c = CHR ''m'' then Some (manager_just_args args)
                 else if c = CHR ''s'' then Some (server_just_args args) else None)"

lemma service_main_role:
  "service_main os args w =
     (case role_args args of
        None \<Rightarrow> Some (Err (Parse (''invalid 'node_id' argument: '' @ node_id args)))
      | Some [] \<Rightarrow> Some Panic
      | Some (a # as) \<Rightarrow>
          if to_lowercase a = ''none'' then Some (Ok ()) else launch os (a # as) w)"
  by (cases "node_id args")
     (auto simp: service_main_def role_args_def wanted_def Let_def split: list.splits)

text \<open>
  C39. The launcher's success: it returns \<open>Ok\<close> exactly if the node id starts with \<open>s\<close> or \<open>m\<close>, the
  arguments of that role are given, and either the first one is \<open>none\<close> (in any case of letters), so
  that nothing is started, or the started process exits successfully.
\<close>

theorem service_ok_iff:
  "service_main os args w = Some (Ok ()) \<longleftrightarrow>
     (\<exists>a as. role_args args = Some (a # as) \<and>
        (to_lowercase a = ''none'' \<or>
         (\<exists>pid w' status. os_spawn os (''just'' # a # as) w = (Ok pid, w') \<and>
            os_wait os pid w' = Some (Ok (True, status)))))"
proof -
  have launch: "launch os as w = Some (Ok ()) \<longleftrightarrow>
      (\<exists>pid w' status. os_spawn os (''just'' # as) w = (Ok pid, w') \<and>
         os_wait os pid w' = Some (Ok (True, status)))" for as
  proof -
    obtain r w' where sp: "os_spawn os (''just'' # as) w = (r, w')"
      by (cases "os_spawn os (''just'' # as) w")
    show ?thesis
    proof (cases r)
      case (Ok pid)
      show ?thesis
      proof (cases "os_wait os pid w'")
        case (Some st)
        then show ?thesis using sp Ok
          by (cases st) (auto simp: launch_def server_new_def server_wait_def split: if_splits)
      qed (use sp Ok in \<open>simp add: launch_def server_new_def server_wait_def\<close>)
    qed (use sp in \<open>simp_all add: launch_def server_new_def\<close>)
  qed
  show ?thesis
    unfolding service_main_role by (auto simp: launch split: option.splits list.splits)
qed

text \<open>
  C40. If the arguments of the role that the node id names are left out, the launcher panics: it
  indexes the first of them.
\<close>

theorem service_missing_args_panics:
  assumes "role_args args = Some []"
  shows "service_main os args w = Some Panic"
  using assms by (simp add: service_main_role)

theorem service_missing_args_panics_witness:
  "service_main script_os \<lparr>node_id = ''m.0'', server_just_args = [''kv''], manager_just_args = []\<rparr> []
     = Some Panic"
  by (rule service_missing_args_panics) (simp add: role_args_def)

end
