(* ===== verification/Bencher.thy ===== *)
theory Bencher
  imports Ycsb
begin

text \<open>
  The YCSB bencher (\<open>runner/src/bin/bencher/main.rs\<close>): launching one driver per client, collecting and
  merging their reports, and the two phases of the main function. Every client and its driver see the
  rest of the system through a view of their own (a list entry for each); \<open>in_time\<close> tells whether a
  driver ends before the timeout. Terminal output, but for the lookups it makes, and the pauses are
  not modelled.
\<close>

section \<open>A benchmark phase\<close>

record BenchArgs =
  ba_num_clis :: nat
  ba_num_ops :: nat
  ba_workload :: char
  ba_client_just_args :: "string list"

definition VALID_WORKLOADS :: "char list" where
  "VALID_WORKLOADS = [CHR ''a'', CHR ''b'', CHR ''c'', CHR ''d'', CHR ''e'', CHR ''f'']"

fun exec_all ::
  "bool \<Rightarrow> 'w os \<Rightarrow> BenchArgs \<Rightarrow> bool \<Rightarrow> string btree_set \<Rightarrow> 'w sys list
     \<Rightarrow> ((YcsbDriver \<times> 'w) list, RunnerError) run" where
  "exec_all dbg os args load ikeys [] = Ok []"
| "exec_all dbg os args load ikeys (client # clients) =
     (case driver_exec dbg os (ba_workload args) (ba_num_ops args) load client ikeys of
        (res, s) \<Rightarrow>
          run_bind res (\<lambda>driver.
          run_bind (exec_all dbg os args load ikeys clients) (\<lambda>drivers.
          Ok ((driver, snd s) # drivers))))"

fun wait_all ::
  "bool \<Rightarrow> 'w os \<Rightarrow> (nat \<Rightarrow> bool) \<Rightarrow> nat \<Rightarrow> (YcsbDriver \<times> 'w) list \<Rightarrow> BStats \<Rightarrow> string btree_set
     \<Rightarrow> (BStats \<times> string btree_set, RunnerError) run" where
  "wait_all dbg os in_time i [] stats ikeys = Ok (stats, ikeys)"
| "wait_all dbg os in_time i ((driver, w) # drivers) stats ikeys =
     run_bind (driver_wait os (in_time i) driver w) (\<lambda>ret.
       case ret of
         Some (cli_stats, cli_ikeys) \<Rightarrow>
           run_bind (stats_merge dbg stats cli_stats) (\<lambda>stats'.
             wait_all dbg os in_time (Suc i) drivers stats' (bs_extend ikeys cli_ikeys))
       | None \<Rightarrow> Err (Io ''a YCSB driver process failed''))"

definition ycsb_bench ::
  "bool \<Rightarrow> 'w os \<Rightarrow> (nat \<Rightarrow> bool) \<Rightarrow> BenchArgs \<Rightarrow> 'w sys list \<Rightarrow> bool \<Rightarrow> string btree_set
     \<Rightarrow> (BStats \<times> string btree_set, RunnerError) run" where
  "ycsb_bench dbg os in_time args clients load ikeys =
     run_bind (exec_all dbg os args load ikeys clients) (\<lambda>drivers.
       wait_all dbg os in_time 0 drivers bstats_new [])"

section \<open>The main function\<close>

fun bench_clients ::
  "'w os \<Rightarrow> string list \<Rightarrow> 'w list \<Rightarrow> ('w sys list, RunnerError) run" where
  "bench_clients os just_args [] = Ok []"
| "bench_clients os just_args (w # ws) =
     (case client_new os just_args w of
        (res, w') \<Rightarrow>
          run_bind res (\<lambda>cp.
          run_bind (bench_clients os just_args ws) (\<lambda>cs. Ok (([cp], w') # cs))))"

text \<open>\<open>views_load\<close> and \<open>views_run\<close> give the view of each client of the two phases.\<close>

definition bench_main ::
  "bool \<Rightarrow> 'w os \<Rightarrow> (nat \<Rightarrow> bool) \<Rightarrow> (nat \<Rightarrow> bool) \<Rightarrow> BenchArgs \<Rightarrow> (nat \<Rightarrow> 'w) \<Rightarrow> (nat \<Rightarrow> 'w)
     \<Rightarrow> (BStats \<times> BStats, RunnerError) run" where
  "bench_main dbg os load_in_time run_in_time args views_load views_run =
     (if ba_num_clis args = 0 \<or> ba_workload args \<notin> set VALID_WORKLOADS then Panic
      else
        run_bind (bench_clients os (ba_client_just_args args) (map views_load [0..<ba_num_clis args]))
          (\<lambda>clients_load.
        run_bind (ycsb_bench dbg os load_in_time args clients_load True []) (\<lambda>(stats_load, ikeys_load).
        run_bind (bench_clients os (ba_client_just_args args) (map views_run [0..<ba_num_clis args]))
          (\<lambda>clients_run.
        run_bind (ycsb_bench dbg os run_in_time args clients_run False ikeys_load) (\<lambda>(stats_run, _).
        run_bind (stats_print dbg stats_load) (\<lambda>_.
        run_bind (stats_print dbg stats_run) (\<lambda>_.
        Ok (stats_load, stats_run))))))))"

section \<open>Collecting the reports\<close>

lemma wait_all_Ok:
  assumes "wait_all dbg os in_time i drivers stats ikeys = Ok (stats', ikeys')"
  shows "\<exists>reports. length reports = length drivers \<and>
     (\<forall>j < length drivers. in_time (i + j) \<and>
        yd_feeder (fst (drivers ! j)) = Some (Ok (Some (reports ! j)))) \<and>
     merge_all dbg stats (map fst reports) = Ok stats' \<and>
     ikeys' = fold (\<lambda>r s. bs_extend s (snd r)) reports ikeys"
  using assms
proof (induction drivers arbitrary: i stats ikeys)
  case (Cons d drivers)
  obtain yd w where d: "d = (yd, w)" by (cases d)
  from Cons.prems obtain rs rk st1 where
    wt: "driver_wait os (in_time i) yd w = Ok (Some (rs, rk))"
    and m: "stats_merge dbg stats rs = Ok st1"
    and rest: "wait_all dbg os in_time (Suc i) drivers st1 (bs_extend ikeys rk) = Ok (stats', ikeys')"
    by (auto simp: d run_bind_Ok_iff split: option.splits)
  from wt have f: "in_time i" "yd_feeder yd = Some (Ok (Some (rs, rk)))"
    by (auto simp: driver_wait_def run_bind_Ok_iff split: if_splits option.splits run.splits)
  from Cons.IH [OF rest] obtain reports where
    r: "length reports = length drivers"
      "\<forall>j < length drivers. in_time (Suc i + j) \<and> yd_feeder (fst (drivers ! j)) = Some (Ok (Some (reports ! j)))"
      "merge_all dbg st1 (map fst reports) = Ok stats'"
      "ikeys' = fold (\<lambda>r s. bs_extend s (snd r)) reports (bs_extend ikeys rk)" by blast
  have "in_time (i + j) \<and> yd_feeder (fst ((d # drivers) ! j)) = Some (Ok (Some (((rs, rk) # reports) ! j)))"
    if "j < length (d # drivers)" for j
    using that f r(2) d by (cases j) auto
  with r m show ?case by (intro exI [of _ "(rs, rk) # reports"]) simp
qed simp

lemma set_fold_extend:
  "set (fold (\<lambda>r s. bs_extend s (snd r)) reports ikeys) = set ikeys \<union> \<Union> ((\<lambda>r. set (snd r)) ` set reports)"
  by (induction reports arbitrary: ikeys) auto

lemma sorted_fold_extend:
  "sorted_wrt (<) ikeys \<Longrightarrow> sorted_wrt (<) (fold (\<lambda>r s. bs_extend s (snd r)) reports ikeys)"
  by (induction reports arbitrary: ikeys) (auto simp: sorted_bs_extend)

lemma exec_all_length:
  "exec_all dbg os args load ikeys clients = Ok drivers \<Longrightarrow> length drivers = length clients"
  by (induction clients arbitrary: drivers) (auto simp: run_bind_Ok_iff split: prod.splits)

section \<open>Properties\<close>

text \<open>
  C34. What a successful phase reports: every client's driver has finished its workload in time, the
  statistics are the merge of all their reports, in the order of the clients, and the inserted keys
  are, sorted and without repetition, those inserted by any of them.
\<close>

theorem ycsb_bench_collects:
  assumes "ycsb_bench dbg os in_time args clients load ikeys = Ok (stats, ikeys')"
  shows "\<exists>drivers reports. exec_all dbg os args load ikeys clients = Ok drivers \<and>
     length drivers = length clients \<and> length reports = length clients \<and>
     (\<forall>j < length clients. in_time j \<and> yd_feeder (fst (drivers ! j)) = Some (Ok (Some (reports ! j)))) \<and>
     merge_all dbg bstats_new (map fst reports) = Ok stats \<and>
     sorted_wrt (<) ikeys' \<and> set ikeys' = \<Union> ((\<lambda>r. set (snd r)) ` set reports)"
proof -
  from assms obtain drivers where ex: "exec_all dbg os args load ikeys clients = Ok drivers"
    and wt: "wait_all dbg os in_time 0 drivers bstats_new [] = Ok (stats, ikeys')"
    by (auto simp: ycsb_bench_def run_bind_Ok_iff)
  note len = exec_all_length [OF ex]
  from wait_all_Ok [OF wt] obtain reports where r: "length reports = length drivers"
    "\<forall>j < length drivers. in_time (0 + j) \<and> yd_feeder (fst (drivers ! j)) = Some (Ok (Some (reports ! j)))"
    "merge_all dbg bstats_new (map fst reports) = Ok stats"
    "ikeys' = fold (\<lambda>r s. bs_extend s (snd r)) reports []" by blast
  have "sorted_wrt (<) ikeys'" unfolding r(4) by (rule sorted_fold_extend) simp
  moreover have "set ikeys' = \<Union> ((\<lambda>r. set (snd r)) ` set reports)" unfolding r(4) set_fold_extend by simp
  ultimately show ?thesis using ex len r by auto
qed

text \<open>A workload of two lines on a client that answers them.\<close>

definition bench_os :: "string list os" where
  "bench_os = script_os\<lparr>os_output := \<lambda>_ w. (case w of [] \<Rightarrow> (([], Eof), []) | t # ts \<Rightarrow> ((t, Eof), ts))\<rparr>"

definition bench_args :: BenchArgs where
  "bench_args = \<lparr>ba_num_clis = 1, ba_num_ops = 1, ba_workload = CHR ''a'', ba_client_just_args = []\<rparr>"

definition bench_view :: "string list" where
  "bench_view = [''INSERT t k [ v ]'' @ [newline], ''PUT t_k not_found'' @ [newline], ''STOP'' @ [newline]]"

theorem ycsb_bench_collects_witness:
  "\<exists>drivers reports. exec_all True bench_os bench_args True [] [([fresh_client], bench_view)] = Ok drivers \<and>
     length reports = 1 \<and> yd_feeder (fst (drivers ! 0)) = Some (Ok (Some (reports ! 0))) \<and>
     set [''t_k''] = \<Union> ((\<lambda>r. set (snd r)) ` set reports)"
proof -
  have "ycsb_bench True bench_os (\<lambda>_. True) bench_args [([fresh_client], bench_view)] True []
      = Ok (bstats_new\<lparr>sb_merged := 1\<rparr>, [''t_k''])" by code_simp
  from ycsb_bench_collects [OF this] show ?thesis by auto
qed

end
