(* ===== verification/Spec2Isabelle.thy ===== *)
theory Spec2Isabelle
  imports FuzzLin Report YcsbRun Service Bencher
begin

text \<open>
  \<^bold>\<open>madkv: the testing runner of a distributed key-value store course project.\<close>

  The Rust program under \<open>src/runner\<close> drives the key-value clients that students build: it starts
  them as child processes, writes calls to their standard input, one line each, and reads their
  responses from their standard output. Three executables share the library: the fuzzer (random
  concurrent calls, with a consistency check of the responses), the bencher (YCSB workloads), and the
  service launcher (manager and servers). \<open>src/refcli\<close> is a reference client that keeps its data in
  its own memory.

  \<^bold>\<open>Conventions.\<close> A fallible operation returns \<open>run\<close>: \<open>Ok\<close>, \<open>Err\<close> with the error value that \<open>?\<close>
  propagates, or \<open>Panic\<close> (\<open>unwrap\<close>, an index out of range, \<open>assert!\<close>, and in a debug build a failed
  \<open>debug_assert!\<close> or an overflow). The flag \<open>dbg\<close> chooses between a debug and a release build, in
  which \<open>debug_assert!\<close> is void and arithmetic wraps. An operation that may block or loop forever
  returns an option, with \<^term>\<open>None\<close> for not returning; the loops are partial functions in the
  option monad, so no fuel is needed anywhere, and termination is always a theorem of its own. Time
  stamps are 64-bit words; \<open>usize\<close> values are natural numbers with the wrap-around at \<open>2 ^ 64\<close>
  written out (\<open>usize_add\<close>, \<open>usize_sub\<close>, \<open>usize_mul\<close>). Strings are lists of characters U+0000 to
  U+00FF; \<open>f64\<close> is IEEE binary64 with round-to-nearest-even.

  \<^bold>\<open>Parameters.\<close> The operating system and the child processes are the record \<open>os\<close> over a state that
  they all share (theory \<open>Proc\<close>): spawning, writing to a process, what it prints, waiting, killing,
  and the schedule of the driver threads during the next wait. The generator of the \<open>rand\<close> crate is
  the record \<open>rng_ops\<close> (theory \<open>Rand\<close>), with its documented ranges as the hypothesis \<open>rng_ok\<close> and
  that it draws every index sooner or later as \<open>rng_fair\<close>. What \<open>cprintln!\<close> makes of colour tags is
  an argument of the report.

  \<^bold>\<open>Theories.\<close>

  \<^item> \<open>Prelude\<close>: the run monad, checked and wrapping integers, whitespace and words, decimal numbers,
    buffered readers; the locale \<open>line_codec\<close> (a printed line is read back) and the locale
    \<open>break_loop\<close> (outcome, errors and termination of a loop with an invariant and a measure).
  \<^item> \<open>Errors\<close> (\<open>runner/src/error.rs\<close>): the error type, its text, and the conversions of \<open>?\<close>.
  \<^item> \<open>Ioapi\<close> (\<open>runner/src/ioapi.rs\<close>): calls, responses, the writer of calls and the reader of
    responses. Reading terminates on inputs with text left, accepted fields are words, and at the end
    of file the reader loops forever.
  \<^item> \<open>BTree\<close>, \<open>KvSpec\<close>: the ordered map and set of the standard library (locale \<open>ordered_map\<close>), and
    the abstract specification of the key-value service.
  \<^item> \<open>RefCli\<close> (\<open>refcli/src/main.rs\<close>): parser, handler, writer and main loop. The handler refines the
    specification but for scans, which leave out the end key; both directions of the text interface
    are interpretations of \<open>line_codec\<close>, and a whole session is read back by the runner.
  \<^item> \<open>Proc\<close> (\<open>runner/src/proc.rs\<close>): channels (locale \<open>fifo_channel\<close>), server and client handles, the
    driver thread, and the interleavings of owner and drivers as the inductive relation \<open>sys_run\<close>. The
    k-th response is the answer to the k-th call under every interleaving.
  \<^item> \<open>History\<close>, \<open>Offline\<close>, \<open>Lineariz\<close> (\<open>runner/src/bin/fuzzer/history.rs\<close>): the online checker with its
    trimmed per-client spans and queue (locale \<open>span_check\<close> for the five checks); it is equivalent to
    checking every decided operation against the complete history; a linearizable run never raises an
    alarm; exact characterisations of what the checks accept, and of what they cannot see.
  \<^item> \<open>Rand\<close> (\<open>fuzzer/random.rs\<close>), \<open>Fuzzer\<close>, \<open>Report\<close> (\<open>fuzzer/main.rs\<close>): random choices, statistics, the
    test loop, the main function and the text of its report. A generated call changes the statistics
    by exactly its own counts (\<open>accounted\<close>), and the printed statistics and result can be read back.
  \<^item> \<open>FuzzInv\<close>: the invariant of the test loop, the absence of panics and termination of the main
    function, whatever the clients do.
  \<^item> \<open>Store\<close>: the contract of a store behind client processes (locale \<open>kv_service\<close>), interpreted on the
    process that the reference client's loop makes (for calls other than scans) and on the same with
    an inclusive scan. The locale \<open>recorded_os\<close> adds a record of what is written to and read from
    the processes, \<open>recorded_service\<close> is both; \<open>log_os\<close> keeps such a record beside any system, and
    is the interpretation on the reference client's process.
  \<^item> \<open>FuzzLin\<close>: the fuzzer against such a store. It never reports a failure; if waits are long enough,
    it completes and passes; and what a passed test means in general. The linearization is a ghost
    list of the operations in the order in which the drivers carried them out.
  \<^item> \<open>F64\<close>, \<open>BenchStats\<close>, \<open>Bencher\<close> (\<open>bencher/main.rs\<close>): floating-point numbers, the statistics and their
    merge, a benchmark phase and the main function.
  \<^item> \<open>Ycsb\<close>, \<open>YcsbRun\<close> (\<open>bencher/ycsb.rs\<close>): interpretation of the lines of a YCSB process, the feeder
    thread and the driver handle; the feeder ends whenever the process does, and against a store the
    recorded traffic with its client is exactly the calls of the workload, in their order, each with
    its answer.
  \<^item> \<open>Service\<close> (\<open>runner/src/bin/service/main.rs\<close>): the launcher.

  \<^bold>\<open>Modelling choices.\<close> One iteration of a driver thread is one atomic step: it meets the owner of the
  handle only at the two channels. The \<open>writeln!\<close> of a call is one write to the process, although it
  may be several on an unbuffered pipe. A wait with a timeout is a finite schedule of such steps, at whose
  end the timeout expires. In the bencher every driver sees the rest of the system through a state of
  its own. Time stamps stay below \<open>2 ^ 64\<close> because a test makes two steps per operation; the
  hypotheses on \<open>num_ops\<close> and \<open>num_clis\<close> state this bound.

  \<^bold>\<open>Not modelled.\<close> Command line parsing (\<open>clap\<close>), the terminal output other than the fuzzer's final
  report and the lookups of the bencher's (progress lines, colours, number formats of the bencher),
  failures of the terminal, the pauses before a test, thread-local read buffers (they only save
  allocations), and \<open>runner/src/lib.rs\<close>, which only re-exports. The P model, the Python report
  generator and the just recipes of the repository are not part of the Rust program.
\<close>

end
